(* ===== verification/Bmc_Prelude.thy ===== *)
theory Bmc_Prelude
  imports Main "HOL-Library.Word"
begin

text \<open>
  The shared layer of the development: the names of the machine integer types, bytes and
  ASCII literals, and the byte-buffer operations (a bounded copy, 16-bit loads and stores in
  both byte orders) that the packet programs and the memcached components use, with their
  rewrite rules.  The collection \<open>buf_simps\<close> holds the rules on buffers.
\<close>

unbundle bit_operations_syntax

named_theorems buf_simps

type_synonym u8 = "8 word"
type_synonym u16 = "16 word"
type_synonym u32 = "32 word"
type_synonym u64 = "64 word"

section \<open>Bytes and ASCII literals\<close>

text \<open>The byte of a character literal, and the bytes of a string literal.\<close>

abbreviation (input) asc :: "char \<Rightarrow> u8" where
  "asc c \<equiv> of_char c"

definition bytes :: "string \<Rightarrow> u8 list" where
  "bytes s = map of_char s"

abbreviation (input) chr_cr :: u8 where "chr_cr \<equiv> 13"

abbreviation (input) chr_nl :: u8 where "chr_nl \<equiv> 10"

abbreviation (input) chr_sp :: u8 where "chr_sp \<equiv> 32"

lemma bytes_simps [simp]:
  "bytes [] = []" "bytes (c # s) = of_char c # bytes s"
  by (simp_all add: bytes_def)

lemma length_bytes [simp]: "length (bytes s) = length s"
  by (simp add: bytes_def)

section \<open>Bounds of words\<close>

lemma unat_u8_less [simp]: "unat (b :: u8) < 256"
  using unsigned_less [of b, where ?'a = nat] by simp

lemma unat_u16_less [simp]: "unat (w :: u16) < 65536"
  using unsigned_less [of w, where ?'a = nat] by simp

lemma unat_u32_less [simp]: "unat (w :: u32) < 4294967296"
  using unsigned_less [of w, where ?'a = nat] by simp

lemma unat_u64_less [simp]: "unat (w :: u64) < 18446744073709551616"
  using unsigned_less [of w, where ?'a = nat] by simp

lemma unat_of_nat_u32 [simp]: "n < 4294967296 \<Longrightarrow> unat (of_nat n :: u32) = n"
  by (simp add: unat_of_nat)

lemma unat_of_nat_u16 [simp]: "n < 65536 \<Longrightarrow> unat (of_nat n :: u16) = n"
  by (simp add: unat_of_nat)

lemma of_nat_neq_word: "j < unat w \<Longrightarrow> of_nat j \<noteq> (w :: 'a::len word)"
  by (metis le_unat_uoi less_not_refl order.strict_implies_order)

lemma unat_add_one_u32: "unat (w :: u32) + 1 < 4294967296 \<Longrightarrow> unat (w + 1) = unat w + 1"
  by (simp add: unat_word_ariths)

lemma unat_sub_le: "unat (b :: 'a::len word) \<le> unat a \<Longrightarrow> unat (a - b) = unat a - unat b"
  by (simp add: unat_sub word_le_nat_alt)

lemma sint_small_u32:
  assumes "unat (w :: u32) < 2147483648"
  shows "sint w = int (unat w)"
proof -
  have "int (unat w) < 2147483648" using assms by linarith
  then have "uint w < 2 ^ 31" by simp
  moreover have "- 2147483648 \<le> uint w" using uint_ge_0 [of w] by linarith
  ultimately show ?thesis using signed_take_bit_int_eq_self [of 31 "uint w"] by (simp add: sint_uint)
qed

lemma unat_ucast_u64 [simp]: "unat (ucast (w :: u32) :: u64) = unat w"
proof -
  have "unat w < 18446744073709551616" using unat_u32_less [of w] by linarith
  then show ?thesis by (simp add: unsigned_ucast_eq take_bit_eq_mod)
qed

lemma unat_ucast_u32: "unat (w :: u64) < 4294967296 \<Longrightarrow> unat (ucast w :: u32) = unat w"
  by (simp add: unsigned_ucast_eq take_bit_eq_mod)

section \<open>Buffers\<close>

text \<open>
  \<open>memcpy_at xs i ys\<close> is the buffer \<open>xs\<close> after \<open>ys\<close> was copied to offset \<open>i\<close>.  A copy that
  reaches behind the end of the buffer makes the list longer, so a buffer that keeps its length was not overrun.
\<close>

definition memcpy_at :: "'a list \<Rightarrow> nat \<Rightarrow> 'a list \<Rightarrow> 'a list" where
  "memcpy_at xs i ys = take i xs @ ys @ drop (i + length ys) xs"

text \<open>\<open>segment i n xs\<close> is the \<open>n\<close> bytes of \<open>xs\<close> from offset \<open>i\<close>.\<close>

definition segment :: "nat \<Rightarrow> nat \<Rightarrow> 'a list \<Rightarrow> 'a list" where
  "segment i n xs = take n (drop i xs)"

lemma length_memcpy_at [simp, buf_simps]:
  "i + length ys \<le> length xs \<Longrightarrow> length (memcpy_at xs i ys) = length xs"
  by (simp add: memcpy_at_def)

lemma nth_memcpy_at [buf_simps]:
  assumes "i + length ys \<le> length xs" and "j < length xs"
  shows "memcpy_at xs i ys ! j = (if i \<le> j \<and> j < i + length ys then ys ! (j - i) else xs ! j)"
  using assms by (auto simp: memcpy_at_def nth_append min_def)

lemma length_segment [simp, buf_simps]: "length (segment i n xs) = min n (length xs - i)"
  by (simp add: segment_def)

lemma nth_segment [simp, buf_simps]:
  "j < n \<Longrightarrow> i + j < length xs \<Longrightarrow> segment i n xs ! j = xs ! (i + j)"
  by (simp add: segment_def)

lemma segment_memcpy_at_same [simp, buf_simps]:
  "i + length ys \<le> length xs \<Longrightarrow> segment i (length ys) (memcpy_at xs i ys) = ys"
  by (simp add: segment_def memcpy_at_def)

lemma segment_memcpy_at_other [buf_simps]:
  assumes "i + length ys \<le> length xs" and "j + n \<le> i \<or> i + length ys \<le> j" and "j + n \<le> length xs"
  shows "segment j n (memcpy_at xs i ys) = segment j n xs"
  using assms by (intro nth_equalityI) (auto simp: nth_memcpy_at)

lemma take_memcpy_at [simp, buf_simps]:
  "j \<le> i \<Longrightarrow> i \<le> length xs \<Longrightarrow> take j (memcpy_at xs i ys) = take j xs"
  by (simp add: memcpy_at_def min_def)

lemma drop_memcpy_at [simp, buf_simps]:
  assumes "i + length ys \<le> j" and "i + length ys \<le> length xs"
  shows "drop j (memcpy_at xs i ys) = drop j xs"
proof -
  have "j - (i + length ys) + (i + length ys) = j" using assms(1) by simp
  then show ?thesis using assms by (simp add: memcpy_at_def drop_append)
qed

lemma memcpy_at_memcpy_at_adjacent:
  assumes "i + length ys + length zs \<le> length xs"
  shows "memcpy_at (memcpy_at xs i ys) (i + length ys) zs = memcpy_at xs i (ys @ zs)"
  using assms by (simp add: memcpy_at_def min_absorb2 drop_append ac_simps)

lemma memcpy_at_Nil [simp, buf_simps]: "memcpy_at xs i [] = xs"
  by (simp add: memcpy_at_def)

lemma memcpy_at_singleton: "i < length xs \<Longrightarrow> memcpy_at xs i [y] = xs[i := y]"
  by (simp add: memcpy_at_def upd_conv_take_nth_drop)

lemma memcpy_at_Cons:
  assumes "j + 1 + length p \<le> length xs"
  shows "memcpy_at (memcpy_at xs j [c]) (j + 1) p = memcpy_at xs j (c # p)"
  using assms memcpy_at_memcpy_at_adjacent [of j "[c]" p xs] by simp

lemma memcpy_at_update_Cons:
  assumes "j + 1 + length p \<le> length xs"
  shows "memcpy_at (xs[j := c]) (j + 1) p = memcpy_at xs j (c # p)"
  using assms memcpy_at_Cons [OF assms, of c] by (simp add: memcpy_at_singleton)

lemma segment_append: "segment i (m + n) xs = segment i m xs @ segment (i + m) n xs"
  by (simp add: segment_def take_add add.commute)

lemma segment_Suc: "i < length xs \<Longrightarrow> segment i (Suc n) xs = xs ! i # segment (Suc i) n xs"
  by (simp add: segment_def Cons_nth_drop_Suc [symmetric])

lemma memcpy_at_append_right:
  "memcpy_at (xs @ zs) (length xs + i) ys = xs @ memcpy_at zs i ys"
  by (simp add: memcpy_at_def add.assoc)

lemma memcpy_at_append_left:
  "i + length ys \<le> length xs \<Longrightarrow> memcpy_at (xs @ zs) i ys = memcpy_at xs i ys @ zs"
  by (simp add: memcpy_at_def)

lemma segment_append_right: "segment (length xs + i) n (xs @ zs) = segment i n zs"
  by (simp add: segment_def)

lemma segment_append_left: "i + n \<le> length xs \<Longrightarrow> segment i n (xs @ zs) = segment i n xs"
  by (simp add: segment_def)

lemma segment_0 [simp]: "segment 0 n xs = take n xs"
  by (simp add: segment_def)

lemma drop_step:
  assumes "drop n xs = c # cs"
  shows "n < length xs" and "xs ! n = c" and "drop (n + 1) xs = cs"
proof -
  show "n < length xs" using assms by (metis drop_all list.distinct(1) not_le)
  show "xs ! n = c" using assms by (simp add: nth_via_drop)
  show "drop (n + 1) xs = cs" using assms by (metis drop_drop drop_Suc_Cons drop0 plus_1_eq_Suc add.commute)
qed

lemma drop_append_step: "drop n xs = a @ b \<Longrightarrow> drop (n + length a) xs = b"
  by (metis add.commute append_eq_conv_conj drop_drop)

section \<open>16-bit fields of a packet\<close>

text \<open>
  A big-endian field (what \<^verbatim>\<open>htons\<close> and \<^verbatim>\<open>ntohs\<close> convert on a little-endian host) and a
  little-endian one (what the host's own 16-bit loads and stores see).
\<close>

definition get_be16 :: "u8 list \<Rightarrow> nat \<Rightarrow> u16" where
  "get_be16 xs i = push_bit 8 (ucast (xs ! i)) OR ucast (xs ! Suc i)"

definition be16 :: "u16 \<Rightarrow> u8 list" where
  "be16 w = [ucast (drop_bit 8 w), ucast w]"

definition get_le16 :: "u8 list \<Rightarrow> nat \<Rightarrow> u16" where
  "get_le16 xs i = push_bit 8 (ucast (xs ! Suc i)) OR ucast (xs ! i)"

definition le16 :: "u16 \<Rightarrow> u8 list" where
  "le16 w = [ucast w, ucast (drop_bit 8 w)]"

lemma length_be16 [simp]: "length (be16 w) = 2"
  by (simp add: be16_def)

lemma length_le16 [simp]: "length (le16 w) = 2"
  by (simp add: le16_def)

lemma join_bytes16: "push_bit 8 (ucast (ucast (drop_bit 8 w) :: u8)) OR ucast (ucast w :: u8) = (w :: u16)"
  by (rule bit_word_eqI) (auto simp: bit_simps)

lemma get_be16_memcpy [simp]:
  assumes "i + 2 \<le> length xs"
  shows "get_be16 (memcpy_at xs i (be16 w)) i = w"
  using assms by (simp add: get_be16_def nth_memcpy_at be16_def join_bytes16)

lemma get_le16_memcpy [simp]:
  assumes "i + 2 \<le> length xs"
  shows "get_le16 (memcpy_at xs i (le16 w)) i = w"
  using assms by (simp add: get_le16_def nth_memcpy_at le16_def join_bytes16)

lemma get_be16_memcpy_other [buf_simps]:
  assumes "i + length ys \<le> length xs" and "j + 2 \<le> i \<or> i + length ys \<le> j" and "j + 2 \<le> length xs"
  shows "get_be16 (memcpy_at xs i ys) j = get_be16 xs j"
  using assms by (auto simp: get_be16_def nth_memcpy_at)

lemma get_le16_memcpy_other [buf_simps]:
  assumes "i + length ys \<le> length xs" and "j + 2 \<le> i \<or> i + length ys \<le> j" and "j + 2 \<le> length xs"
  shows "get_le16 (memcpy_at xs i ys) j = get_le16 xs j"
  using assms by (auto simp: get_le16_def nth_memcpy_at)

end
