(* ===== verification/Bmc_Data.thy ===== *)
theory Bmc_Data
  imports Bmc_Prelude
begin

text \<open>
  The data of the in-kernel cache (\<^verbatim>\<open>src/bmc/bmc_common.h\<close> and the declarations of
  \<^verbatim>\<open>src/bmc/bmc_kern.c\<close>): the cache entry, the saved request key, the parsing context, the
  statistics, the maps and the packet views, and the interface to the kernel's BPF helpers.

  The helpers are kernel code and are a parameter \<open>B\<close> of every program.  Safety properties
  rest on \<open>bpf_laws\<close> alone: an array map's lookup gives an element exactly
  for the indices below the map's size, and a successful head or tail adjustment moves exactly that
  end of the packet and stays inside the packet's memory.  Properties that say what a request is
  answered with need to know when an adjustment succeeds.  That is \<open>bpf_linux\<close>, the rule of Linux
  since the version 5.3 the repository asks for: the packet must keep room for an Ethernet header and its start must not
  enter the part of the frame that the kernel uses itself.

  Spin-lock sections are atomic in the model.  Loop counters of type unsigned int stay below 1500
  in every program and are natural numbers; the fields of the maps keep their width.
\<close>

section \<open>Constants\<close>

abbreviation (input) BMC_MAX_KEY_LENGTH :: nat where "BMC_MAX_KEY_LENGTH \<equiv> 250"

abbreviation (input) BMC_MAX_VAL_LENGTH :: nat where "BMC_MAX_VAL_LENGTH \<equiv> 1000"

abbreviation (input) BMC_MAX_ADDITIONAL_PAYLOAD_BYTES :: nat where "BMC_MAX_ADDITIONAL_PAYLOAD_BYTES \<equiv> 53"

text \<open>The sum of the three constants above.\<close>

abbreviation (input) BMC_MAX_CACHE_DATA_SIZE :: nat where "BMC_MAX_CACHE_DATA_SIZE \<equiv> 1303"

lemma BMC_MAX_CACHE_DATA_SIZE_sum:
  "BMC_MAX_CACHE_DATA_SIZE = BMC_MAX_KEY_LENGTH + BMC_MAX_VAL_LENGTH + BMC_MAX_ADDITIONAL_PAYLOAD_BYTES"
  by simp

abbreviation (input) BMC_CACHE_ENTRY_COUNT :: u32 where "BMC_CACHE_ENTRY_COUNT \<equiv> 3250000"

abbreviation (input) BMC_MAX_PACKET_LENGTH :: nat where "BMC_MAX_PACKET_LENGTH \<equiv> 1500"

abbreviation (input) BMC_MAX_KEY_IN_PACKET :: u32 where "BMC_MAX_KEY_IN_PACKET \<equiv> 30"

abbreviation (input) FNV_OFFSET_BASIS_32 :: u32 where "FNV_OFFSET_BASIS_32 \<equiv> 2166136261"

abbreviation (input) FNV_PRIME_32 :: u32 where "FNV_PRIME_32 \<equiv> 16777619"

abbreviation (input) ADJUST_HEAD_LEN :: nat where "ADJUST_HEAD_LEN \<equiv> 128"

text \<open>
  Sizes of the header structures (an IP header without options), and the offsets of the
  fields the programs touch, as laid down by the protocols.
\<close>

abbreviation (input) sizeof_ethhdr :: nat where "sizeof_ethhdr \<equiv> 14"

abbreviation (input) sizeof_iphdr :: nat where "sizeof_iphdr \<equiv> 20"

abbreviation (input) sizeof_udphdr :: nat where "sizeof_udphdr \<equiv> 8"

abbreviation (input) sizeof_tcphdr :: nat where "sizeof_tcphdr \<equiv> 20"

abbreviation (input) sizeof_memcached_udp_header :: nat where "sizeof_memcached_udp_header \<equiv> 8"

text \<open>Ethernet, IP, UDP and memcached headers together: 14 + 20 + 8 + 8 bytes.\<close>

abbreviation (input) udp_headers :: nat where "udp_headers \<equiv> 50"

abbreviation (input) IPPROTO_TCP :: u8 where "IPPROTO_TCP \<equiv> 6"

abbreviation (input) IPPROTO_UDP :: u8 where "IPPROTO_UDP \<equiv> 17"

text \<open>Return codes of XDP and traffic-control programs, with the kernel's numbers.\<close>

abbreviation (input) XDP_DROP :: int where "XDP_DROP \<equiv> 1"

abbreviation (input) XDP_PASS :: int where "XDP_PASS \<equiv> 2"

abbreviation (input) XDP_TX :: int where "XDP_TX \<equiv> 3"

abbreviation (input) TC_ACT_OK :: int where "TC_ACT_OK \<equiv> 0"

abbreviation (input) TC_ACT_SHOT :: int where "TC_ACT_SHOT \<equiv> 2"

section \<open>Structures\<close>

record bmc_cache_entry =
  ce_len :: u32
  ce_valid :: u8
  ce_hash :: u32
  ce_data :: "u8 list"

record bmc_stats =
  get_recv_count :: u32
  set_recv_count :: u32
  get_resp_count :: u32
  hit_misprediction :: u32
  hit_count :: u32
  miss_count :: u32
  update_count :: u32
  invalidation_count :: u32

record memcached_key =
  mk_hash :: u32
  mk_data :: "u8 list"
  mk_len :: u32

record parsing_context =
  key_count :: u32
  current_key :: u32
  read_pkt_offset :: u16
  write_pkt_offset :: u16

text \<open>
  The maps as one processor sees them: the cache and the request counters are shared, the
  saved keys, the parsing context and the statistics are per processor.
\<close>

record bmc_state =
  kcache :: "u32 \<Rightarrow> bmc_cache_entry"
  request_count :: "u32 \<Rightarrow> u32"
  keys :: "u32 \<Rightarrow> memcached_key"
  pctx :: parsing_context
  stats :: bmc_stats

text \<open>
  A received packet: the memory of its frame (headroom included) with the offsets of the
  first byte of the packet and of the byte after its last one.
\<close>

record xdp_md =
  xdp_frame :: "u8 list"
  xdp_data :: nat
  xdp_data_end :: nat

text \<open>An outgoing packet: its total length and its linear, directly readable part.\<close>

record sk_buff =
  skb_len :: u32
  skb_data :: "u8 list"

section \<open>Maps, programs and helpers\<close>

datatype bpf_map = map_kcache | map_keys | map_request_count | map_parsing_context | map_stats

fun max_entries :: "bpf_map \<Rightarrow> u32" where
  "max_entries map_kcache = BMC_CACHE_ENTRY_COUNT"
| "max_entries map_keys = BMC_MAX_KEY_IN_PACKET"
| "max_entries map_request_count = BMC_CACHE_ENTRY_COUNT"
| "max_entries map_parsing_context = 1"
| "max_entries map_stats = 1"

datatype xdp_prog =
    BMC_PROG_XDP_HASH_KEYS
  | BMC_PROG_XDP_PREPARE_PACKET
  | BMC_PROG_XDP_WRITE_REPLY
  | BMC_PROG_XDP_INVALIDATE_CACHE

datatype tc_prog = BMC_PROG_TC_UPDATE_CACHE

text \<open>
  How a program ends: with a return code, or by asking for a tail call; the second
  component of the request is the code the program returns when the call does not happen.
\<close>

datatype 'p outcome = Return int | Tail_call 'p int

record bpf =
  lookup_elem :: "bpf_map \<Rightarrow> u32 \<Rightarrow> bool"
  xdp_adjust_head :: "xdp_md \<Rightarrow> int \<Rightarrow> xdp_md option"
  xdp_adjust_tail :: "xdp_md \<Rightarrow> int \<Rightarrow> xdp_md option"

text \<open>A helper whose result the code ignores: on failure the packet is as before.\<close>

definition adjusted :: "xdp_md option \<Rightarrow> xdp_md \<Rightarrow> xdp_md" where
  "adjusted r x = (case r of None \<Rightarrow> x | Some x' \<Rightarrow> x')"

definition move_head :: "xdp_md \<Rightarrow> int \<Rightarrow> xdp_md" where
  "move_head x d = x\<lparr>xdp_data := nat (int (xdp_data x) + d)\<rparr>"

definition move_tail :: "xdp_md \<Rightarrow> int \<Rightarrow> xdp_md" where
  "move_tail x d = x\<lparr>xdp_data_end := nat (int (xdp_data_end x) + d)\<rparr>"

definition xdp_wf :: "xdp_md \<Rightarrow> bool" where
  "xdp_wf x \<longleftrightarrow> xdp_data x \<le> xdp_data_end x \<and> xdp_data_end x \<le> length (xdp_frame x)"

definition head_ok :: "xdp_md \<Rightarrow> int \<Rightarrow> bool" where
  "head_ok x d \<longleftrightarrow> 0 \<le> int (xdp_data x) + d \<and> int (xdp_data x) + d \<le> int (xdp_data_end x)"

definition tail_ok :: "xdp_md \<Rightarrow> int \<Rightarrow> bool" where
  "tail_ok x d \<longleftrightarrow> d \<le> 0 \<and> int (xdp_data x) \<le> int (xdp_data_end x) + d"

text \<open>
  Documented behaviour of the helpers.  Success moves one end of the packet by the given
  distance within the frame; nothing is said about when an adjustment succeeds.
\<close>

definition bpf_laws :: "bpf \<Rightarrow> bool" where
  "bpf_laws B \<longleftrightarrow>
     (\<forall>m i. lookup_elem B m i \<longleftrightarrow> i < max_entries m) \<and>
     (\<forall>x d x'. xdp_adjust_head B x d = Some x' \<longrightarrow> head_ok x d \<and> x' = move_head x d) \<and>
     (\<forall>x d x'. xdp_adjust_tail B x d = Some x' \<longrightarrow> tail_ok x d \<and> x' = move_tail x d)"

text \<open>
  When the helpers of Linux succeed.  \<open>r\<close> is the number of bytes at the start of the frame that the kernel
  keeps for itself (its \<^verbatim>\<open>struct xdp_frame\<close> and metadata).  A head adjustment succeeds exactly when
  the packet starts behind these bytes and still has the size of an Ethernet header, a shrinking tail adjustment
  exactly when the packet still has that size.  Whether a tail adjustment by nothing succeeds depends on the version.
\<close>

abbreviation (input) ETH_HLEN :: nat where "ETH_HLEN \<equiv> 14"

definition bpf_linux :: "nat \<Rightarrow> bpf \<Rightarrow> bool" where
  "bpf_linux r B \<longleftrightarrow> bpf_laws B \<and>
     (\<forall>x d. xdp_adjust_head B x d \<noteq> None \<longleftrightarrow>
        int r \<le> int (xdp_data x) + d \<and> int (xdp_data x) + d + int ETH_HLEN \<le> int (xdp_data_end x)) \<and>
     (\<forall>x d. d < 0 \<longrightarrow>
        (xdp_adjust_tail B x d \<noteq> None \<longleftrightarrow> int (xdp_data x) + int ETH_HLEN \<le> int (xdp_data_end x) + d))"

text \<open>A reference implementation of the helpers; in Linux 5.3 the kernel keeps 32 bytes.\<close>

definition bpf_ref :: bpf where
  "bpf_ref = \<lparr>lookup_elem = (\<lambda>m i. i < max_entries m),
     xdp_adjust_head = (\<lambda>x d. if 32 \<le> int (xdp_data x) + d \<and> int (xdp_data x) + d + int ETH_HLEN \<le> int (xdp_data_end x)
                               then Some (move_head x d) else None),
     xdp_adjust_tail = (\<lambda>x d. if d < 0 \<and> int (xdp_data x) + int ETH_HLEN \<le> int (xdp_data_end x) + d
                               then Some (move_tail x d) else None)\<rparr>"

text \<open>Reads of a packet, relative to its first byte.\<close>

definition past_end :: "xdp_md \<Rightarrow> nat \<Rightarrow> bool" where
  "past_end x n \<longleftrightarrow> xdp_data x + n > xdp_data_end x"

definition ldb :: "xdp_md \<Rightarrow> nat \<Rightarrow> u8" where
  "ldb x n = xdp_frame x ! (xdp_data x + n)"

definition ld_be16 :: "xdp_md \<Rightarrow> nat \<Rightarrow> u16" where
  "ld_be16 x n = get_be16 (xdp_frame x) (xdp_data x + n)"

text \<open>The bytes of a packet, for specifications.\<close>

definition pkt :: "xdp_md \<Rightarrow> u8 list" where
  "pkt x = segment (xdp_data x) (xdp_data_end x - xdp_data x) (xdp_frame x)"

text \<open>The view of a packet \<open>p\<close> that arrives with 256 bytes of headroom.\<close>

definition xdp_of :: "u8 list \<Rightarrow> xdp_md" where
  "xdp_of p = \<lparr>xdp_frame = replicate 256 0 @ p, xdp_data = 256, xdp_data_end = 256 + length p\<rparr>"

section \<open>The FNV-1a hash\<close>

text \<open>
  One round: the key byte is a (signed) \<^verbatim>\<open>char\<close>, so it is sign-extended before it is
  xor-ed into the 32-bit state.  \<open>fnv1a\<close> is \<^verbatim>\<open>fnv1a_hash32\<close> of \<^verbatim>\<open>bmc_user.c\<close>; the
  programs inline the same rounds in their loops.
\<close>

definition fnv_round :: "u32 \<Rightarrow> u8 \<Rightarrow> u32" where
  "fnv_round h c = (h XOR scast c) * FNV_PRIME_32"

fun fnv1a_hash32 :: "u8 list \<Rightarrow> u32 \<Rightarrow> u32" where
  "fnv1a_hash32 [] h = h"
| "fnv1a_hash32 (c # cs) h = fnv1a_hash32 cs (fnv_round h c)"

definition fnv :: "u8 list \<Rightarrow> u32" where
  "fnv k = fnv1a_hash32 k FNV_OFFSET_BASIS_32"

definition cache_index :: "u32 \<Rightarrow> u32" where
  "cache_index h = h mod BMC_CACHE_ENTRY_COUNT"

section \<open>Well-formed entries\<close>

definition entry_wf :: "bmc_cache_entry \<Rightarrow> bool" where
  "entry_wf e \<longleftrightarrow> length (ce_data e) = BMC_MAX_CACHE_DATA_SIZE \<and> unat (ce_len e) \<le> BMC_MAX_CACHE_DATA_SIZE"

text \<open>The cached reply.\<close>

definition cached :: "bmc_cache_entry \<Rightarrow> u8 list" where
  "cached e = take (unat (ce_len e)) (ce_data e)"

definition cache_wf :: "(u32 \<Rightarrow> bmc_cache_entry) \<Rightarrow> bool" where
  "cache_wf c \<longleftrightarrow> (\<forall>i. entry_wf (c i))"

text \<open>The maps as they are when the programs are loaded: all bytes zero.\<close>

definition zero_entry :: bmc_cache_entry where
  "zero_entry = \<lparr>ce_len = 0, ce_valid = 0, ce_hash = 0, ce_data = replicate BMC_MAX_CACHE_DATA_SIZE 0\<rparr>"

definition initial_state :: bmc_state where
  "initial_state =
     \<lparr>kcache = (\<lambda>i. zero_entry), request_count = (\<lambda>i. 0),
      keys = (\<lambda>i. \<lparr>mk_hash = 0, mk_data = replicate BMC_MAX_KEY_LENGTH 0, mk_len = 0\<rparr>),
      pctx = \<lparr>key_count = 0, current_key = 0, read_pkt_offset = 0, write_pkt_offset = 0\<rparr>,
      stats = \<lparr>get_recv_count = 0, set_recv_count = 0, get_resp_count = 0, hit_misprediction = 0,
        hit_count = 0, miss_count = 0, update_count = 0, invalidation_count = 0\<rparr>\<rparr>"

section \<open>Facts\<close>

lemma length_cached: "entry_wf e \<Longrightarrow> length (cached e) = unat (ce_len e)"
  by (simp add: entry_wf_def cached_def)

lemma adjusted_simps [simp]: "adjusted None x = x" "adjusted (Some x') x = x'"
  by (simp_all add: adjusted_def)

lemma move_head_simps [simp]:
  "xdp_frame (move_head x d) = xdp_frame x"
  "xdp_data_end (move_head x d) = xdp_data_end x"
  "xdp_data (move_head x d) = nat (int (xdp_data x) + d)"
  by (simp_all add: move_head_def)

lemma move_tail_simps [simp]:
  "xdp_frame (move_tail x d) = xdp_frame x"
  "xdp_data (move_tail x d) = xdp_data x"
  "xdp_data_end (move_tail x d) = nat (int (xdp_data_end x) + d)"
  by (simp_all add: move_tail_def)

lemma bpf_lookup: "bpf_laws B \<Longrightarrow> lookup_elem B m i \<longleftrightarrow> i < max_entries m"
  by (simp add: bpf_laws_def)

lemma bpf_lookup_singleton [simp]:
  assumes "bpf_laws B"
  shows "lookup_elem B map_stats 0" "lookup_elem B map_parsing_context 0"
  using assms by (simp_all add: bpf_lookup)

lemma bpf_adjust_head:
  "bpf_laws B \<Longrightarrow> xdp_adjust_head B x d = Some x' \<Longrightarrow> head_ok x d \<and> x' = move_head x d"
  by (simp add: bpf_laws_def)

lemma bpf_adjust_tail:
  "bpf_laws B \<Longrightarrow> xdp_adjust_tail B x d = Some x' \<Longrightarrow> tail_ok x d \<and> x' = move_tail x d"
  by (simp add: bpf_laws_def)

lemma bpf_linux_laws: "bpf_linux r B \<Longrightarrow> bpf_laws B"
  by (simp add: bpf_linux_def)

lemma linux_head:
  assumes "bpf_linux r B" and "int r \<le> int (xdp_data x) + d" and "int (xdp_data x) + d + 14 \<le> int (xdp_data_end x)"
  shows "xdp_adjust_head B x d = Some (move_head x d)"
proof -
  have "xdp_adjust_head B x d \<noteq> None" using assms by (simp add: bpf_linux_def)
  then show ?thesis using bpf_adjust_head [OF bpf_linux_laws [OF assms(1)]] by blast
qed

lemma linux_head_short:
  "bpf_linux r B \<Longrightarrow> int (xdp_data_end x) < int (xdp_data x) + d + 14 \<Longrightarrow> xdp_adjust_head B x d = None"
  unfolding bpf_linux_def by (metis not_less of_nat_numeral)

lemma linux_tail:
  assumes "bpf_linux r B" and "d \<le> 0" and "int (xdp_data x) + 14 \<le> int (xdp_data_end x) + d"
  shows "adjusted (xdp_adjust_tail B x d) x = move_tail x d"
proof (cases "xdp_adjust_tail B x d")
  case None
  have "\<not> d < 0"
  proof
    assume "d < 0"
    then have "xdp_adjust_tail B x d \<noteq> None" using assms(1,3) unfolding bpf_linux_def by simp
    with None show False by simp
  qed
  with assms(2) None show ?thesis by (simp add: move_tail_def)
next
  case (Some x')
  then show ?thesis using bpf_adjust_tail [OF bpf_linux_laws [OF assms(1)]] by simp
qed

lemma bpf_ref_linux [simp]: "bpf_linux 32 bpf_ref"
  by (auto simp: bpf_linux_def bpf_laws_def bpf_ref_def head_ok_def tail_ok_def)

lemma bpf_ref_laws [simp]: "bpf_laws bpf_ref"
  using bpf_ref_linux by (rule bpf_linux_laws)

lemma length_pkt: "xdp_wf x \<Longrightarrow> length (pkt x) = xdp_data_end x - xdp_data x"
  by (auto simp: pkt_def xdp_wf_def)

lemma xdp_of_simps [simp]: "pkt (xdp_of p) = p" "xdp_wf (xdp_of p)" "xdp_data (xdp_of p) = 256"
  by (simp_all add: pkt_def xdp_of_def segment_def xdp_wf_def)

lemma past_end_pkt: "xdp_wf x \<Longrightarrow> past_end x n \<longleftrightarrow> length (pkt x) < n"
  by (auto simp: past_end_def length_pkt xdp_wf_def)

lemma ldb_pkt: "xdp_wf x \<Longrightarrow> n < length (pkt x) \<Longrightarrow> ldb x n = pkt x ! n"
  by (auto simp: pkt_def ldb_def xdp_wf_def)

lemma pkt_move_head:
  assumes "xdp_wf x" and "n \<le> length (pkt x)"
  shows "pkt (move_head x (int n)) = drop n (pkt x)" and "xdp_wf (move_head x (int n))"
    and "head_ok x (int n)"
  using assms by (auto simp: pkt_def segment_def move_head_def xdp_wf_def head_ok_def nat_add_distrib
      drop_take add.commute)

lemma xdp_data_move_back: "xdp_data (move_head x (- int n)) = xdp_data x - n"
  by simp

lemma linux_head_forward:
  assumes "bpf_linux r B" and "xdp_wf x" and "r \<le> xdp_data x" and "n + 14 \<le> length (pkt x)"
  shows "xdp_adjust_head B x (int n) = Some (move_head x (int n))"
  using assms by (intro linux_head) (auto simp: length_pkt xdp_wf_def)

lemma linux_head_forward_short:
  assumes "bpf_linux r B" and "xdp_wf x" and "length (pkt x) < n + 14"
  shows "xdp_adjust_head B x (int n) = None"
  using assms by (intro linux_head_short) (auto simp: length_pkt xdp_wf_def)

lemma linux_head_back:
  assumes "bpf_linux r B" and "xdp_wf x" and "r + n \<le> xdp_data x" and "14 \<le> length (pkt x) + n"
  shows "xdp_adjust_head B x (- int n) = Some (move_head x (- int n))"
  using assms by (intro linux_head) (auto simp: length_pkt xdp_wf_def)

lemma fnv1a_append: "fnv1a_hash32 (a @ b) h = fnv1a_hash32 b (fnv1a_hash32 a h)"
  by (induction a arbitrary: h) simp_all

lemma cache_index_bound: "cache_index h < BMC_CACHE_ENTRY_COUNT"
proof -
  have "unat h mod 3250000 < 3250000" by simp
  then show ?thesis by (simp add: cache_index_def word_less_nat_alt unat_mod)
qed

lemma bpf_lookup_cache [simp]: "bpf_laws B \<Longrightarrow> lookup_elem B map_kcache (cache_index h)"
  by (simp add: bpf_lookup cache_index_bound)

section \<open>A sample packet\<close>

text \<open>Headers of a UDP datagram between memcached's port and another one, for concrete instances.\<close>

definition sample_headers :: "u8 \<Rightarrow> u16 \<Rightarrow> u16 \<Rightarrow> u8 list" where
  "sample_headers proto sport dport =
     [2, 0, 0, 0, 0, 1, 2, 0, 0, 0, 0, 2, 8, 0] @
     [0x45, 0, 0, 44, 0, 0, 0, 0, 64, proto, 0, 0, 10, 0, 0, 1, 10, 0, 0, 2] @
     be16 sport @ be16 dport"

definition sample_udp :: "u16 \<Rightarrow> u16 \<Rightarrow> u8 list" where
  "sample_udp sport dport = sample_headers IPPROTO_UDP sport dport @ [0, 24, 0, 0] @ [0, 1, 0, 0, 0, 1, 0, 0]"

definition sample_tcp :: "u16 \<Rightarrow> u16 \<Rightarrow> u8 list" where
  "sample_tcp sport dport = sample_headers IPPROTO_TCP sport dport @ replicate 16 0"

lemmas sample_defs = sample_headers_def sample_udp_def sample_tcp_def

end
