(* ===== verification/Bmc_Rx.thy ===== *)
theory Bmc_Rx
  imports Bmc_Data
begin

text \<open>
  The receive path up to the reply (\<^verbatim>\<open>bmc_rx_filter_main\<close>, \<^verbatim>\<open>bmc_hash_keys_main\<close> and
  \<^verbatim>\<open>bmc_prepare_packet_main\<close> of \<^verbatim>\<open>src/bmc/bmc_kern.c\<close>): the filter that recognises GET
  requests over UDP and any request over TCP, the parser that hashes one key per run and saves the
  keys that look cached, and the header construction of the reply packet.
\<close>

section \<open>bmc\_rx\_filter\<close>

text \<open>The loop that moves the offset to the start of the first key.\<close>

function skip_spaces :: "xdp_md \<Rightarrow> nat \<Rightarrow> nat \<Rightarrow> nat" where
  "skip_spaces x payload off =
     (if off < BMC_MAX_PACKET_LENGTH \<and> \<not> past_end x (payload + off + 1) \<and> ldb x (payload + off) = chr_sp
      then skip_spaces x payload (off + 1) else off)"
  by pat_completeness auto
termination
  by (relation "measure (\<lambda>(x, p, off). BMC_MAX_PACKET_LENGTH - off)") auto

declare skip_spaces.simps [simp del]

definition is_get :: "xdp_md \<Rightarrow> nat \<Rightarrow> bool" where
  "is_get x payload \<longleftrightarrow>
     ldb x payload = asc CHR ''g'' \<and> ldb x (payload + 1) = asc CHR ''e'' \<and>
     ldb x (payload + 2) = asc CHR ''t'' \<and> ldb x (payload + 3) = asc CHR '' ''"

definition rx_start_get :: "bpf \<Rightarrow> bmc_state \<Rightarrow> xdp_md \<Rightarrow> nat \<Rightarrow> xdp_prog outcome \<times> bmc_state \<times> xdp_md" where
  "rx_start_get B s x payload =
     (if \<not> lookup_elem B map_stats 0 then (Return XDP_PASS, s, x)
      else
        let s1 = s\<lparr>stats := (stats s)\<lparr>get_recv_count := get_recv_count (stats s) + 1\<rparr>\<rparr> in
        if \<not> lookup_elem B map_parsing_context 0 then (Return XDP_PASS, s1, x)
        else
          let s2 = s1\<lparr>pctx := (pctx s1)\<lparr>key_count := 0, current_key := 0, write_pkt_offset := 0\<rparr>\<rparr>;
              off = skip_spaces x payload 4 in
          if off < BMC_MAX_PACKET_LENGTH then
            let s3 = s2\<lparr>pctx := (pctx s2)\<lparr>read_pkt_offset := of_nat off\<rparr>\<rparr> in
            case xdp_adjust_head B x (int (udp_headers + off)) of
              None \<Rightarrow> (Return XDP_PASS, s3, x)
            | Some x' \<Rightarrow> (Tail_call BMC_PROG_XDP_HASH_KEYS XDP_PASS, s3, x')
          else (Return XDP_PASS, s2, x))"

definition rx_dispatch ::
  "bpf \<Rightarrow> bmc_state \<Rightarrow> xdp_md \<Rightarrow> u8 \<Rightarrow> u16 \<Rightarrow> nat \<Rightarrow> xdp_prog outcome \<times> bmc_state \<times> xdp_md" where
  "rx_dispatch B s x protocol dport payload =
     (if dport = 11211 \<and> \<not> past_end x (payload + 4) then
        if protocol = IPPROTO_UDP \<and> is_get x payload then rx_start_get B s x payload
        else if protocol = IPPROTO_TCP then (Tail_call BMC_PROG_XDP_INVALIDATE_CACHE XDP_PASS, s, x)
        else (Return XDP_PASS, s, x)
      else (Return XDP_PASS, s, x))"

definition bmc_rx_filter_main ::
  "bpf \<Rightarrow> bmc_state \<Rightarrow> xdp_md \<Rightarrow> xdp_prog outcome \<times> bmc_state \<times> xdp_md" where
  "bmc_rx_filter_main B s x =
     (let ip = sizeof_ethhdr; transp = sizeof_ethhdr + sizeof_iphdr in
      if past_end x (ip + sizeof_iphdr) then (Return XDP_PASS, s, x)
      else
        let protocol = ldb x (ip + 9) in
        if protocol = IPPROTO_UDP then
          if past_end x (transp + sizeof_udphdr) then (Return XDP_PASS, s, x)
          else rx_dispatch B s x protocol (ld_be16 x (transp + 2))
                 (transp + sizeof_udphdr + sizeof_memcached_udp_header)
        else if protocol = IPPROTO_TCP then
          if past_end x (transp + sizeof_tcphdr) then (Return XDP_PASS, s, x)
          else rx_dispatch B s x protocol (ld_be16 x (transp + 2)) (transp + sizeof_tcphdr)
        else (Return XDP_PASS, s, x))"

section \<open>bmc\_hash\_keys\<close>

text \<open>
  The hashing loop.  It returns the offset it stopped at, the hash, the key length and
  whether a carriage return ended the key.
\<close>

function hash_keys_loop :: "xdp_md \<Rightarrow> nat \<Rightarrow> u32 \<Rightarrow> nat \<Rightarrow> nat \<times> u32 \<times> nat \<times> bool" where
  "hash_keys_loop x off h key_len =
     (if off < BMC_MAX_KEY_LENGTH + 1 \<and> \<not> past_end x (off + 1) then
        if ldb x off = chr_cr then (off, h, key_len, True)
        else if ldb x off = chr_sp then (off, h, key_len, False)
        else hash_keys_loop x (off + 1) (fnv_round h (ldb x off)) (key_len + 1)
      else (off, h, key_len, False))"
  by pat_completeness auto
termination
  by (relation "measure (\<lambda>(x, off, h, n). BMC_MAX_KEY_LENGTH + 1 - off)") auto

declare hash_keys_loop.simps [simp del]

text \<open>The loop that saves the key: \<open>n\<close> iterations remain, starting at \<open>i\<close>.\<close>

fun save_key_loop :: "xdp_md \<Rightarrow> nat \<Rightarrow> nat \<Rightarrow> u8 list \<Rightarrow> u8 list" where
  "save_key_loop x i 0 d = d"
| "save_key_loop x i (Suc n) d =
     (if past_end x (i + 1) then d else save_key_loop x (i + 1) n (memcpy_at d i [ldb x i]))"

text \<open>Back from the key to the start of the packet's headers.\<close>

definition restore_head :: "bpf \<Rightarrow> bmc_state \<Rightarrow> xdp_md \<Rightarrow> xdp_md" where
  "restore_head B s x =
     adjusted (xdp_adjust_head B x (- (int udp_headers + uint (read_pkt_offset (pctx s))))) x"

text \<open>The cache probe of one key: it saves the key on a potential hit and counts a miss.\<close>

definition hash_keys_probe ::
  "bpf \<Rightarrow> bmc_state \<Rightarrow> xdp_md \<Rightarrow> nat \<Rightarrow> bmc_state option" where
  "hash_keys_probe B s x key_len =
     (let kc = key_count (pctx s); key = keys s kc;
          entry = kcache s (cache_index (mk_hash key)) in
      if ce_valid entry \<noteq> 0 \<and> ce_hash entry = mk_hash key then
        Some (s\<lparr>keys := (keys s)(kc := key\<lparr>mk_data := save_key_loop x 0 key_len (mk_data key),
                                            mk_len := of_nat key_len\<rparr>),
                pctx := (pctx s)\<lparr>key_count := kc + 1\<rparr>\<rparr>)
      else if \<not> lookup_elem B map_stats 0 then None
      else Some (s\<lparr>stats := (stats s)\<lparr>miss_count := miss_count (stats s) + 1\<rparr>\<rparr>))"

text \<open>What follows the probe: build the reply after the last key, or go to the next key.\<close>

definition hash_keys_next ::
  "bpf \<Rightarrow> bmc_state \<Rightarrow> xdp_md \<Rightarrow> nat \<Rightarrow> bool \<Rightarrow> xdp_prog outcome \<times> bmc_state \<times> xdp_md" where
  "hash_keys_next B s x off done_parsing =
     (if done_parsing then
        let x' = restore_head B s x in
        if key_count (pctx s) > 0 then (Tail_call BMC_PROG_XDP_PREPARE_PACKET XDP_PASS, s, x')
        else (Return XDP_PASS, s, x')
      else
        let off' = off + 1;
            s' = s\<lparr>pctx := (pctx s)\<lparr>read_pkt_offset := read_pkt_offset (pctx s) + of_nat off'\<rparr>\<rparr> in
        case xdp_adjust_head B x (int off') of
          None \<Rightarrow> (Return XDP_PASS, s', x)
        | Some x' \<Rightarrow> (Tail_call BMC_PROG_XDP_HASH_KEYS XDP_PASS, s', x'))"

definition bmc_hash_keys_main ::
  "bpf \<Rightarrow> bmc_state \<Rightarrow> xdp_md \<Rightarrow> xdp_prog outcome \<times> bmc_state \<times> xdp_md" where
  "bmc_hash_keys_main B s x =
     (if xdp_data x \<ge> xdp_data_end x then (Return XDP_PASS, s, x)
      else if \<not> lookup_elem B map_parsing_context 0 then (Return XDP_PASS, s, x)
      else if \<not> lookup_elem B map_keys (key_count (pctx s)) then (Return XDP_PASS, s, x)
      else
        let kc = key_count (pctx s);
            (off, h, key_len, done_parsing) = hash_keys_loop x 0 FNV_OFFSET_BASIS_32 0;
            s1 = s\<lparr>keys := (keys s)(kc := (keys s kc)\<lparr>mk_hash := h\<rparr>)\<rparr> in
        if key_len = 0 \<or> key_len > BMC_MAX_KEY_LENGTH then (Return XDP_PASS, s1, restore_head B s1 x)
        else if \<not> lookup_elem B map_kcache (cache_index h) then (Return XDP_PASS, s1, x)
        else
          case hash_keys_probe B s1 x key_len of
            None \<Rightarrow> (Return XDP_PASS, s1, x)
          | Some s2 \<Rightarrow> hash_keys_next B s2 x off done_parsing)"

section \<open>bmc\_prepare\_packet\<close>

text \<open>
  The new headers: a copy of the old ones with the Ethernet addresses, the IP addresses and
  the UDP ports of source and destination exchanged.
\<close>

definition swap_fields :: "u8 list \<Rightarrow> nat \<Rightarrow> nat \<Rightarrow> nat \<Rightarrow> u8 list" where
  "swap_fields f a b n = memcpy_at (memcpy_at f a (segment b n f)) b (segment a n f)"

definition reply_headers :: "u8 list \<Rightarrow> nat \<Rightarrow> u8 list" where
  "reply_headers f data =
     (let f1 = memcpy_at f data (segment (data + ADJUST_HEAD_LEN) udp_headers f);
          f2 = swap_fields f1 (data + 6) data 6;
          f3 = swap_fields f2 (data + sizeof_ethhdr + 12) (data + sizeof_ethhdr + 16) 4;
          f4 = swap_fields f3 (data + sizeof_ethhdr + sizeof_iphdr) (data + sizeof_ethhdr + sizeof_iphdr + 2) 2
      in f4)"

definition bmc_prepare_packet_main ::
  "bpf \<Rightarrow> bmc_state \<Rightarrow> xdp_md \<Rightarrow> xdp_prog outcome \<times> bmc_state \<times> xdp_md" where
  "bmc_prepare_packet_main B s x =
     (case xdp_adjust_head B x (- int ADJUST_HEAD_LEN) of
        None \<Rightarrow> (Return XDP_PASS, s, x)
      | Some x1 \<Rightarrow>
          if xdp_data x1 + udp_headers \<ge> xdp_data_end x1 \<or>
             xdp_data x1 + ADJUST_HEAD_LEN + udp_headers + 1 \<ge> xdp_data_end x1
          then (Return XDP_PASS, s, x1)
          else
            let x2 = x1\<lparr>xdp_frame := reply_headers (xdp_frame x1) (xdp_data x1)\<rparr> in
            case xdp_adjust_head B x2 (int udp_headers) of
              None \<Rightarrow> (Return XDP_PASS, s, x2)
            | Some x3 \<Rightarrow> (Tail_call BMC_PROG_XDP_WRITE_REPLY XDP_PASS, s, x3))"

section \<open>Facts on the parsing loops\<close>

text \<open>The bytes of the key that starts a packet, as far as the hashing loop looks.\<close>

definition key_byte :: "u8 \<Rightarrow> bool" where
  "key_byte c \<longleftrightarrow> c \<noteq> chr_cr \<and> c \<noteq> chr_sp"

definition first_key :: "u8 list \<Rightarrow> u8 list" where
  "first_key p = takeWhile key_byte (take (BMC_MAX_KEY_LENGTH + 1) p)"

lemma hash_keys_loop_takeWhile:
  assumes "xdp_wf x" and "off \<le> length (pkt x)"
  shows "hash_keys_loop x off h n =
    (let k = takeWhile key_byte (take (BMC_MAX_KEY_LENGTH + 1 - off) (drop off (pkt x)))
     in (off + length k, fnv1a_hash32 k h, n + length k,
         off + length k < BMC_MAX_KEY_LENGTH + 1 \<and> off + length k < length (pkt x) \<and>
         pkt x ! (off + length k) = chr_cr))"
  using assms
proof (induction x off h n rule: hash_keys_loop.induct)
  case (1 x off h n)
  show ?case
  proof (cases "off < BMC_MAX_KEY_LENGTH + 1 \<and> \<not> past_end x (off + 1)")
    case False
    with "1.prems" have "take (BMC_MAX_KEY_LENGTH + 1 - off) (drop off (pkt x)) = []"
      by (auto simp: past_end_pkt)
    with False "1.prems" show ?thesis
      by (subst hash_keys_loop.simps) (auto simp: Let_def past_end_pkt)
  next
    case True
    with "1.prems" have off: "off < length (pkt x)" "off < 251" by (auto simp: past_end_pkt)
    have split: "take (251 - off) (drop off (pkt x)) =
        pkt x ! off # take (250 - off) (drop (Suc off) (pkt x))"
      using off by (simp add: Cons_nth_drop_Suc [symmetric] take_Cons')
    show ?thesis
    proof (cases "key_byte (pkt x ! off)")
      case False
      with True off "1.prems" show ?thesis
        by (subst hash_keys_loop.simps) (auto simp: split ldb_pkt key_byte_def Let_def)
    next
      case key: True
      then have "pkt x ! off \<noteq> chr_cr" "pkt x ! off \<noteq> chr_sp" by (simp_all add: key_byte_def)
      with key True off "1.prems" "1.IH" show ?thesis
        by (subst hash_keys_loop.simps) (simp add: split ldb_pkt Let_def)
    qed
  qed
qed

lemma save_key_loop_memcpy:
  assumes "xdp_wf x" and "i + n \<le> length (pkt x)" and "i + n \<le> length d"
  shows "save_key_loop x i n d = memcpy_at d i (segment i n (pkt x))"
  using assms
proof (induction n arbitrary: i d)
  case 0
  then show ?case by (simp add: segment_def)
next
  case (Suc n)
  then have "save_key_loop x i (Suc n) d = memcpy_at (memcpy_at d i [pkt x ! i]) (i + 1) (segment (i + 1) n (pkt x))"
    by (simp add: past_end_pkt ldb_pkt)
  also have "\<dots> = memcpy_at d i ([pkt x ! i] @ segment (i + 1) n (pkt x))"
    using Suc.prems memcpy_at_memcpy_at_adjacent [of i "[pkt x ! i]" "segment (i + 1) n (pkt x)" d] by simp
  finally show ?case using Suc.prems by (simp add: segment_Suc)
qed

lemma skip_spaces_spec:
  assumes "off \<le> BMC_MAX_PACKET_LENGTH"
  shows "let r = skip_spaces x p off in off \<le> r \<and> r \<le> BMC_MAX_PACKET_LENGTH \<and>
    (\<forall>i. off \<le> i \<and> i < r \<longrightarrow> \<not> past_end x (p + i + 1) \<and> ldb x (p + i) = chr_sp) \<and>
    (r < BMC_MAX_PACKET_LENGTH \<longrightarrow> past_end x (p + r + 1) \<or> ldb x (p + r) \<noteq> chr_sp)"
  using assms
proof (induction x p off rule: skip_spaces.induct)
  case (1 x p off)
  let ?g = "off < BMC_MAX_PACKET_LENGTH \<and> \<not> past_end x (p + off + 1) \<and> ldb x (p + off) = chr_sp"
  show ?case
  proof (cases ?g)
    case True
    then have eq: "skip_spaces x p off = skip_spaces x p (off + 1)"
      by (simp add: skip_spaces.simps [of x p off])
    have inner: "i = off \<or> off + 1 \<le> i" if "off \<le> i" for i using that by auto
    from True "1.IH" show ?thesis
      unfolding eq Let_def using inner by fastforce
  next
    case False
    then show ?thesis using "1.prems" by (auto simp: skip_spaces.simps [of x p off] Let_def)
  qed
qed

section \<open>One run of the key parser\<close>

definition valid_key :: "u8 list \<Rightarrow> bool" where
  "valid_key k \<longleftrightarrow> k \<noteq> [] \<and> length k \<le> BMC_MAX_KEY_LENGTH \<and> list_all key_byte k"

definition keys_wf :: "bmc_state \<Rightarrow> bool" where
  "keys_wf s \<longleftrightarrow> (\<forall>i. length (mk_data (keys s i)) = BMC_MAX_KEY_LENGTH)"

text \<open>A key whose entry is valid and has the key's hash: the parser's test for a hit.\<close>

definition potential_hit :: "(u32 \<Rightarrow> bmc_cache_entry) \<Rightarrow> u8 list \<Rightarrow> bool" where
  "potential_hit c k \<longleftrightarrow>
     ce_valid (c (cache_index (fnv k))) \<noteq> 0 \<and> ce_hash (c (cache_index (fnv k))) = fnv k"

text \<open>What the parser does to the maps on a key \<open>k\<close>.\<close>

definition note_key :: "bmc_state \<Rightarrow> u8 list \<Rightarrow> bmc_state" where
  "note_key s k =
     (let kc = key_count (pctx s) in
      if potential_hit (kcache s) k then
        s\<lparr>keys := (keys s)(kc := (keys s kc)\<lparr>mk_hash := fnv k,
            mk_data := memcpy_at (mk_data (keys s kc)) 0 k, mk_len := of_nat (length k)\<rparr>),
          pctx := (pctx s)\<lparr>key_count := kc + 1\<rparr>\<rparr>
      else
        s\<lparr>keys := (keys s)(kc := (keys s kc)\<lparr>mk_hash := fnv k\<rparr>),
          stats := (stats s)\<lparr>miss_count := miss_count (stats s) + 1\<rparr>\<rparr>)"

lemma takeWhile_key:
  assumes "valid_key k" and "\<not> key_byte c"
  shows "takeWhile key_byte (take 251 (k @ c # rest)) = k"
proof -
  have "take 251 (k @ c # rest) = k @ c # take (250 - length k) rest"
    using assms(1) by (simp add: valid_key_def take_Cons' Suc_diff_le)
  moreover have "\<forall>y\<in>set k. key_byte y" using assms(1) by (simp add: valid_key_def list_all_iff)
  ultimately show ?thesis using assms(2) by simp
qed

lemma hash_keys_loop_key:
  assumes "xdp_wf x" and "pkt x = k @ c # rest" and "valid_key k" and "c = chr_cr \<or> c = chr_sp"
  shows "hash_keys_loop x 0 h 0 = (length k, fnv1a_hash32 k h, length k, c = chr_cr)"
proof -
  from assms(4) have "\<not> key_byte c" by (auto simp: key_byte_def)
  with assms(3) have "takeWhile key_byte (take 251 (k @ c # rest)) = k" by (rule takeWhile_key)
  then show ?thesis
    using hash_keys_loop_takeWhile [OF assms(1), of 0 h 0] assms(2,3)
    by (simp add: Let_def valid_key_def less_Suc_eq_le)
qed

lemma hash_keys_probe_key:
  assumes "bpf_laws B" and "xdp_wf x" and "pkt x = k @ c # rest" and "valid_key k" and "keys_wf s"
    and "s' = s\<lparr>keys := (keys s)(key_count (pctx s) := (keys s (key_count (pctx s)))\<lparr>mk_hash := fnv k\<rparr>)\<rparr>"
  shows "hash_keys_probe B s' x (length k) = Some (note_key s k)"
proof -
  have "save_key_loop x 0 (length k) d = memcpy_at d 0 k" if "length d = 250" for d
    using that assms(2-4) save_key_loop_memcpy [of x 0 "length k" d] by (simp add: valid_key_def)
  with assms show ?thesis
    by (simp add: hash_keys_probe_def note_key_def potential_hit_def keys_wf_def Let_def)
qed

lemma hash_keys_main_key:
  assumes "bpf_laws B" and "xdp_wf x" and "pkt x = k @ c # rest" and "valid_key k"
    and "c = chr_cr \<or> c = chr_sp" and "keys_wf s" and "key_count (pctx s) < BMC_MAX_KEY_IN_PACKET"
  shows "bmc_hash_keys_main B s x = hash_keys_next B (note_key s k) x (length k) (c = chr_cr)"
proof -
  have "xdp_data x < xdp_data_end x" using assms(2,3) length_pkt [of x] by (auto simp: xdp_wf_def)
  moreover have "lookup_elem B map_keys (key_count (pctx s))" using assms(1,7) by (simp add: bpf_lookup)
  ultimately show ?thesis
    using assms hash_keys_loop_key [OF assms(2-5), of FNV_OFFSET_BASIS_32]
    by (simp add: bmc_hash_keys_main_def Let_def fnv_def [symmetric] hash_keys_probe_key valid_key_def)
qed

section \<open>The reply's headers\<close>

text \<open>The exchange of the address fields on the fifty header bytes alone.\<close>

definition swapped_headers :: "u8 list \<Rightarrow> u8 list" where
  "swapped_headers h = swap_fields (swap_fields (swap_fields h 6 0 6) 26 30 4) 34 36 2"

lemma length_swap_fields [simp]:
  "i + n \<le> length f \<Longrightarrow> j + n \<le> length f \<Longrightarrow> length (swap_fields f i j n) = length f"
  by (simp add: swap_fields_def)

lemma segment_append_mid:
  "j + n \<le> length b \<Longrightarrow> segment (length a + j) n (a @ b @ c) = segment j n b"
  by (simp add: segment_append_right segment_append_left)

lemma memcpy_at_append_mid:
  "i + length ys \<le> length b \<Longrightarrow> memcpy_at (a @ b @ c) (length a + i) ys = a @ memcpy_at b i ys @ c"
  by (simp add: memcpy_at_append_right memcpy_at_append_left)

lemma swap_fields_append:
  assumes "i + n \<le> length b" and "j + n \<le> length b"
  shows "swap_fields (a @ b @ c) (length a + i) (length a + j) n = a @ swap_fields b i j n @ c"
  using assms by (simp add: swap_fields_def segment_append_mid memcpy_at_append_mid)

lemma swap_fields_segments:
  assumes "i + n \<le> length f" and "j + n \<le> length f" and "i + n \<le> j \<or> j + n \<le> i"
  shows "segment i n (swap_fields f i j n) = segment j n f"
    and "segment j n (swap_fields f i j n) = segment i n f"
  using assms segment_memcpy_at_same [of i "segment j n f" f]
    segment_memcpy_at_same [of j "segment i n f" "memcpy_at f i (segment j n f)"]
  by (auto simp: swap_fields_def segment_memcpy_at_other min_absorb1)

lemma swap_fields_other:
  assumes "i + n \<le> length f" and "j + n \<le> length f" and "k + m \<le> length f"
    and "k + m \<le> i \<or> i + n \<le> k" and "k + m \<le> j \<or> j + n \<le> k"
  shows "segment k m (swap_fields f i j n) = segment k m f"
  using assms by (simp add: swap_fields_def segment_memcpy_at_other min_absorb1)

lemma length_swapped_headers [simp]: "length h = udp_headers \<Longrightarrow> length (swapped_headers h) = udp_headers"
  by (simp add: swapped_headers_def)

lemma swapped_headers_segments:
  assumes "length h = udp_headers"
  shows "segment 0 6 (swapped_headers h) = segment 6 6 h" and "segment 6 6 (swapped_headers h) = segment 0 6 h"
    and "segment 26 4 (swapped_headers h) = segment 30 4 h" and "segment 30 4 (swapped_headers h) = segment 26 4 h"
    and "segment 34 2 (swapped_headers h) = segment 36 2 h" and "segment 36 2 (swapped_headers h) = segment 34 2 h"
    and "segment 12 14 (swapped_headers h) = segment 12 14 h" and "segment 38 12 (swapped_headers h) = segment 38 12 h"
  using assms unfolding swapped_headers_def
  by (simp_all add: swap_fields_segments swap_fields_other del: segment_0)

lemma reply_headers_append:
  assumes "length a = data" and "ADJUST_HEAD_LEN + udp_headers \<le> length b"
  shows "reply_headers (a @ b) data = a @ swapped_headers (segment ADJUST_HEAD_LEN udp_headers b) @ drop udp_headers b"
proof -
  let ?h = "segment ADJUST_HEAD_LEN udp_headers b"
  have h: "length ?h = 50" using assms(2) by simp
  have "memcpy_at (a @ b) data (segment (data + 128) 50 (a @ b)) = a @ ?h @ drop 50 b"
    using assms h segment_append_right [of a 128 50 b] memcpy_at_append_right [of a b 0 ?h]
    by (simp add: memcpy_at_def)
  then show ?thesis
    using h assms(1)
      swap_fields_append [of 6 6 ?h 0 a "drop 50 b"]
      swap_fields_append [of 26 4 "swap_fields ?h 6 0 6" 30 a "drop 50 b"]
      swap_fields_append [of 34 2 "swap_fields (swap_fields ?h 6 0 6) 26 30 4" 36 a "drop 50 b"]
    by (simp add: reply_headers_def swapped_headers_def Let_def add.commute [of _ data])
qed

end
