(* ===== verification/Bmc_Checksum.thy ===== *)
theory Bmc_Checksum
  imports Bmc_Data
begin

text \<open>
  The IP header checksum (\<^verbatim>\<open>compute_ip_checksum\<close> of \<^verbatim>\<open>src/bmc/bmc_kern.c\<close>) against
  what a receiver checks: the ones' complement sum of the ten big-endian halfwords of the header is
  \<^verbatim>\<open>0xffff\<close>, that is, their plain sum is a positive multiple of 65535.
\<close>

section \<open>compute\_ip\_checksum\<close>

text \<open>
  The sum over the ten host-order halfwords of the header, with the checksum field zeroed
  first; the function returns the changed memory and the checksum.
\<close>

fun ip_sum_loop :: "u8 list \<Rightarrow> nat \<Rightarrow> nat \<Rightarrow> u32 \<Rightarrow> u32" where
  "ip_sum_loop f p 0 csum = csum"
| "ip_sum_loop f p (Suc n) csum = ip_sum_loop f (p + 2) n (csum + ucast (get_le16 f p))"

definition compute_ip_checksum :: "u8 list \<Rightarrow> nat \<Rightarrow> u8 list \<times> u16" where
  "compute_ip_checksum f ip =
     (let f' = memcpy_at f (ip + 10) (le16 0);
          csum = ip_sum_loop f' ip (sizeof_iphdr div 2) 0
      in (f', ucast (NOT ((csum AND 0xffff) + drop_bit 16 csum))))"

section \<open>What a receiver checks\<close>

fun be_sum :: "u8 list \<Rightarrow> nat \<Rightarrow> nat \<Rightarrow> nat" where
  "be_sum f p 0 = 0"
| "be_sum f p (Suc n) = unat (get_be16 f p) + be_sum f (p + 2) n"

definition ip_header_valid :: "u8 list \<Rightarrow> nat \<Rightarrow> bool" where
  "ip_header_valid f ip \<longleftrightarrow> 0 < be_sum f ip (sizeof_iphdr div 2) \<and> be_sum f ip (sizeof_iphdr div 2) mod 65535 = 0"

section \<open>Facts\<close>

lemma unat_join: "unat (push_bit 8 (ucast a) OR ucast b :: u16) = 256 * unat (a :: u8) + unat (b :: u8)"
proof -
  have "push_bit 8 (ucast a) OR ucast b = (push_bit 8 (ucast a) + ucast b :: u16)"
    by (rule disjunctive_add_eq_or [symmetric], rule bit_word_eqI)
      (auto simp: bit_simps dest: bit_imp_le_length)
  moreover have "unat (push_bit 8 (ucast a) + ucast b :: u16) =
      (unat a mod 65536 * 256 mod 65536 + unat b mod 65536) mod 65536"
    by (simp add: unat_word_ariths push_bit_eq_mult unsigned_ucast_eq take_bit_eq_mod)
  moreover have "\<dots> = 256 * unat a + unat b"
  proof -
    have "unat a < 256" "unat b < 256" by simp_all
    then have "unat a < 65536" "unat b < 65536" "unat a * 256 < 65536" "unat a * 256 + unat b < 65536"
      by linarith+
    then show ?thesis by simp
  qed
  ultimately show ?thesis by simp
qed

lemma unat_get_be16: "unat (get_be16 f i) = 256 * unat (f ! i) + unat (f ! Suc i)"
  by (simp add: get_be16_def unat_join)

lemma unat_get_le16: "unat (get_le16 f i) = 256 * unat (f ! Suc i) + unat (f ! i)"
  by (simp add: get_le16_def unat_join)

lemma be16_mod: "unat (get_be16 f i) mod 65535 = 256 * unat (get_le16 f i) mod 65535"
proof -
  have "256 * unat (get_le16 f i) = 65535 * unat (f ! Suc i) + unat (get_be16 f i)"
    by (simp add: unat_get_be16 unat_get_le16)
  then show ?thesis by simp
qed

fun le_sum :: "u8 list \<Rightarrow> nat \<Rightarrow> nat \<Rightarrow> nat" where
  "le_sum f p 0 = 0"
| "le_sum f p (Suc n) = unat (get_le16 f p) + le_sum f (p + 2) n"

lemma be_sum_mod: "be_sum f p n mod 65535 = 256 * le_sum f p n mod 65535"
proof (induction n arbitrary: p)
  case (Suc n)
  then have "(unat (get_be16 f p) + be_sum f (p + 2) n) mod 65535 =
      (256 * unat (get_le16 f p) + 256 * le_sum f (p + 2) n) mod 65535"
    by (intro mod_add_cong be16_mod)
  then show ?case by (simp add: distrib_left)
qed simp

lemma be_sum_valid_iff: "be_sum f p n mod 65535 = 0 \<longleftrightarrow> le_sum f p n mod 65535 = 0"
proof -
  have "coprime (256 :: nat) 65535" by (simp add: coprime_iff_gcd_eq_1 gcd_non_0_nat)
  then have "65535 dvd 256 * le_sum f p n \<longleftrightarrow> 65535 dvd le_sum f p n"
    by (simp add: coprime_dvd_mult_right_iff coprime_commute)
  then show ?thesis by (simp add: be_sum_mod dvd_eq_mod_eq_0)
qed

lemma le_sum_bound: "le_sum f p n \<le> n * 65535"
proof (induction n arbitrary: p)
  case (Suc n)
  have "unat (get_le16 f p) \<le> 65535" using unat_u16_less [of "get_le16 f p"] by linarith
  with Suc [of "p + 2"] show ?case by simp
qed simp

lemma ip_sum_loop_nat:
  assumes "unat c + n * 65535 < 4294967296"
  shows "unat (ip_sum_loop f p n c) = unat c + le_sum f p n"
  using assms
proof (induction n arbitrary: p c)
  case (Suc n)
  have "unat (ucast (get_le16 f p) :: u32) = unat (get_le16 f p)"
    by (simp add: unsigned_ucast_eq take_bit_eq_mod mod_less order.strict_trans [OF unat_u16_less])
  moreover have "unat (get_le16 f p) \<le> 65535" using unat_u16_less [of "get_le16 f p"] by linarith
  ultimately have "unat (c + ucast (get_le16 f p)) = unat c + unat (get_le16 f p)"
    using Suc.prems by (simp add: unat_word_ariths mod_less)
  with Suc show ?case using \<open>unat (get_le16 f p) \<le> 65535\<close> by simp
qed simp

lemma le_sum_cong:
  assumes "\<And>i. i < n \<Longrightarrow> get_le16 f (p + 2 * i) = get_le16 g (p + 2 * i)"
  shows "le_sum f p n = le_sum g p n"
  using assms
proof (induction n arbitrary: p)
  case (Suc n)
  have "get_le16 f (p + 2 + 2 * i) = get_le16 g (p + 2 + 2 * i)" if "i < n" for i
    using Suc.prems [of "Suc i"] that by (simp add: add.assoc)
  with Suc.IH [of "p + 2"] Suc.prems [of 0] show ?case by simp
qed simp

lemma le_sum_store:
  assumes "i < n" and "p + 2 * n \<le> length f"
  shows "le_sum (memcpy_at f (p + 2 * i) (le16 c)) p n + unat (get_le16 f (p + 2 * i)) = le_sum f p n + unat c"
  using assms
proof (induction n arbitrary: p i)
  case (Suc n)
  show ?case
  proof (cases i)
    case 0
    have "le_sum (memcpy_at f p (le16 c)) (p + 2) n = le_sum f (p + 2) n"
      using Suc.prems by (intro le_sum_cong) (simp add: get_le16_memcpy_other)
    with 0 Suc.prems show ?thesis by simp
  next
    case (Suc j)
    have "le_sum (memcpy_at f (p + 2 + 2 * j) (le16 c)) (p + 2) n + unat (get_le16 f (p + 2 + 2 * j)) =
        le_sum f (p + 2) n + unat c"
      using Suc.IH [of j "p + 2"] Suc Suc.prems by simp
    moreover have "get_le16 (memcpy_at f (p + 2 + 2 * j) (le16 c)) p = get_le16 f p"
      using Suc Suc.prems by (simp add: get_le16_memcpy_other)
    ultimately show ?thesis using Suc by (simp add: add.assoc)
  qed
qed simp

lemma be_sum_0_iff: "be_sum f p n = 0 \<longleftrightarrow> le_sum f p n = 0"
  by (induction n arbitrary: p) (auto simp: unat_get_be16 unat_get_le16)

lemma unat_NOT_u32: "unat (NOT w) = 4294967295 - unat (w :: u32)"
proof -
  have "NOT w = -1 - w" by (simp add: not_eq_complement)
  moreover have "w \<le> -1" by simp
  then have "unat (-1 - w) = unat (-1 :: u32) - unat w" by (rule unat_sub)
  moreover have "unat (-1 :: u32) = 4294967295" by (simp add: unsigned_minus_1_eq_mask mask_eq_exp_minus_1)
  ultimately show ?thesis by simp
qed

lemma complement_mod:
  fixes s :: nat
  assumes "s < 65536 + 10"
  shows "(4294967295 - s) mod 65536 = (if s < 65536 then 65535 - s else 131071 - s)"
proof (cases "s < 65536")
  case True
  then have "4294967295 - s = 65535 - s + 65535 * 65536" by simp
  then have "(4294967295 - s) mod 65536 = (65535 - s) mod 65536" by (simp only: mod_mult_self1)
  with True show ?thesis by simp
next
  case False
  with assms have "4294967295 - s = 131071 - s + 65534 * 65536" by simp
  then have "(4294967295 - s) mod 65536 = (131071 - s) mod 65536" by (simp only: mod_mult_self1)
  with False assms show ?thesis by simp
qed

lemma fold_complement:
  fixes c :: u32
  assumes "unat c = S" and "S \<le> 655350"
  shows "unat (ucast (NOT ((c AND 0xffff) + drop_bit 16 c)) :: u16) =
    (if S mod 65536 + S div 65536 < 65536 then 65535 - (S mod 65536 + S div 65536)
     else 131071 - (S mod 65536 + S div 65536))"
proof -
  have and_c: "unat (c AND 0xffff) = S mod 65536"
  proof -
    have "c AND 0xffff = take_bit 16 c" by (simp add: take_bit_eq_mask mask_eq_exp_minus_1)
    then show ?thesis using assms(1) by (simp add: take_bit_eq_mod unat_mod)
  qed
  have drop_c: "unat (drop_bit 16 c) = S div 65536"
    using assms(1) by (simp add: drop_bit_eq_div unat_div)
  let ?s = "S mod 65536 + S div 65536"
  have s: "?s < 65536 + 10" using assms(2) by linarith
  then have sum: "unat ((c AND 0xffff) + drop_bit 16 c) = ?s"
    by (simp add: unat_word_ariths and_c drop_c)
  have "unat (NOT ((c AND 0xffff) + drop_bit 16 c)) = 4294967295 - ?s"
    by (simp only: unat_NOT_u32 sum)
  then have "unat (ucast (NOT ((c AND 0xffff) + drop_bit 16 c)) :: u16) = (4294967295 - ?s) mod 65536"
    by (simp add: unsigned_ucast_eq take_bit_eq_mod)
  also have "\<dots> = (if ?s < 65536 then 65535 - ?s else 131071 - ?s)"
    using complement_mod [OF s] .
  finally show ?thesis .
qed

lemma complement_sum_valid:
  fixes S :: nat
  assumes "c = (if S mod 65536 + S div 65536 < 65536 then 65535 - (S mod 65536 + S div 65536)
     else 131071 - (S mod 65536 + S div 65536))" and "S mod 65536 + S div 65536 < 65536 + 10"
  shows "(S + c) mod 65535 = 0 \<longleftrightarrow> S mod 65536 + S div 65536 < 65536" and "0 < S + c"
proof -
  let ?q = "S div 65536" and ?r = "S mod 65536"
  have S: "S = 65536 * ?q + ?r" by simp
  have a1: "S + c = 65535 * (q + 1)" if "c + (r + q) = 65535" "S = 65536 * q + r" for q r
    using that by simp
  have a2: "S + c = 1 + 65535 * (q + 2)" if "c + (r + q) = 131071" "S = 65536 * q + r" for q r
    using that by simp
  have "S + c = 65535 * (?q + 1)" if "?r + ?q < 65536"
  proof -
    have "c + (?r + ?q) = 65535" using that assms(1) by simp
    from a1 [OF this S] show ?thesis .
  qed
  moreover have "S + c = 1 + 65535 * (?q + 2)" if "\<not> ?r + ?q < 65536"
  proof -
    have "c + (?r + ?q) = 131071" using that assms by simp
    from a2 [OF this S] show ?thesis .
  qed
  moreover have "(1 + 65535 * (?q + 2)) mod 65535 = (1 :: nat)" by (simp only: mod_mult_self2) simp
  ultimately show "(S + c) mod 65535 = 0 \<longleftrightarrow> ?r + ?q < 65536" and "0 < S + c"
    by (metis mod_mult_self1_is_0 zero_neq_one, metis add_gr_0 mult_pos_pos zero_less_numeral zero_less_one)
qed

text \<open>
  The checksum makes the header pass a receiver's check exactly when folding the 32-bit sum once
  leaves no further carry; with a carry the header is rejected, because the code folds only once.
\<close>

lemma ip_checksum_valid_iff:
  assumes "ip + 20 \<le> length f" and "compute_ip_checksum f ip = (f', c)"
    and "S = le_sum (memcpy_at f (ip + 10) (le16 0)) ip 10"
  shows "ip_header_valid (memcpy_at f' (ip + 10) (le16 c)) ip \<longleftrightarrow> S mod 65536 + S div 65536 < 65536"
proof -
  have f': "f' = memcpy_at f (ip + 10) (le16 0)"
    and c: "c = ucast (NOT ((ip_sum_loop f' ip 10 0 AND 0xffff) + drop_bit 16 (ip_sum_loop f' ip 10 0)))"
    using assms(2) by (auto simp: compute_ip_checksum_def Let_def)
  have S: "unat (ip_sum_loop f' ip 10 0) = S" "S \<le> 655350"
    using assms(3) f' ip_sum_loop_nat [of 0 10 f' ip] le_sum_bound [of f' ip 10] by simp_all
  then have uc: "unat c = (if S mod 65536 + S div 65536 < 65536 then 65535 - (S mod 65536 + S div 65536)
     else 131071 - (S mod 65536 + S div 65536))"
    using fold_complement [of "ip_sum_loop f' ip 10 0" S] c by simp
  have "le_sum (memcpy_at f' (ip + 10) (le16 c)) ip 10 = S + unat c"
    using le_sum_store [of 5 10 ip f' c] assms(1,3) f' by simp
  moreover have "S mod 65536 + S div 65536 < 65536 + 10" using S(2) by linarith
  ultimately show ?thesis
    using complement_sum_valid [OF uc] be_sum_0_iff [of "memcpy_at f' (ip + 10) (le16 c)" ip 10]
    by (auto simp: ip_header_valid_def be_sum_valid_iff)
qed

end
