(* ===== verification/Bmc_Reply.thy ===== *)
theory Bmc_Reply
  imports Bmc_Rx Bmc_Checksum
begin

text \<open>
  The reply writer (\<^verbatim>\<open>bmc_write_reply_main\<close> of \<^verbatim>\<open>src/bmc/bmc_kern.c\<close>): per run one saved key is compared with its cache entry and the
  entry's data copied into the packet; after the last key the packet is finished and sent.
\<close>

section \<open>bmc\_write\_reply\<close>

text \<open>The comparison of the saved key with the key in the cached reply, \<open>n\<close> bytes from \<open>i\<close>.\<close>

fun key_compare_loop :: "memcached_key \<Rightarrow> bmc_cache_entry \<Rightarrow> nat \<Rightarrow> nat \<Rightarrow> bool \<Rightarrow> bool" where
  "key_compare_loop key entry i 0 cache_hit = cache_hit"
| "key_compare_loop key entry i (Suc n) cache_hit =
     key_compare_loop key entry (i + 1) n
       (if mk_data key ! i \<noteq> ce_data entry ! (6 + i) then False else cache_hit)"

text \<open>
  The two copy loops: eight bytes at a time while they fit, then byte by byte.  \<open>f\<close> is the
  frame, \<open>p\<close> the offset of the payload and \<open>e\<close> that of the packet's end.
\<close>

function copy8_loop :: "bmc_cache_entry \<Rightarrow> nat \<Rightarrow> nat \<Rightarrow> u8 list \<Rightarrow> nat \<Rightarrow> nat \<Rightarrow> u8 list \<times> nat \<times> nat" where
  "copy8_loop entry p e f off written =
     (if off + 8 < BMC_MAX_CACHE_DATA_SIZE \<and> off + 8 \<le> unat (ce_len entry) \<and> p + off + 8 \<le> e then
        copy8_loop entry p e (memcpy_at f (p + off) (segment off 8 (ce_data entry))) (off + 7 + 1) (written + 8)
      else (f, off, written))"
  by pat_completeness auto
termination
  by (relation "measure (\<lambda>(en, p, e, f, off, w). BMC_MAX_CACHE_DATA_SIZE - off)") auto

declare copy8_loop.simps [simp del]

function copy1_loop :: "bmc_cache_entry \<Rightarrow> nat \<Rightarrow> nat \<Rightarrow> u8 list \<Rightarrow> nat \<Rightarrow> nat \<Rightarrow> u8 list \<times> nat" where
  "copy1_loop entry p e f off written =
     (if off < BMC_MAX_CACHE_DATA_SIZE \<and> off < unat (ce_len entry) \<and> p + off + 1 \<le> e then
        copy1_loop entry p e (memcpy_at f (p + off) [ce_data entry ! off]) (off + 1) (written + 1)
      else (f, written))"
  by pat_completeness auto
termination
  by (relation "measure (\<lambda>(en, p, e, f, off, w). BMC_MAX_CACHE_DATA_SIZE - off)") auto

declare copy1_loop.simps [simp del]

text \<open>The section under the entry's lock: hit flag, bytes written, packet.\<close>

definition write_reply_entry :: "memcached_key \<Rightarrow> bmc_cache_entry \<Rightarrow> xdp_md \<Rightarrow> bool \<times> nat \<times> xdp_md" where
  "write_reply_entry key entry x =
     (if ce_valid entry \<noteq> 0 \<and> mk_hash key = ce_hash entry then
        let cache_hit = key_compare_loop key entry 0 (min BMC_MAX_KEY_LENGTH (unat (mk_len key))) True in
        if cache_hit then
          let (f1, off, w1) = copy8_loop entry (xdp_data x) (xdp_data_end x) (xdp_frame x) 0 0;
              (f2, w2) = copy1_loop entry (xdp_data x) (xdp_data_end x) f1 off w1
          in (True, w2, x\<lparr>xdp_frame := f2\<rparr>)
        else (False, 0, x)
      else (True, 0, x))"

text \<open>The headers of the finished reply, whose payload holds \<open>n\<close> bytes.\<close>

definition finish_headers :: "u8 list \<Rightarrow> nat \<Rightarrow> nat \<Rightarrow> u8 list" where
  "finish_headers f data n =
     (let ip = data + sizeof_ethhdr; udp = data + sizeof_ethhdr + sizeof_iphdr;
          payload = data + udp_headers;
          f1 = memcpy_at f (ip + 2) (be16 (of_nat (payload + n - ip)));
          (f2, check) = compute_ip_checksum f1 ip;
          f3 = memcpy_at f2 (ip + 10) (le16 check);
          f4 = memcpy_at f3 (udp + 6) (le16 0);
          f5 = memcpy_at f4 (udp + 4) (be16 (of_nat (payload + n - udp)))
      in f5)"

definition write_reply_send ::
  "bpf \<Rightarrow> bmc_state \<Rightarrow> xdp_md \<Rightarrow> nat \<Rightarrow> xdp_prog outcome \<times> bmc_state \<times> xdp_md" where
  "write_reply_send B s x written =
     (if xdp_data x + written + 5 \<le> xdp_data_end x then
        let x1 = x\<lparr>xdp_frame := memcpy_at (xdp_frame x) (xdp_data x + written)
                     [asc CHR ''E'', asc CHR ''N'', asc CHR ''D'', chr_cr, chr_nl]\<rparr>;
            written' = written + 5;
            wpo = unat (write_pkt_offset (pctx s)) in
        case xdp_adjust_head B x1 (- (int udp_headers + int wpo)) of
          None \<Rightarrow> (Return XDP_DROP, s, x1)
        | Some x2 \<Rightarrow>
            if past_end x2 (sizeof_ethhdr + sizeof_iphdr + sizeof_udphdr) then (Return XDP_PASS, s, x2)
            else
              let x3 = x2\<lparr>xdp_frame := finish_headers (xdp_frame x2) (xdp_data x2) (wpo + written')\<rparr>;
                  x4 = adjusted (xdp_adjust_tail B x3
                         (- (int (xdp_data_end x3) - int (xdp_data x3 + udp_headers + wpo + written')))) x3
              in (Return XDP_TX, s, x4)
      else (Return XDP_DROP, s, x))"

definition write_reply_next ::
  "bpf \<Rightarrow> bmc_state \<Rightarrow> xdp_md \<Rightarrow> nat \<Rightarrow> xdp_prog outcome \<times> bmc_state \<times> xdp_md" where
  "write_reply_next B s x written =
     (if current_key (pctx s) = key_count (pctx s) \<and> (write_pkt_offset (pctx s) > 0 \<or> written > 0) then
        write_reply_send B s x written
      else if current_key (pctx s) = key_count (pctx s) then
        (Return XDP_PASS,
         s\<lparr>stats := (stats s)\<lparr>hit_misprediction := hit_misprediction (stats s) + key_count (pctx s)\<rparr>\<rparr>,
         adjusted (xdp_adjust_head B x (int ADJUST_HEAD_LEN - int udp_headers)) x)
      else if current_key (pctx s) < BMC_MAX_KEY_IN_PACKET then
        let s' = s\<lparr>pctx := (pctx s)\<lparr>write_pkt_offset := write_pkt_offset (pctx s) + of_nat written\<rparr>\<rparr> in
        case xdp_adjust_head B x (int written) of
          None \<Rightarrow> (Return XDP_DROP, s', x)
        | Some x' \<Rightarrow> (Tail_call BMC_PROG_XDP_WRITE_REPLY XDP_DROP, s', x')
      else (Return XDP_DROP, s, x))"

definition bmc_write_reply_main ::
  "bpf \<Rightarrow> bmc_state \<Rightarrow> xdp_md \<Rightarrow> xdp_prog outcome \<times> bmc_state \<times> xdp_md" where
  "bmc_write_reply_main B s x =
     (if xdp_data x \<ge> xdp_data_end x then (Return XDP_PASS, s, x)
      else if \<not> lookup_elem B map_parsing_context 0 then (Return XDP_PASS, s, x)
      else if \<not> lookup_elem B map_keys (current_key (pctx s)) then (Return XDP_PASS, s, x)
      else
        let key = keys s (current_key (pctx s)); cache_idx = cache_index (mk_hash key) in
        if \<not> lookup_elem B map_kcache cache_idx then (Return XDP_DROP, s, x)
        else
          let (cache_hit, written, x1) = write_reply_entry key (kcache s cache_idx) x in
          if \<not> lookup_elem B map_stats 0 then (Return XDP_PASS, s, x1)
          else
            let s1 = (if cache_hit
                      then s\<lparr>stats := (stats s)\<lparr>hit_count := hit_count (stats s) + 1\<rparr>\<rparr>
                      else s\<lparr>stats := (stats s)\<lparr>miss_count := miss_count (stats s) + 1\<rparr>\<rparr>);
                s2 = s1\<lparr>pctx := (pctx s1)\<lparr>current_key := current_key (pctx s1) + 1\<rparr>\<rparr>
            in write_reply_next B s2 x1 written)"

section \<open>Facts on the loops\<close>

lemma key_compare_loop_iff:
  "key_compare_loop key e i n hit \<longleftrightarrow> hit \<and> (\<forall>j<n. mk_data key ! (i + j) = ce_data e ! (6 + (i + j)))"
proof (induction n arbitrary: i hit)
  case (Suc n)
  have "(\<forall>j<Suc n. P j) \<longleftrightarrow> P 0 \<and> (\<forall>j<n. P (Suc j))" for P
    by (metis less_Suc_eq_0_disj)
  with Suc show ?case by auto
qed simp

lemma key_compare_loop_segment:
  assumes "n \<le> length (mk_data key)" and "6 + n \<le> length (ce_data e)"
  shows "key_compare_loop key e 0 n True \<longleftrightarrow> take n (mk_data key) = segment 6 n (ce_data e)"
  using assms by (auto simp: key_compare_loop_iff list_eq_iff_nth_eq)

lemma segment_one: "i < length xs \<Longrightarrow> segment i (Suc 0) xs = [xs ! i]"
  by (simp add: segment_Suc) (simp add: segment_def)

lemma memcpy_take_extend:
  assumes "off + m \<le> length D" and "p + (off + m) \<le> length f"
  shows "memcpy_at (memcpy_at f p (take off D)) (p + off) (segment off m D) = memcpy_at f p (take (off + m) D)"
  using assms memcpy_at_memcpy_at_adjacent [of p "take off D" "segment off m D" f]
  by (simp add: take_add segment_def min_absorb2)

lemma copy8_loop_memcpy:
  assumes "length (ce_data en) = BMC_MAX_CACHE_DATA_SIZE" and "e \<le> length f0"
    and "off \<le> n" and "n = min (unat (ce_len en)) (min BMC_MAX_CACHE_DATA_SIZE (e - p))" and "p \<le> e"
  shows "\<exists>off'. copy8_loop en p e (memcpy_at f0 p (take off (ce_data en))) off off =
           (memcpy_at f0 p (take off' (ce_data en)), off', off') \<and> off' \<le> n"
  using assms
proof (induction "n - off" arbitrary: off rule: less_induct)
  case less
  let ?g = "off + 8 < BMC_MAX_CACHE_DATA_SIZE \<and> off + 8 \<le> unat (ce_len en) \<and> p + off + 8 \<le> e"
  show ?case
  proof (cases ?g)
    case True
    have "memcpy_at (memcpy_at f0 p (take off (ce_data en))) (p + off) (segment off 8 (ce_data en)) =
        memcpy_at f0 p (take (off + 8) (ce_data en))"
      using less.prems True by (intro memcpy_take_extend) auto
    then have "copy8_loop en p e (memcpy_at f0 p (take off (ce_data en))) off off =
        copy8_loop en p e (memcpy_at f0 p (take (off + 8) (ce_data en))) (off + 8) (off + 8)"
      using True by (subst copy8_loop.simps) (simp add: add.commute)
    moreover have le: "off + 8 \<le> n" using less.prems True by auto
    moreover from le have "n - (off + 8) < n - off" by linarith
    ultimately show ?thesis
      using less.hyps [of "off + 8", OF _ less.prems(1,2) _ less.prems(4,5)] by presburger
  next
    case False
    then show ?thesis using less.prems(3) by (subst copy8_loop.simps) auto
  qed
qed

lemma copy1_loop_memcpy:
  assumes "length (ce_data en) = BMC_MAX_CACHE_DATA_SIZE" and "e \<le> length f0"
    and "off \<le> n" and "n = min (unat (ce_len en)) (min BMC_MAX_CACHE_DATA_SIZE (e - p))" and "p \<le> e"
  shows "copy1_loop en p e (memcpy_at f0 p (take off (ce_data en))) off off =
           (memcpy_at f0 p (take n (ce_data en)), n)"
  using assms
proof (induction "n - off" arbitrary: off rule: less_induct)
  case less
  show ?case
  proof (cases "off < n")
    case True
    have "memcpy_at (memcpy_at f0 p (take off (ce_data en))) (p + off) [ce_data en ! off] =
        memcpy_at f0 p (take (off + 1) (ce_data en))"
    proof -
      have "off < length (ce_data en)" "p + Suc off \<le> length f0" using less.prems True by auto
      then show ?thesis
        using memcpy_take_extend [of off 1 "ce_data en" p f0]
        by (simp add: segment_one min_absorb2)
    qed
    moreover have "off < BMC_MAX_CACHE_DATA_SIZE \<and> off < unat (ce_len en) \<and> p + off + 1 \<le> e"
      using less.prems True by auto
    ultimately have "copy1_loop en p e (memcpy_at f0 p (take off (ce_data en))) off off =
        copy1_loop en p e (memcpy_at f0 p (take (off + 1) (ce_data en))) (off + 1) (off + 1)"
      by (subst copy1_loop.simps) simp
    moreover from True have "n - (off + 1) < n - off" "off + 1 \<le> n" by linarith+
    ultimately show ?thesis
      using less.hyps [of "off + 1", OF _ less.prems(1,2) _ less.prems(4,5)] by presburger
  next
    case False
    with less.prems(3) have "off = n" by linarith
    moreover from this have "\<not> (off < BMC_MAX_CACHE_DATA_SIZE \<and> off < unat (ce_len en) \<and> p + off + 1 \<le> e)"
      using less.prems(4) by linarith
    ultimately show ?thesis by (subst copy1_loop.simps) auto
  qed
qed

section \<open>The section under the lock\<close>

lemma write_reply_entry_hit:
  assumes "entry_wf e" and "xdp_wf x" and "ce_valid e \<noteq> 0" and "mk_hash key = ce_hash e"
    and "length (mk_data key) = BMC_MAX_KEY_LENGTH" and "unat (mk_len key) \<le> BMC_MAX_KEY_LENGTH"
    and "take (unat (mk_len key)) (mk_data key) = segment 6 (unat (mk_len key)) (ce_data e)"
  shows "write_reply_entry key e x =
    (let n = min (length (cached e)) (length (pkt x))
     in (True, n, x\<lparr>xdp_frame := memcpy_at (xdp_frame x) (xdp_data x) (take n (cached e))\<rparr>))"
proof -
  let ?p = "xdp_data x" and ?e = "xdp_data_end x" and ?f = "xdp_frame x"
  define n where "n = min (unat (ce_len e)) (min BMC_MAX_CACHE_DATA_SIZE (?e - ?p))"
  have wf: "length (ce_data e) = BMC_MAX_CACHE_DATA_SIZE" "?e \<le> length ?f" "?p \<le> ?e"
    using assms(1,2) by (auto simp: entry_wf_def xdp_wf_def)
  obtain off where c8: "copy8_loop e ?p ?e ?f 0 0 = (memcpy_at ?f ?p (take off (ce_data e)), off, off)"
    and off: "off \<le> n"
    using copy8_loop_memcpy [OF wf(1,2), of 0 n ?p] wf n_def by auto
  have c1: "copy1_loop e ?p ?e (memcpy_at ?f ?p (take off (ce_data e))) off off =
      (memcpy_at ?f ?p (take n (ce_data e)), n)"
    using copy1_loop_memcpy [OF wf(1,2) off n_def wf(3)] .
  have hit: "key_compare_loop key e 0 (min BMC_MAX_KEY_LENGTH (unat (mk_len key))) True"
    using assms(5-7) wf(1) by (simp add: min_absorb2 key_compare_loop_segment)
  have n: "n = min (length (cached e)) (length (pkt x))"
    using assms(1,2) by (auto simp: n_def length_cached length_pkt entry_wf_def)
  have "take n (ce_data e) = take n (cached e)" by (simp add: cached_def n_def)
  then show ?thesis
    using assms(3,4) c8 c1 hit by (simp add: write_reply_entry_def Let_def n [symmetric])
qed

section \<open>The headers of the finished reply\<close>

lemma get_le16_append: "get_le16 (a @ b) (length a + i) = get_le16 b i"
  using nth_append_length_plus [of a b "Suc i"] by (simp add: get_le16_def)

lemma ip_sum_loop_append: "ip_sum_loop (a @ b) (length a + p) n c = ip_sum_loop b p n c"
proof (induction n arbitrary: p c)
  case (Suc n)
  from Suc [of "p + 2"] show ?case by (simp add: get_le16_append add.assoc)
qed simp

lemma compute_ip_checksum_append:
  "compute_ip_checksum (a @ b) (length a + ip) = (case compute_ip_checksum b ip of (f, c) \<Rightarrow> (a @ f, c))"
  by (simp add: compute_ip_checksum_def Let_def add.assoc memcpy_at_append_right ip_sum_loop_append)

lemma finish_headers_append:
  "finish_headers (a @ b) (length a) n = a @ finish_headers b 0 n"
proof -
  have "memcpy_at (a @ b) (16 + length a) ys = a @ memcpy_at b 16 ys" for ys :: "u8 list" and b
    using memcpy_at_append_right [of a b 16 ys] by (simp add: add.commute)
  moreover have "memcpy_at (a @ b) (24 + length a) ys = a @ memcpy_at b 24 ys" for ys :: "u8 list" and b
    using memcpy_at_append_right [of a b 24 ys] by (simp add: add.commute)
  moreover have "memcpy_at (a @ b) (40 + length a) ys = a @ memcpy_at b 40 ys" for ys :: "u8 list" and b
    using memcpy_at_append_right [of a b 40 ys] by (simp add: add.commute)
  moreover have "memcpy_at (a @ b) (38 + length a) ys = a @ memcpy_at b 38 ys" for ys :: "u8 list" and b
    using memcpy_at_append_right [of a b 38 ys] by (simp add: add.commute)
  moreover have "compute_ip_checksum (a @ b) (14 + length a) = (case compute_ip_checksum b 14 of (f, c) \<Rightarrow> (a @ f, c))" for b
    using compute_ip_checksum_append [of a b 14] by (simp add: add.commute)
  ultimately show ?thesis
    by (simp add: finish_headers_def Let_def split_def add.commute [of "length a"])
qed

lemma get_le16_append_left: "Suc i < length a \<Longrightarrow> get_le16 (a @ b) i = get_le16 a i"
  by (simp add: get_le16_def nth_append)

lemma ip_sum_loop_append_left: "p + 2 * n \<le> length a \<Longrightarrow> ip_sum_loop (a @ b) p n c = ip_sum_loop a p n c"
  by (induction n arbitrary: p c) (simp_all add: get_le16_append_left)

lemma compute_ip_checksum_append_left:
  "ip + 20 \<le> length a \<Longrightarrow>
   compute_ip_checksum (a @ b) ip = (case compute_ip_checksum a ip of (f, c) \<Rightarrow> (f @ b, c))"
  by (simp add: compute_ip_checksum_def Let_def memcpy_at_append_left ip_sum_loop_append_left)

lemma length_compute_ip_checksum:
  "ip + 12 \<le> length a \<Longrightarrow> compute_ip_checksum a ip = (f, c) \<Longrightarrow> length f = length a"
  by (auto simp: compute_ip_checksum_def Let_def)

lemma finish_headers_append_left:
  assumes "42 \<le> length h"
  shows "finish_headers (h @ b) 0 n = finish_headers h 0 n @ b"
proof -
  let ?h1 = "memcpy_at h 16 (be16 (of_nat (50 + n - 14)))"
  obtain f c where fc: "compute_ip_checksum ?h1 14 = (f, c)" by (cases "compute_ip_checksum ?h1 14")
  have "length ?h1 = length h" using assms by simp
  moreover from this have "length f = length h" using assms fc length_compute_ip_checksum [of 14 ?h1 f c] by simp
  ultimately show ?thesis
    using assms fc by (simp add: finish_headers_def Let_def memcpy_at_append_left compute_ip_checksum_append_left)
qed

lemma length_finish_headers [simp]: "42 \<le> length h \<Longrightarrow> length (finish_headers h 0 n) = length h"
proof -
  assume len: "42 \<le> length h"
  let ?h1 = "memcpy_at h 16 (be16 (of_nat (50 + n - 14)))"
  obtain f c where fc: "compute_ip_checksum ?h1 14 = (f, c)" by (cases "compute_ip_checksum ?h1 14")
  have "length ?h1 = length h" using len by simp
  moreover from this have "length f = length h" using len fc length_compute_ip_checksum [of 14 ?h1 f c] by simp
  ultimately show ?thesis using len fc by (simp add: finish_headers_def Let_def)
qed

lemma be_sum_memcpy_other:
  assumes "i + length ys \<le> length f" and "p + 2 * n \<le> i"
  shows "be_sum (memcpy_at f i ys) p n = be_sum f p n"
  using assms by (induction n arbitrary: p) (simp_all add: get_be16_memcpy_other)

lemma get_be16_append_left: "Suc i < length a \<Longrightarrow> get_be16 (a @ b) i = get_be16 a i"
  by (simp add: get_be16_def nth_append)

lemma be_sum_append_left: "p + 2 * n \<le> length a \<Longrightarrow> be_sum (a @ b) p n = be_sum a p n"
  by (induction n arbitrary: p) (simp_all add: get_be16_append_left)

lemma ip_header_valid_prefix:
  "ip + 20 \<le> length a \<Longrightarrow> ip_header_valid (a @ b) ip = ip_header_valid a ip"
  "ip + 20 \<le> i \<Longrightarrow> i + length ys \<le> length a \<Longrightarrow> ip_header_valid (memcpy_at a i ys) ip = ip_header_valid a ip"
  by (simp_all add: ip_header_valid_def be_sum_append_left be_sum_memcpy_other)

text \<open>The header bytes the checksum is taken over, with the checksum field zeroed.\<close>

definition checksum_input :: "u8 list \<Rightarrow> nat \<Rightarrow> u8 list" where
  "checksum_input h n = memcpy_at (memcpy_at h 16 (be16 (of_nat (36 + n)))) 24 (le16 0)"

lemma finish_headers_stores:
  assumes "length h = udp_headers"
  obtains c where "finish_headers h 0 n =
      memcpy_at (memcpy_at (memcpy_at (checksum_input h n) 24 (le16 c)) 40 (le16 0)) 38 (be16 (of_nat (16 + n)))"
    and "compute_ip_checksum (memcpy_at h 16 (be16 (of_nat (36 + n)))) 14 = (checksum_input h n, c)"
  using assms that by (simp add: finish_headers_def compute_ip_checksum_def checksum_input_def Let_def)

lemma finish_headers_fields:
  assumes "length h = udp_headers"
  shows "get_be16 (finish_headers h 0 n) 16 = of_nat (36 + n)"
    and "get_be16 (finish_headers h 0 n) 38 = of_nat (16 + n)"
    and "get_be16 (finish_headers h 0 n) 40 = 0"
    and "i + m \<le> 16 \<or> 18 \<le> i \<and> i + m \<le> 24 \<or> 26 \<le> i \<and> i + m \<le> 38 \<or> 42 \<le> i \<and> i + m \<le> 50 \<Longrightarrow>
      segment i m (finish_headers h 0 n) = segment i m h"
    and "ip_header_valid (finish_headers h 0 n) 14 \<longleftrightarrow>
      (let S = le_sum (checksum_input h n) 14 10 in S mod 65536 + S div 65536 < 65536)"
proof -
  obtain c where f: "finish_headers h 0 n =
      memcpy_at (memcpy_at (memcpy_at (checksum_input h n) 24 (le16 c)) 40 (le16 0)) 38 (be16 (of_nat (16 + n)))"
    and c: "compute_ip_checksum (memcpy_at h 16 (be16 (of_nat (36 + n)))) 14 = (checksum_input h n, c)"
    by (rule finish_headers_stores [OF assms])
  have len [simp]: "length (checksum_input h n) = 50" using assms by (simp add: checksum_input_def)
  show "get_be16 (finish_headers h 0 n) 16 = of_nat (36 + n)"
    using assms by (simp add: f get_be16_memcpy_other, simp add: checksum_input_def get_be16_memcpy_other)
  show "get_be16 (finish_headers h 0 n) 38 = of_nat (16 + n)" by (simp add: f)
  have "le16 0 = be16 0" by (simp add: le16_def be16_def)
  then show "get_be16 (finish_headers h 0 n) 40 = 0" by (simp add: f get_be16_memcpy_other)
  show "segment i m (finish_headers h 0 n) = segment i m h"
    if "i + m \<le> 16 \<or> 18 \<le> i \<and> i + m \<le> 24 \<or> 26 \<le> i \<and> i + m \<le> 38 \<or> 42 \<le> i \<and> i + m \<le> 50"
  proof -
    have "segment i m (checksum_input h n) = segment i m h"
      using that assms by (auto simp: checksum_input_def segment_memcpy_at_other)
    then show ?thesis using that by (auto simp: f segment_memcpy_at_other)
  qed
  have "ip_header_valid (finish_headers h 0 n) 14 = ip_header_valid (memcpy_at (checksum_input h n) 24 (le16 c)) 14"
    by (simp add: f ip_header_valid_prefix)
  then show "ip_header_valid (finish_headers h 0 n) 14 \<longleftrightarrow>
      (let S = le_sum (checksum_input h n) 14 10 in S mod 65536 + S div 65536 < 65536)"
    using ip_checksum_valid_iff [OF _ c refl] assms by (simp add: Let_def checksum_input_def)
qed

lemma reply_packet_fields:
  assumes "length hdr = udp_headers" and "q = finish_headers (swapped_headers hdr @ p) 0 (length p)"
    and "S = le_sum (checksum_input (swapped_headers hdr) (length p)) 14 10"
  shows "segment 0 6 q = segment 6 6 hdr" and "segment 6 6 q = segment 0 6 hdr"
    and "segment 26 4 q = segment 30 4 hdr" and "segment 30 4 q = segment 26 4 hdr"
    and "segment 34 2 q = segment 36 2 hdr" and "segment 36 2 q = segment 34 2 hdr"
    and "get_be16 q 16 = of_nat (36 + length p)" and "get_be16 q 38 = of_nat (16 + length p)"
    and "get_be16 q 40 = 0" and "segment 42 8 q = segment 42 8 hdr" and "drop udp_headers q = p"
    and "ip_header_valid q 14 \<longleftrightarrow> S mod 65536 + S div 65536 < 65536"
proof -
  let ?h = "swapped_headers hdr"
  let ?f = "finish_headers ?h 0 (length p)"
  have h: "length ?h = 50" using assms(1) by simp
  then have q: "q = ?f @ p" and f: "length ?f = 50"
    using assms(2) finish_headers_append_left [of ?h p] by simp_all
  note fields = finish_headers_fields [OF h, where n = "length p"]
  have seg: "segment i m q = segment i m ?h"
    if "i + m \<le> 16 \<or> 18 \<le> i \<and> i + m \<le> 24 \<or> 26 \<le> i \<and> i + m \<le> 38 \<or> 42 \<le> i \<and> i + m \<le> 50" for i m
    using that fields(4) [OF that] f by (auto simp: q segment_append_left)
  note sw = swapped_headers_segments [OF assms(1)]
  show "segment 0 6 q = segment 6 6 hdr" "segment 6 6 q = segment 0 6 hdr"
    "segment 26 4 q = segment 30 4 hdr" "segment 30 4 q = segment 26 4 hdr"
    "segment 34 2 q = segment 36 2 hdr" "segment 36 2 q = segment 34 2 hdr"
    using seg [of 0 6] seg [of 6 6] seg [of 26 4] seg [of 30 4] seg [of 34 2] seg [of 36 2] sw
    by (simp_all del: segment_0)
  have "segment 42 8 ?h = segment 4 8 (segment 38 12 ?h)" by (simp add: segment_def drop_take)
  also have "\<dots> = segment 42 8 hdr" unfolding sw(8) by (simp add: segment_def drop_take)
  finally show "segment 42 8 q = segment 42 8 hdr" using seg [of 42 8] by simp
  show "get_be16 q 16 = of_nat (36 + length p)" "get_be16 q 38 = of_nat (16 + length p)" "get_be16 q 40 = 0"
    using fields(1-3) f by (simp_all add: q get_be16_append_left)
  show "drop 50 q = p" using f by (simp add: q)
  show "ip_header_valid q 14 \<longleftrightarrow> S mod 65536 + S div 65536 < 65536"
    using fields(5) f assms(3) by (simp add: q ip_header_valid_prefix Let_def)
qed

text \<open>
  C7.  The headers of a reply.  The finished packet goes back to the sender of the request (Ethernet,
  IP and UDP source and destination exchanged), its IP and UDP lengths count the payload, the UDP
  checksum is the zero that means none, the memcached UDP header is the request's, the payload follows
  untouched, and the IP header passes a receiver's check exactly when folding the 32-bit sum of its
  halfwords once leaves no carry (the code folds only once).
\<close>

theorem reply_packet_headers:
  assumes "length hdr = udp_headers" and "q = finish_headers (swapped_headers hdr @ p) 0 (length p)"
    and "S = le_sum (checksum_input (swapped_headers hdr) (length p)) 14 10"
  shows "segment 0 6 q = segment 6 6 hdr \<and> segment 6 6 q = segment 0 6 hdr \<and>
    segment 26 4 q = segment 30 4 hdr \<and> segment 30 4 q = segment 26 4 hdr \<and>
    segment 34 2 q = segment 36 2 hdr \<and> segment 36 2 q = segment 34 2 hdr \<and>
    get_be16 q 16 = of_nat (36 + length p) \<and> get_be16 q 38 = of_nat (16 + length p) \<and>
    get_be16 q 40 = 0 \<and> segment 42 8 q = segment 42 8 hdr \<and> drop udp_headers q = p \<and>
    (ip_header_valid q 14 \<longleftrightarrow> S mod 65536 + S div 65536 < 65536)"
  by (intro conjI reply_packet_fields [OF assms])

theorem reply_packet_headers_witness:
  "\<exists>q. q = finish_headers (swapped_headers (sample_udp 5000 11211) @ bytes ''END'') 0 3 \<and>
    segment 30 4 q = [10, 0, 0, 1] \<and> get_be16 q 16 = 39 \<and> drop udp_headers q = bytes ''END''"
proof -
  let ?h = "sample_udp 5000 11211" and ?p = "bytes ''END''"
  have "length ?h = 50" by (simp add: sample_defs)
  moreover have "segment 26 4 ?h = [10, 0, 0, 1]" by (simp add: sample_defs segment_def be16_def)
  ultimately show ?thesis using reply_packet_headers [of ?h _ ?p, OF _ refl refl] by (simp add: numeral_3_eq_3)
qed

end
