(* ===== verification/Bmc_Inval.thy ===== *)
theory Bmc_Inval
  imports Bmc_Data
begin

text \<open>
  Invalidation (\<^verbatim>\<open>bmc_invalidate_cache_main\<close> of \<^verbatim>\<open>src/bmc/bmc_kern.c\<close>): the payload of a TCP
  packet is scanned for SET commands, and the cache entry each command's key maps to is marked
  invalid.
\<close>

text \<open>Marking one entry: the section under the entry's lock.\<close>

definition invalidate_entry :: "bmc_state \<Rightarrow> u32 \<Rightarrow> bmc_state" where
  "invalidate_entry s cache_idx =
     (if ce_valid (kcache s cache_idx) \<noteq> 0 then
        s\<lparr>kcache := (kcache s)(cache_idx := (kcache s cache_idx)\<lparr>ce_valid := 0\<rparr>),
          stats := (stats s)\<lparr>invalidation_count := invalidation_count (stats s) + 1\<rparr>\<rparr>
      else s)"

definition set_at :: "xdp_md \<Rightarrow> nat \<Rightarrow> nat \<Rightarrow> bool" where
  "set_at x payload off \<longleftrightarrow>
     ldb x (payload + off) = asc CHR ''s'' \<and> \<not> past_end x (payload + off + 3) \<and>
     ldb x (payload + off + 1) = asc CHR ''e'' \<and> ldb x (payload + off + 2) = asc CHR ''t''"

text \<open>The scan; \<open>hash\<close> is only read after the first byte of a key has set it.\<close>

function inval_loop ::
  "bpf \<Rightarrow> xdp_md \<Rightarrow> nat \<Rightarrow> nat \<Rightarrow> bool \<Rightarrow> bool \<Rightarrow> u32 \<Rightarrow> bmc_state \<Rightarrow> bmc_state" where
  "inval_loop B x payload off set_found key_found hash s =
     (if off < BMC_MAX_PACKET_LENGTH \<and> \<not> past_end x (payload + off + 1) then
        if \<not> set_found \<and> set_at x payload off then
          inval_loop B x payload (off + 3 + 1) True key_found hash
            (s\<lparr>stats := (stats s)\<lparr>set_recv_count := set_recv_count (stats s) + 1\<rparr>\<rparr>)
        else if \<not> key_found \<and> set_found \<and> ldb x (payload + off) \<noteq> chr_sp then
          if ldb x (payload + off) = chr_cr then
            inval_loop B x payload (off + 1) False False hash s
          else
            inval_loop B x payload (off + 1) set_found True
              (fnv_round FNV_OFFSET_BASIS_32 (ldb x (payload + off))) s
        else if key_found then
          if ldb x (payload + off) = chr_sp then
            if \<not> lookup_elem B map_kcache (cache_index hash) then s
            else inval_loop B x payload (off + 1) False False hash (invalidate_entry s (cache_index hash))
          else
            inval_loop B x payload (off + 1) set_found key_found
              (fnv_round hash (ldb x (payload + off))) s
        else inval_loop B x payload (off + 1) set_found key_found hash s
      else s)"
  by pat_completeness auto
termination
  by (relation "measure (\<lambda>(B, x, p, off, r). BMC_MAX_PACKET_LENGTH - off)") auto

declare inval_loop.simps [simp del]

definition bmc_invalidate_cache_main ::
  "bpf \<Rightarrow> bmc_state \<Rightarrow> xdp_md \<Rightarrow> xdp_prog outcome \<times> bmc_state \<times> xdp_md" where
  "bmc_invalidate_cache_main B s x =
     (let payload = sizeof_ethhdr + sizeof_iphdr + sizeof_tcphdr in
      if xdp_data x + payload \<ge> xdp_data_end x then (Return XDP_PASS, s, x)
      else if \<not> lookup_elem B map_stats 0 then (Return XDP_PASS, s, x)
      else (Return XDP_PASS, inval_loop B x payload 0 False False 0 s, x))"

section \<open>The scan only invalidates\<close>

text \<open>\<open>c'\<close> is \<open>c\<close> with some entries marked invalid.\<close>

definition weaker_cache :: "(u32 \<Rightarrow> bmc_cache_entry) \<Rightarrow> (u32 \<Rightarrow> bmc_cache_entry) \<Rightarrow> bool" where
  "weaker_cache c' c \<longleftrightarrow> (\<forall>i. c' i = c i \<or> c' i = (c i)\<lparr>ce_valid := 0\<rparr>)"

lemma weaker_cache_refl [simp]: "weaker_cache c c"
  by (simp add: weaker_cache_def)

lemma weaker_cache_trans:
  assumes "weaker_cache c2 c1" and "weaker_cache c1 c0"
  shows "weaker_cache c2 c0"
  unfolding weaker_cache_def
proof
  fix i
  from assms have "c2 i = c1 i \<or> c2 i = (c1 i)\<lparr>ce_valid := 0\<rparr>" "c1 i = c0 i \<or> c1 i = (c0 i)\<lparr>ce_valid := 0\<rparr>"
    by (simp_all add: weaker_cache_def)
  then show "c2 i = c0 i \<or> c2 i = (c0 i)\<lparr>ce_valid := 0\<rparr>" by auto
qed

lemma weaker_cache_invalid: "weaker_cache c' c \<Longrightarrow> ce_valid (c i) = 0 \<Longrightarrow> ce_valid (c' i) = 0"
  unfolding weaker_cache_def by (metis bmc_cache_entry.select_convs(2) bmc_cache_entry.surjective bmc_cache_entry.update_convs(2))

lemma invalidate_entry_weaker: "weaker_cache (kcache (invalidate_entry s i)) (kcache s)"
  by (simp add: invalidate_entry_def weaker_cache_def)

lemma invalidate_entry_invalid: "ce_valid (kcache (invalidate_entry s i) i) = 0"
  by (simp add: invalidate_entry_def)

lemma inval_loop_weaker: "weaker_cache (kcache (inval_loop B x p off sf kf h s)) (kcache s)"
proof (induction B x p off sf kf h s rule: inval_loop.induct)
  case (1 B x p off sf kf h s)
  show ?case
  proof (cases "off < BMC_MAX_PACKET_LENGTH \<and> \<not> past_end x (p + off + 1)")
    case False
    then show ?thesis by (subst inval_loop.simps) auto
  next
    case True
    show ?thesis
      using True "1.IH"
      by (subst inval_loop.simps) (auto intro: weaker_cache_trans [OF _ invalidate_entry_weaker])
  qed
qed

section \<open>The scan of a SET command\<close>

lemma inval_key_bytes:
  assumes "bpf_laws B" and "xdp_wf x" and "drop (p + off) (pkt x) = k @ chr_sp # rest" and "chr_sp \<notin> set k"
    and "off + length k < BMC_MAX_PACKET_LENGTH"
  shows "ce_valid (kcache (inval_loop B x p off True True h s) (cache_index (fnv1a_hash32 k h))) = 0"
  using assms(3-)
proof (induction k arbitrary: off h)
  case Nil
  have len: "p + off < length (pkt x)" and sp: "pkt x ! (p + off) = chr_sp"
    using Nil.prems(1) nth_via_drop [of "p + off" "pkt x"] by (auto simp: nth_via_drop intro: ccontr)
  let ?s = "invalidate_entry s (cache_index h)"
  have "inval_loop B x p off True True h s = inval_loop B x p (off + 1) False False h ?s"
    using len sp Nil.prems(3) assms(1,2) by (subst inval_loop.simps) (simp add: past_end_pkt ldb_pkt)
  then show ?case
    using weaker_cache_invalid [OF inval_loop_weaker invalidate_entry_invalid] by simp
next
  case (Cons c k)
  have len: "p + off < length (pkt x)"
    using Cons.prems(1) by (metis append_Cons drop_all list.distinct(1) not_le)
  have c: "pkt x ! (p + off) = c" using Cons.prems(1) by (simp add: nth_via_drop)
  have "drop (p + (off + 1)) (pkt x) = k @ chr_sp # rest"
    using Cons.prems(1) by (metis add.assoc append_Cons drop_drop drop_Suc_Cons drop0 plus_1_eq_Suc add.commute)
  moreover have "inval_loop B x p off True True h s = inval_loop B x p (off + 1) True True (fnv_round h c) s"
    using len c Cons.prems(2,3) assms(2) by (subst inval_loop.simps) (simp add: past_end_pkt ldb_pkt)
  ultimately show ?case using Cons.IH [of "off + 1" "fnv_round h c"] Cons.prems(2,3) by simp
qed

lemma inval_skip_text:
  assumes "xdp_wf x" and "drop (p + off) (pkt x) = t @ rest" and "asc CHR ''s'' \<notin> set t"
    and "off + length t \<le> BMC_MAX_PACKET_LENGTH"
  shows "inval_loop B x p off False False h s = inval_loop B x p (off + length t) False False h s"
  using assms(2-)
proof (induction t arbitrary: off)
  case (Cons c t)
  have d: "p + off < length (pkt x)" "pkt x ! (p + off) = c" "drop (p + (off + 1)) (pkt x) = t @ rest"
    using drop_step [of "p + off" "pkt x" c "t @ rest"] Cons.prems(1) by (simp_all add: add.assoc)
  have "inval_loop B x p off False False h s = inval_loop B x p (off + 1) False False h s"
    using d Cons.prems(2,3) assms(1) by (subst inval_loop.simps) (simp add: past_end_pkt ldb_pkt set_at_def)
  then show ?case using Cons.IH [OF d(3)] Cons.prems(2,3) by simp
qed simp

lemma inval_skip_spaces:
  assumes "xdp_wf x" and "drop (p + off) (pkt x) = replicate m chr_sp @ rest"
    and "off + m \<le> BMC_MAX_PACKET_LENGTH"
  shows "inval_loop B x p off True False h s = inval_loop B x p (off + m) True False h s"
  using assms(2-)
proof (induction m arbitrary: off)
  case (Suc m)
  have d: "p + off < length (pkt x)" "pkt x ! (p + off) = chr_sp" "drop (p + (off + 1)) (pkt x) = replicate m chr_sp @ rest"
    using drop_step [of "p + off" "pkt x" chr_sp "replicate m chr_sp @ rest"] Suc.prems(1)
    by (simp_all add: add.assoc)
  have "inval_loop B x p off True False h s = inval_loop B x p (off + 1) True False h s"
    using d Suc.prems(2) assms(1) by (subst inval_loop.simps) (simp add: past_end_pkt ldb_pkt)
  then show ?case using Suc.IH [OF d(3)] Suc.prems(2) by simp
qed simp

text \<open>
  A TCP packet to memcached whose payload holds a SET command: \<open>t\<close> comes before the command,
  \<open>m\<close> extra spaces before the key.
\<close>

definition set_packet :: "u8 list \<Rightarrow> u8 list \<Rightarrow> nat \<Rightarrow> u8 list \<Rightarrow> u8 list \<Rightarrow> u8 list" where
  "set_packet hdr t m k rest = hdr @ t @ bytes ''set '' @ replicate m chr_sp @ k @ chr_sp # rest"

lemma inval_set_command:
  assumes "bpf_laws B" and "xdp_wf x" and "drop p (pkt x) = t @ bytes ''set '' @ replicate m chr_sp @ k @ chr_sp # rest"
    and "asc CHR ''s'' \<notin> set t" and "k \<noteq> []" and "chr_sp \<notin> set k" and "hd k \<noteq> chr_cr"
    and "length t + 4 + m + length k < BMC_MAX_PACKET_LENGTH"
  shows "ce_valid (kcache (inval_loop B x p 0 False False h s) (cache_index (fnv k))) = 0"
proof -
  obtain c k' where k: "k = c # k'" using assms(5) by (cases k) auto
  let ?n = "length t" and ?q = "replicate m chr_sp @ k @ chr_sp # rest"
  let ?s = "s\<lparr>stats := (stats s)\<lparr>set_recv_count := set_recv_count (stats s) + 1\<rparr>\<rparr>"
  have dt: "drop (p + ?n) (pkt x) = bytes ''set '' @ ?q"
    using drop_append_step [OF assms(3)] .
  have b: "p + ?n + 3 < length (pkt x)" "pkt x ! (p + ?n) = asc CHR ''s''" "pkt x ! (p + ?n + 1) = asc CHR ''e''"
    "pkt x ! (p + ?n + 2) = asc CHR ''t''" "drop (p + (?n + 4)) (pkt x) = ?q"
  proof -
    have l: "length (drop (p + ?n) (pkt x)) = 4 + length ?q" by (simp add: dt)
    then show "p + ?n + 3 < length (pkt x)" by simp
    have "pkt x ! (p + ?n + i) = (bytes ''set '' @ ?q) ! i" if "i < 4" for i
    proof -
      have "drop (p + ?n) (pkt x) ! i = pkt x ! (p + ?n + i)" using l that by (intro nth_drop) simp
      then show ?thesis by (simp only: dt)
    qed
    from this [of 0] this [of 1] this [of 2]
    show "pkt x ! (p + ?n) = asc CHR ''s''" "pkt x ! (p + ?n + 1) = asc CHR ''e''"
      "pkt x ! (p + ?n + 2) = asc CHR ''t''" by simp_all
    have "drop 4 (drop (p + ?n) (pkt x)) = ?q" by (simp add: dt)
    then show "drop (p + (?n + 4)) (pkt x) = ?q" by (simp add: ac_simps)
  qed
  have "drop (p + (?n + 4 + m)) (pkt x) = c # k' @ chr_sp # rest"
    using drop_append_step [OF b(5)] k by (simp add: add.assoc)
  note d = drop_step [OF this, unfolded add.assoc [of p]]
  have "inval_loop B x p 0 False False h s = inval_loop B x p ?n False False h s"
    using inval_skip_text [of x p 0 t] assms(2,3,4,8) by simp
  also have "\<dots> = inval_loop B x p (?n + 4) True False h ?s"
    using b assms(2,8) by (subst inval_loop.simps) (simp add: set_at_def past_end_pkt ldb_pkt add.assoc add.commute [of 4])
  also have "\<dots> = inval_loop B x p (?n + 4 + m) True False h ?s"
    using inval_skip_spaces [OF assms(2) b(5)] assms(8) by simp
  also have "\<dots> = inval_loop B x p (?n + 4 + m + 1) True True (fnv_round FNV_OFFSET_BASIS_32 c) ?s"
    using d assms(2,6,7,8) k by (subst inval_loop.simps) (simp add: past_end_pkt ldb_pkt add.assoc)
  finally have eq: "inval_loop B x p 0 False False h s =
      inval_loop B x p (?n + 4 + m + 1) True True (fnv_round FNV_OFFSET_BASIS_32 c) ?s" .
  have "ce_valid (kcache (inval_loop B x p (?n + 4 + m + 1) True True (fnv_round FNV_OFFSET_BASIS_32 c) ?s)
      (cache_index (fnv1a_hash32 k' (fnv_round FNV_OFFSET_BASIS_32 c)))) = 0"
    using inval_key_bytes [OF assms(1,2) d(3)] k assms(6,8) by simp
  then show ?thesis unfolding eq using k by (simp add: fnv_def)
qed

end
