(* ===== verification/Bmc_Get.thy ===== *)
theory Bmc_Get
  imports Bmc_Reply Bmc_Inval
begin

text \<open>
  The GET path as a whole.  Programs are chained by tail calls through \<^verbatim>\<open>map_progs_xdp\<close>, which
  \<^verbatim>\<open>bmc_user.c\<close> fills with the programs of its table; \<open>run_xdp\<close> follows the chain, with the
  number of tail calls the kernel still allows as its first argument, so every run ends.  The lemmas
  follow a request through the key parser and a reply through the writer.
\<close>

section \<open>Following tail calls\<close>

fun exec_xdp :: "bpf \<Rightarrow> xdp_prog \<Rightarrow> bmc_state \<Rightarrow> xdp_md \<Rightarrow> xdp_prog outcome \<times> bmc_state \<times> xdp_md" where
  "exec_xdp B BMC_PROG_XDP_HASH_KEYS = bmc_hash_keys_main B"
| "exec_xdp B BMC_PROG_XDP_PREPARE_PACKET = bmc_prepare_packet_main B"
| "exec_xdp B BMC_PROG_XDP_WRITE_REPLY = bmc_write_reply_main B"
| "exec_xdp B BMC_PROG_XDP_INVALIDATE_CACHE = bmc_invalidate_cache_main B"

fun run_xdp :: "bpf \<Rightarrow> nat \<Rightarrow> xdp_prog outcome \<times> bmc_state \<times> xdp_md \<Rightarrow> int \<times> bmc_state \<times> xdp_md" where
  "run_xdp B n (Return a, s, x) = (a, s, x)"
| "run_xdp B 0 (Tail_call p a, s, x) = (a, s, x)"
| "run_xdp B (Suc n) (Tail_call p a, s, x) = run_xdp B n (exec_xdp B p s x)"

definition xdp_receive :: "bpf \<Rightarrow> nat \<Rightarrow> bmc_state \<Rightarrow> xdp_md \<Rightarrow> int \<times> bmc_state \<times> xdp_md" where
  "xdp_receive B n s x = run_xdp B n (bmc_rx_filter_main B s x)"

section \<open>Requests\<close>

text \<open>The keys of a request line and what follows the carriage return that ends it.\<close>

fun key_seq :: "u8 list list \<Rightarrow> u8 list \<Rightarrow> u8 list" where
  "key_seq [] rest = rest"
| "key_seq [k] rest = k @ chr_cr # rest"
| "key_seq (k # ks) rest = k @ chr_sp # key_seq ks rest"

text \<open>The state after the parser has seen the keys of a request.\<close>

fun note_keys :: "bmc_state \<Rightarrow> u8 list list \<Rightarrow> bmc_state" where
  "note_keys s [] = s"
| "note_keys s [k] = note_key s k"
| "note_keys s (k # ks) =
     (let s1 = note_key s k
      in note_keys (s1\<lparr>pctx := (pctx s1)\<lparr>read_pkt_offset := read_pkt_offset (pctx s1) + of_nat (length k + 1)\<rparr>\<rparr>) ks)"

definition hits :: "(u32 \<Rightarrow> bmc_cache_entry) \<Rightarrow> u8 list list \<Rightarrow> u8 list list" where
  "hits c ks = filter (potential_hit c) ks"

lemma hits_simps [simp]:
  "hits c [] = []" "hits c (k # ks) = (if potential_hit c k then k # hits c ks else hits c ks)"
  by (simp_all add: hits_def)

lemma length_hits: "length (hits c ks) \<le> length ks"
  by (simp add: hits_def)

section \<open>The state the parser leaves\<close>

lemma note_key_simps [simp]:
  "kcache (note_key s k) = kcache s"
  "request_count (note_key s k) = request_count s"
  "current_key (pctx (note_key s k)) = current_key (pctx s)"
  "write_pkt_offset (pctx (note_key s k)) = write_pkt_offset (pctx s)"
  "read_pkt_offset (pctx (note_key s k)) = read_pkt_offset (pctx s)"
  "key_count (pctx (note_key s k)) = (if potential_hit (kcache s) k then key_count (pctx s) + 1 else key_count (pctx s))"
  "stats (note_key s k) = (if potential_hit (kcache s) k then stats s
     else (stats s)\<lparr>miss_count := miss_count (stats s) + 1\<rparr>)"
  by (simp_all add: note_key_def Let_def)

lemma note_key_keys_wf: "keys_wf s \<Longrightarrow> length k \<le> BMC_MAX_KEY_LENGTH \<Longrightarrow> keys_wf (note_key s k)"
  by (simp add: keys_wf_def note_key_def Let_def)

lemma note_keys_frame [simp]:
  "kcache (note_keys s ks) = kcache s"
  "request_count (note_keys s ks) = request_count s"
  "current_key (pctx (note_keys s ks)) = current_key (pctx s)"
  "write_pkt_offset (pctx (note_keys s ks)) = write_pkt_offset (pctx s)"
  by (induction s ks rule: note_keys.induct) (simp_all add: Let_def)

lemma note_keys_key_count:
  "key_count (pctx (note_keys s ks)) = key_count (pctx s) + of_nat (length (hits (kcache s) ks))"
  by (induction s ks rule: note_keys.induct) (auto simp: Let_def)

lemma note_keys_stats:
  "stats (note_keys s ks) =
     (stats s)\<lparr>miss_count := miss_count (stats s) + of_nat (length ks - length (hits (kcache s) ks))\<rparr>"
proof (induction s ks rule: note_keys.induct)
  case (3 s k k' ks)
  have "length (hits (kcache s) (k' # ks)) \<le> length (k' # ks)" by (rule length_hits)
  with 3 show ?case by (auto simp: Let_def Suc_diff_le)
qed simp_all

text \<open>A key saved by the parser.\<close>

definition key_saved :: "memcached_key \<Rightarrow> u8 list \<Rightarrow> bool" where
  "key_saved m k \<longleftrightarrow> mk_hash m = fnv k \<and> mk_len m = of_nat (length k) \<and>
     take (length k) (mk_data m) = k \<and> length (mk_data m) = BMC_MAX_KEY_LENGTH"

definition all_saved :: "bmc_state \<Rightarrow> nat \<Rightarrow> u8 list list \<Rightarrow> bool" where
  "all_saved s m hs \<longleftrightarrow> (\<forall>i < length hs. key_saved (keys s (of_nat (m + i))) (hs ! i))"

lemma all_saved_simps [simp]:
  "all_saved s m []"
  "all_saved s m (k # hs) \<longleftrightarrow> key_saved (keys s (of_nat m)) k \<and> all_saved s (Suc m) hs"
proof -
  show "all_saved s m []" by (simp add: all_saved_def)
  have "(\<forall>i < length (k # hs). P i) \<longleftrightarrow> P 0 \<and> (\<forall>i < length hs. P (Suc i))" for P
    by (metis length_Cons less_Suc_eq_0_disj)
  then show "all_saved s m (k # hs) \<longleftrightarrow> key_saved (keys s (of_nat m)) k \<and> all_saved s (Suc m) hs"
    by (simp add: all_saved_def ac_simps)
qed

lemma all_saved_cong: "keys s = keys t \<Longrightarrow> all_saved s m hs = all_saved t m hs"
  by (simp add: all_saved_def)

lemma key_saved_note:
  assumes "keys_wf s" and "valid_key k" and "potential_hit (kcache s) k"
  shows "key_saved (keys (note_key s k) (key_count (pctx s))) k"
  using assms by (simp add: key_saved_def note_key_def Let_def keys_wf_def valid_key_def memcpy_at_def)

lemma keys_note_other:
  "j \<noteq> key_count (pctx s) \<Longrightarrow> keys (note_key s k) j = keys s j"
  by (simp add: note_key_def Let_def)

lemma keys_note_keys_below:
  assumes "unat (key_count (pctx s)) + length ks < 2 ^ 32" and "j < unat (key_count (pctx s))"
  shows "keys (note_keys s ks) (of_nat j) = keys s (of_nat j)"
  using assms
proof (induction s ks rule: note_keys.induct)
  case (2 s k)
  then have "of_nat j \<noteq> key_count (pctx s)" by (simp add: of_nat_neq_word)
  then show ?case by (simp add: keys_note_other)
next
  case (3 s k k' ks)
  let ?s1 = "note_key s k"
  have "unat (key_count (pctx s) + 1) = unat (key_count (pctx s)) + 1"
    using "3.prems" by (intro unat_add_one_u32) simp
  moreover have "of_nat j \<noteq> key_count (pctx s)" using "3.prems" by (simp add: of_nat_neq_word)
  ultimately show ?case using "3.IH" [OF refl] "3.prems" by (simp add: Let_def keys_note_other)
qed simp

lemma all_saved_note_keys:
  assumes "keys_wf s" and "list_all valid_key ks" and "unat (key_count (pctx s)) + length ks < 2 ^ 32"
  shows "all_saved (note_keys s ks) (unat (key_count (pctx s))) (hits (kcache s) ks)"
  using assms
proof (induction s ks rule: note_keys.induct)
  case (2 s k)
  then show ?case by (simp add: key_saved_note)
next
  case (3 s k k' ks)
  let ?s1 = "note_key s k"
  let ?s2 = "?s1\<lparr>pctx := (pctx ?s1)\<lparr>read_pkt_offset := read_pkt_offset (pctx ?s1) + of_nat (length k + 1)\<rparr>\<rparr>"
  have s2: "note_keys s (k # k' # ks) = note_keys ?s2 (k' # ks)" by (simp add: Let_def)
  have kc: "unat (key_count (pctx s) + 1) = unat (key_count (pctx s)) + 1"
    using "3.prems" by (intro unat_add_one_u32) simp
  have "keys_wf ?s2" using "3.prems"(1,2) note_key_keys_wf [of s k] by (simp add: keys_wf_def valid_key_def)
  then have IH: "all_saved (note_keys ?s2 (k' # ks)) (unat (key_count (pctx ?s2))) (hits (kcache s) (k' # ks))"
    using "3.IH" [OF refl] "3.prems" kc by (auto split: if_splits)
  show ?case
  proof (cases "potential_hit (kcache s) k")
    case False
    with IH s2 show ?thesis by simp
  next
    case True
    have "keys (note_keys ?s2 (k' # ks)) (of_nat (unat (key_count (pctx s)))) = keys ?s2 (key_count (pctx s))"
      using "3.prems" True kc keys_note_keys_below [of ?s2 "k' # ks" "unat (key_count (pctx s))"] by simp
    moreover have "key_saved (keys ?s2 (key_count (pctx s))) k"
      using "3.prems" True by (simp add: key_saved_note)
    ultimately show ?thesis
      using IH True kc unfolding s2 by simp
  qed
qed simp

section \<open>The key parser over a whole request\<close>

lemma key_seq_Cons2: "key_seq (k # k' # ks) rest = k @ chr_sp # key_seq (k' # ks) rest"
  by simp

lemma length_key_seq_last:
  "ks \<noteq> [] \<Longrightarrow> length (last ks) + 1 + length rest \<le> length (key_seq ks rest)"
  by (induction ks rest rule: key_seq.induct) auto

lemma length_key_seq_append: "bs \<noteq> [] \<Longrightarrow> length (key_seq bs rest) \<le> length (key_seq (as @ bs) rest)"
proof (induction as)
  case (Cons a as)
  then show ?case by (cases "as @ bs") simp_all
qed simp

text \<open>
  One run of the parser on a key that is not the last one: it moves to the next key when enough
  of the packet is left for an Ethernet header.  When it is not, the program returns
  \<^verbatim>\<open>XDP_PASS\<close> with the head of the packet still at the key.
\<close>

lemma hash_keys_step:
  assumes "bpf_linux r B" and "xdp_wf x" and "pkt x = k @ chr_sp # rest" and "valid_key k" and "keys_wf s"
    and "key_count (pctx s) < BMC_MAX_KEY_IN_PACKET" and "r \<le> xdp_data x"
    and "s' = (note_key s k)\<lparr>pctx := (pctx (note_key s k))\<lparr>read_pkt_offset :=
        read_pkt_offset (pctx (note_key s k)) + of_nat (length k + 1)\<rparr>\<rparr>"
  shows "ETH_HLEN \<le> length rest \<Longrightarrow> bmc_hash_keys_main B s x =
      (Tail_call BMC_PROG_XDP_HASH_KEYS XDP_PASS, s', move_head x (int (length k + 1)))"
    and "length rest < ETH_HLEN \<Longrightarrow> bmc_hash_keys_main B s x = (Return XDP_PASS, s', x)"
proof -
  have main: "bmc_hash_keys_main B s x = hash_keys_next B (note_key s k) x (length k) False"
    using assms hash_keys_main_key [of B x k chr_sp rest s] by (simp add: bpf_linux_laws)
  show "bmc_hash_keys_main B s x = (Tail_call BMC_PROG_XDP_HASH_KEYS XDP_PASS, s', move_head x (int (length k + 1)))"
    if "ETH_HLEN \<le> length rest"
  proof -
    have "xdp_adjust_head B x (int (length k + 1)) = Some (move_head x (int (length k + 1)))"
      using assms(3,7) that by (intro linux_head_forward [OF assms(1,2)]) simp_all
    then show ?thesis unfolding main by (simp add: hash_keys_next_def Let_def assms(8))
  qed
  show "bmc_hash_keys_main B s x = (Return XDP_PASS, s', x)" if "length rest < ETH_HLEN"
  proof -
    have "xdp_adjust_head B x (int (length k + 1)) = None"
      using assms(3) that by (intro linux_head_forward_short [OF assms(1,2)]) simp
    then show ?thesis unfolding main by (simp add: hash_keys_next_def Let_def assms(8))
  qed
qed

lemma hash_keys_step_last:
  assumes "bpf_linux r B" and "xdp_wf x" and "pkt x = k @ chr_cr # rest" and "valid_key k" and "keys_wf s"
    and "key_count (pctx s) < BMC_MAX_KEY_IN_PACKET"
    and "r + (50 + unat (read_pkt_offset (pctx s))) \<le> xdp_data x"
  shows "bmc_hash_keys_main B s x =
    (if key_count (pctx (note_key s k)) > 0 then Tail_call BMC_PROG_XDP_PREPARE_PACKET XDP_PASS else Return XDP_PASS,
     note_key s k, move_head x (- int (50 + unat (read_pkt_offset (pctx s)))))"
proof -
  have "xdp_adjust_head B x (- int (50 + unat (read_pkt_offset (pctx s)))) =
      Some (move_head x (- int (50 + unat (read_pkt_offset (pctx s)))))"
    using assms(7) by (intro linux_head_back [OF assms(1,2)]) simp_all
  then have "restore_head B (note_key s k) x = move_head x (- int (50 + unat (read_pkt_offset (pctx s))))"
    by (simp add: restore_head_def)
  then show ?thesis
    using assms hash_keys_main_key [of B x k chr_cr rest s] by (simp add: hash_keys_next_def Let_def bpf_linux_laws)
qed

lemma move_head_move_head:
  "0 \<le> int (xdp_data x) + d \<Longrightarrow> move_head (move_head x d) d' = move_head x (d + d')"
  by (simp add: move_head_def add.assoc)

lemma run_hash_keys:
  assumes "bpf_linux r B" and "xdp_wf x" and "pkt x = key_seq ks rest" and "ks \<noteq> []" and "list_all valid_key ks"
    and "keys_wf s" and "unat (key_count (pctx s)) + length ks \<le> 30"
    and "r + (50 + unat (read_pkt_offset (pctx s))) \<le> xdp_data x"
    and "unat (read_pkt_offset (pctx s)) + length (pkt x) < 65536"
    and "ETH_HLEN \<le> length (last ks) + 1 + length rest"
  shows "run_xdp B (length ks + n) (Tail_call BMC_PROG_XDP_HASH_KEYS XDP_PASS, s, x) =
    run_xdp B n
      (if key_count (pctx (note_keys s ks)) > 0 then Tail_call BMC_PROG_XDP_PREPARE_PACKET XDP_PASS
       else Return XDP_PASS,
       note_keys s ks, move_head x (- int (50 + unat (read_pkt_offset (pctx s)))))"
  using assms
proof (induction s ks arbitrary: x rule: note_keys.induct)
  case (2 s k)
  moreover have "key_count (pctx s) < 30" using "2.prems" by (simp add: word_less_nat_alt)
  ultimately show ?case using hash_keys_step_last [of r B x k rest s] by simp
next
  case (3 s k k' ks)
  define s1 where "s1 = note_key s k"
  define s2 where "s2 = s1\<lparr>pctx := (pctx s1)\<lparr>read_pkt_offset := read_pkt_offset (pctx s1) + of_nat (length k + 1)\<rparr>\<rparr>"
  define x2 where "x2 = move_head x (int (length k + 1))"
  have kc: "key_count (pctx s) < 30" "unat (key_count (pctx s2)) \<le> unat (key_count (pctx s)) + 1"
    using "3.prems"(7) unat_add_one_u32 [of "key_count (pctx s)"] by (auto simp: word_less_nat_alt s2_def s1_def)
  have pkt: "pkt x = k @ chr_sp # key_seq (k' # ks) rest" using "3.prems"(3) by simp
  then have lx: "length k + 1 \<le> length (pkt x)" by simp
  have x2: "pkt x2 = key_seq (k' # ks) rest" "xdp_wf x2" "xdp_data x2 = xdp_data x + (length k + 1)"
    using pkt_move_head [OF "3.prems"(2) lx] pkt by (simp_all add: x2_def nat_add_distrib)
  have off: "unat (read_pkt_offset (pctx s2)) = unat (read_pkt_offset (pctx s)) + (length k + 1)"
  proof -
    have "unat (of_nat (length k + 1) :: u16) = length k + 1"
      using "3.prems"(9) lx by (intro unat_of_nat_u16) linarith
    moreover have "unat (read_pkt_offset (pctx s)) + (length k + 1) < 65536" using "3.prems"(9) lx by linarith
    ultimately show ?thesis by (simp add: s2_def s1_def unat_word_ariths del: of_nat_add)
  qed
  have "14 \<le> length (key_seq (k' # ks) rest)"
    using "3.prems"(10) length_key_seq_last [of "k' # ks" rest] by simp
  then have step: "bmc_hash_keys_main B s x = (Tail_call BMC_PROG_XDP_HASH_KEYS XDP_PASS, s2, x2)"
    using hash_keys_step(1) [OF "3.prems"(1,2) pkt _ "3.prems"(6) kc(1), of s2] "3.prems"(5,8)
    by (simp add: s2_def s1_def x2_def)
  have "run_xdp B (length (k' # ks) + n) (Tail_call BMC_PROG_XDP_HASH_KEYS XDP_PASS, s2, x2) =
    run_xdp B n
      (if key_count (pctx (note_keys s2 (k' # ks))) > 0 then Tail_call BMC_PROG_XDP_PREPARE_PACKET XDP_PASS
       else Return XDP_PASS,
       note_keys s2 (k' # ks), move_head x2 (- int (50 + unat (read_pkt_offset (pctx s2)))))"
    unfolding s2_def s1_def
  proof (rule "3.IH" [OF refl], fold s1_def, fold s2_def)
    show "keys_wf s2"
      using "3.prems"(5,6) note_key_keys_wf [of s k] by (simp add: s2_def s1_def keys_wf_def valid_key_def)
    show "unat (read_pkt_offset (pctx s2)) + length (pkt x2) < 65536"
      using off "3.prems"(9) x2(1) pkt by simp
  qed (use "3.prems" kc off x2 in \<open>auto\<close>)
  moreover have "move_head x2 (- int (50 + unat (read_pkt_offset (pctx s2)))) =
      move_head x (- int (50 + unat (read_pkt_offset (pctx s))))"
    unfolding x2_def by (subst move_head_move_head) (simp_all add: off)
  moreover have "note_keys s (k # k' # ks) = note_keys s2 (k' # ks)" by (simp add: s2_def s1_def Let_def)
  ultimately show ?case using step by simp
qed simp

text \<open>
  A request in which fewer bytes than an Ethernet header has are left behind the key \<open>k\<close>: the
  parser stops there, and the packet that is passed on starts with \<open>k\<close>.
\<close>

lemma run_hash_keys_short:
  assumes "bpf_linux r B" and "xdp_wf x" and "pkt x = key_seq (as @ k # bs) rest" and "bs \<noteq> []"
    and "list_all valid_key (as @ [k])" and "keys_wf s" and "unat (key_count (pctx s)) + length as < 30"
    and "r \<le> xdp_data x" and "ETH_HLEN \<le> length (key_seq (k # bs) rest)" and "length (key_seq bs rest) < ETH_HLEN"
  shows "\<exists>s' x'. run_xdp B (Suc (length as) + n) (Tail_call BMC_PROG_XDP_HASH_KEYS XDP_PASS, s, x) = (XDP_PASS, s', x') \<and>
    pkt x' = key_seq (k # bs) rest \<and> kcache s' = kcache s"
  using assms
proof (induction as arbitrary: s x)
  case Nil
  have "pkt x = k @ chr_sp # key_seq bs rest" using Nil.prems(3,4) by (cases bs) simp_all
  moreover have "key_count (pctx s) < 30" using Nil.prems(7) by (simp add: word_less_nat_alt)
  ultimately show ?case
    using hash_keys_step(2) [OF Nil.prems(1,2) _ _ Nil.prems(6) _ Nil.prems(8) refl] Nil.prems(3,5,10) by simp
next
  case (Cons a as)
  define s2 where "s2 = (note_key s a)\<lparr>pctx := (pctx (note_key s a))\<lparr>read_pkt_offset :=
      read_pkt_offset (pctx (note_key s a)) + of_nat (length a + 1)\<rparr>\<rparr>"
  define x2 where "x2 = move_head x (int (length a + 1))"
  have pkt: "pkt x = a @ chr_sp # key_seq (as @ k # bs) rest" using Cons.prems(3) by (cases as) simp_all
  then have lx: "length a + 1 \<le> length (pkt x)" by simp
  have x2: "pkt x2 = key_seq (as @ k # bs) rest" "xdp_wf x2" "xdp_data x2 = xdp_data x + (length a + 1)"
    using pkt_move_head [OF Cons.prems(2) lx] pkt by (simp_all add: x2_def nat_add_distrib)
  have kc: "key_count (pctx s) < 30" "unat (key_count (pctx s2)) \<le> unat (key_count (pctx s)) + 1"
    using Cons.prems(7) unat_add_one_u32 [of "key_count (pctx s)"] by (auto simp: word_less_nat_alt s2_def)
  have "14 \<le> length (key_seq (as @ k # bs) rest)"
    using Cons.prems(9) length_key_seq_append [of "k # bs" rest as] by simp
  then have step: "bmc_hash_keys_main B s x = (Tail_call BMC_PROG_XDP_HASH_KEYS XDP_PASS, s2, x2)"
    using hash_keys_step(1) [OF Cons.prems(1,2) pkt _ Cons.prems(6) kc(1) Cons.prems(8) refl] Cons.prems(5)
    by (simp add: s2_def x2_def)
  have "keys_wf s2"
    using Cons.prems(5,6) note_key_keys_wf [of s a] by (simp add: s2_def keys_wf_def valid_key_def)
  then have "\<exists>s' x'. run_xdp B (Suc (length as) + n) (Tail_call BMC_PROG_XDP_HASH_KEYS XDP_PASS, s2, x2) = (XDP_PASS, s', x') \<and>
      pkt x' = key_seq (k # bs) rest \<and> kcache s' = kcache s2"
    using Cons.prems kc(2) x2 by (intro Cons.IH) simp_all
  then show ?case using step by (simp add: s2_def)
qed

section \<open>The filter on a GET request\<close>

lemma ld_be16_pkt: "xdp_wf x \<Longrightarrow> n + 2 \<le> length (pkt x) \<Longrightarrow> ld_be16 x n = get_be16 (pkt x) n"
  using ldb_pkt [of x n] ldb_pkt [of x "Suc n"] by (simp add: ld_be16_def get_be16_def ldb_def)

lemma skip_spaces_eq:
  assumes "xdp_wf x" and "off \<le> r" and "r < BMC_MAX_PACKET_LENGTH" and "p + r < length (pkt x)"
    and "\<And>i. off \<le> i \<Longrightarrow> i < r \<Longrightarrow> pkt x ! (p + i) = chr_sp" and "pkt x ! (p + r) \<noteq> chr_sp"
  shows "skip_spaces x p off = r"
proof -
  define r' where "r' = skip_spaces x p off"
  have spec: "off \<le> r'" "\<And>i. off \<le> i \<Longrightarrow> i < r' \<Longrightarrow> \<not> past_end x (p + i + 1) \<and> ldb x (p + i) = chr_sp"
    "r' < BMC_MAX_PACKET_LENGTH \<Longrightarrow> past_end x (p + r' + 1) \<or> ldb x (p + r') \<noteq> chr_sp"
    using skip_spaces_spec [of off x p] assms(2,3) by (auto simp: Let_def r'_def)
  have "\<not> r' < r"
    using spec(1,3) assms(1,3-5) by (auto simp: past_end_pkt ldb_pkt)
  moreover have "\<not> r < r'"
    using spec(2) [of r] assms(1,2,4,6) by (auto simp: ldb_pkt)
  ultimately show ?thesis by (simp add: r'_def)
qed

text \<open>A GET request over UDP to memcached's port, with \<open>m\<close> extra spaces before the first key.\<close>

definition get_request :: "u8 list \<Rightarrow> nat \<Rightarrow> u8 list list \<Rightarrow> u8 list \<Rightarrow> u8 list" where
  "get_request hdr m ks rest = hdr @ bytes ''get '' @ replicate m chr_sp @ key_seq ks rest"

definition udp_to_memcached :: "u8 list \<Rightarrow> bool" where
  "udp_to_memcached hdr \<longleftrightarrow> length hdr = udp_headers \<and> hdr ! 23 = IPPROTO_UDP \<and> get_be16 hdr 36 = 11211"

definition start_get :: "bmc_state \<Rightarrow> nat \<Rightarrow> bmc_state" where
  "start_get s off =
     s\<lparr>stats := (stats s)\<lparr>get_recv_count := get_recv_count (stats s) + 1\<rparr>,
       pctx := \<lparr>key_count = 0, current_key = 0, read_pkt_offset = of_nat off, write_pkt_offset = 0\<rparr>\<rparr>"

lemma key_seq_hd:
  assumes "ks \<noteq> []" and "list_all valid_key ks"
  shows "key_seq ks rest \<noteq> []" and "hd (key_seq ks rest) \<noteq> chr_sp"
  using assms by (induction ks rest rule: key_seq.induct)
    (auto simp: valid_key_def key_byte_def list_all_iff hd_append neq_Nil_conv)

lemma rx_filter_get:
  assumes "bpf_linux r B" and "xdp_wf x" and "pkt x = get_request hdr m ks rest" and "udp_to_memcached hdr"
    and "ks \<noteq> []" and "list_all valid_key ks" and "4 + m < BMC_MAX_PACKET_LENGTH"
    and "r \<le> xdp_data x"
  shows "bmc_rx_filter_main B s x =
    (if ETH_HLEN \<le> length (key_seq ks rest)
     then (Tail_call BMC_PROG_XDP_HASH_KEYS XDP_PASS, start_get s (4 + m), move_head x (int (54 + m)))
     else (Return XDP_PASS, start_get s (4 + m), x))"
proof -
  let ?g = "bytes ''get ''" and ?k = "key_seq ks rest"
  have hdr: "length hdr = 50" "hdr ! 23 = 17" "get_be16 hdr 36 = 11211"
    using assms(4) by (simp_all add: udp_to_memcached_def)
  obtain c k where k: "?k = c # k" "c \<noteq> chr_sp" using key_seq_hd [OF assms(5,6), of rest]
    by (metis list.collapse)
  have pkt: "pkt x = hdr @ ?g @ replicate m chr_sp @ c # k" using assms(3) k by (simp add: get_request_def)
  have len: "54 + m < length (pkt x)" using pkt hdr by simp
  have ldb: "ldb x n = pkt x ! n" if "n \<le> 54 + m" for n using that len assms(2) by (simp add: ldb_pkt)
  have ends: "past_end x n \<longleftrightarrow> \<not> n \<le> length (pkt x)" for n using assms(2) by (simp add: past_end_pkt not_le)
  have port: "ld_be16 x 36 = 11211"
    using ld_be16_pkt [of x 36] assms(2) len hdr pkt by (simp add: get_be16_def nth_append)
  have get: "is_get x 50" using ldb hdr(1) by (simp add: is_get_def pkt nth_append)
  have "pkt x ! (50 + i) = chr_sp" if "4 \<le> i" "i < 4 + m" for i
    using that hdr(1) by (auto simp: pkt nth_append nth_Cons')
  moreover have "pkt x ! (50 + (4 + m)) \<noteq> chr_sp" using k(2) hdr(1) by (simp add: pkt nth_append nth_Cons')
  ultimately have skip: "skip_spaces x 50 4 = 4 + m"
    using assms(2,7) len by (intro skip_spaces_eq) auto
  have "length (pkt x) = 54 + m + length ?k" using pkt hdr(1) k(1) by simp
  then have "xdp_adjust_head B x (int (54 + m)) =
      (if 14 \<le> length ?k then Some (move_head x (int (54 + m))) else None)"
    using linux_head_forward [OF assms(1,2,8), of "54 + m"] linux_head_forward_short [OF assms(1,2), of "54 + m"] by simp
  then show ?thesis
    using assms(1,7) hdr ldb [of 23] len port get skip
    by (simp add: bmc_rx_filter_main_def rx_dispatch_def rx_start_get_def Let_def ends pkt nth_append
        start_get_def bpf_linux_laws)
qed

lemma move_head_id: "move_head x 0 = x"
  by (simp add: move_head_def)

lemma start_get_simps [simp]:
  "kcache (start_get s off) = kcache s"
  "keys (start_get s off) = keys s"
  "key_count (pctx (start_get s off)) = 0"
  "current_key (pctx (start_get s off)) = 0"
  "write_pkt_offset (pctx (start_get s off)) = 0"
  "read_pkt_offset (pctx (start_get s off)) = of_nat off"
  "stats (start_get s off) = (stats s)\<lparr>get_recv_count := get_recv_count (stats s) + 1\<rparr>"
  by (simp_all add: start_get_def)

lemma pkt_start_get:
  assumes "xdp_wf x" and "pkt x = get_request hdr m ks rest" and "udp_to_memcached hdr"
  defines "x' \<equiv> move_head x (int (54 + m))"
  shows "pkt x' = key_seq ks rest" and "xdp_wf x'" and "xdp_data x' = xdp_data x + (54 + m)"
    and "length (pkt x) = 54 + m + length (key_seq ks rest)"
proof -
  show len: "length (pkt x) = 54 + m + length (key_seq ks rest)"
    using assms(2,3) by (simp add: get_request_def udp_to_memcached_def)
  have "pkt x = (hdr @ bytes ''get '' @ replicate m chr_sp) @ key_seq ks rest"
    "length (hdr @ bytes ''get '' @ replicate m chr_sp) = 54 + m"
    using assms(2,3) by (simp_all add: get_request_def udp_to_memcached_def)
  then have "drop (54 + m) (pkt x) = key_seq ks rest" by (metis append_eq_conv_conj)
  then show "pkt x' = key_seq ks rest" "xdp_wf x'" "xdp_data x' = xdp_data x + (54 + m)"
    using pkt_move_head [OF assms(1), of "54 + m"] len unfolding x'_def by (simp_all add: nat_add_distrib)
qed

lemma receive_get:
  assumes "bpf_linux r B" and "xdp_wf x" and "pkt x = get_request hdr m ks rest" and "udp_to_memcached hdr"
    and "ks \<noteq> []" and "list_all valid_key ks" and "4 + m < BMC_MAX_PACKET_LENGTH"
    and "length ks \<le> 30" and "length (pkt x) < 65536" and "keys_wf s"
    and "r \<le> xdp_data x" and "ETH_HLEN \<le> length (last ks) + 1 + length rest"
  shows "xdp_receive B (length ks + n) s x =
    run_xdp B n
      (if hits (kcache s) ks \<noteq> [] then Tail_call BMC_PROG_XDP_PREPARE_PACKET XDP_PASS else Return XDP_PASS,
       note_keys (start_get s (4 + m)) ks, x)"
proof -
  let ?s = "start_get s (4 + m)" and ?x = "move_head x (int (54 + m))"
  note x = pkt_start_get [OF assms(2-4)]
  have off: "unat (read_pkt_offset (pctx ?s)) = 4 + m" using assms(7) unat_of_nat_u16 [of "4 + m"] by simp
  have "key_count (pctx (note_keys ?s ks)) > 0 \<longleftrightarrow> hits (kcache s) ks \<noteq> []"
  proof -
    have "unat (of_nat (length (hits (kcache s) ks)) :: u32) = length (hits (kcache s) ks)"
      using length_hits [of "kcache s" ks] assms(8) by (intro unat_of_nat_u32) linarith
    then have "unat (key_count (pctx (note_keys ?s ks))) = length (hits (kcache s) ks)"
      by (simp only: note_keys_key_count start_get_simps add_0)
    then show ?thesis by (simp add: word_less_nat_alt)
  qed
  moreover have "move_head ?x (- int (50 + (4 + m))) = x"
    by (subst move_head_move_head) (simp_all add: move_head_id)
  moreover have "run_xdp B (length ks + n) (Tail_call BMC_PROG_XDP_HASH_KEYS XDP_PASS, ?s, ?x) =
    run_xdp B n
      (if key_count (pctx (note_keys ?s ks)) > 0 then Tail_call BMC_PROG_XDP_PREPARE_PACKET XDP_PASS
       else Return XDP_PASS,
       note_keys ?s ks, move_head ?x (- int (50 + unat (read_pkt_offset (pctx ?s)))))"
  proof (rule run_hash_keys [OF assms(1) x(2,1) assms(5,6)])
    show "keys_wf ?s" using assms(10) by (simp add: keys_wf_def)
    show "unat (key_count (pctx ?s)) + length ks \<le> 30" using assms(8) by simp
    show "r + (50 + unat (read_pkt_offset (pctx ?s))) \<le> xdp_data ?x" unfolding off x(3) using assms(11) by simp
    show "unat (read_pkt_offset (pctx ?s)) + length (pkt ?x) < 65536"
      unfolding off x(1) using assms(9) x(4) by simp
  qed (rule assms(12))
  moreover have "14 \<le> length (key_seq ks rest)" using length_key_seq_last [OF assms(5), of rest] assms(12) by linarith
  ultimately show ?thesis
    by (simp only: xdp_receive_def rx_filter_get [OF assms(1-7,11)] off if_True)
qed

text \<open>
  C1.  Transparency: a GET request for at most thirty keys, none of which may be cached, leaves the
  receive path with \<^verbatim>\<open>XDP_PASS\<close> and the packet exactly as it arrived, the cache untouched, one more GET
  request and one miss per key counted.  From the start of its last key the packet must hold at least the fourteen bytes of an
  Ethernet header; shorter requests are the subject of the property on short last keys.
\<close>

theorem get_miss_transparent:
  assumes "bpf_linux r B" and "xdp_wf x" and "pkt x = get_request hdr m ks rest" and "udp_to_memcached hdr"
    and "ks \<noteq> []" and "list_all valid_key ks" and "4 + m < BMC_MAX_PACKET_LENGTH"
    and "length ks \<le> 30" and "length (pkt x) < 65536" and "keys_wf s"
    and "r \<le> xdp_data x" and "ETH_HLEN \<le> length (last ks) + 1 + length rest"
    and "hits (kcache s) ks = []" and "length ks \<le> n"
  shows "\<exists>s'. xdp_receive B n s x = (XDP_PASS, s', x) \<and> kcache s' = kcache s \<and>
    stats s' = (stats s)\<lparr>get_recv_count := get_recv_count (stats s) + 1,
                         miss_count := miss_count (stats s) + of_nat (length ks)\<rparr>"
proof -
  have "xdp_receive B n s x = (XDP_PASS, note_keys (start_get s (4 + m)) ks, x)"
    using receive_get [OF assms(1-12), of "n - length ks"] assms(13,14) by simp
  then show ?thesis using assms(13) by (simp add: note_keys_stats)
qed

lemma sample_udp_to_memcached [simp]: "udp_to_memcached (sample_udp 5000 11211)"
  by (simp add: udp_to_memcached_def sample_defs get_be16_def be16_def join_bytes16)

theorem get_miss_transparent_witness:
  "\<exists>s'. xdp_receive bpf_ref 2 initial_state (xdp_of (get_request (sample_udp 5000 11211) 1 [bytes ''k1'', bytes ''user:1234567''] [chr_nl])) =
      (XDP_PASS, s', xdp_of (get_request (sample_udp 5000 11211) 1 [bytes ''k1'', bytes ''user:1234567''] [chr_nl])) \<and>
    miss_count (stats s') = 2"
proof -
  let ?ks = "[bytes ''k1'', bytes ''user:1234567'']"
  let ?p = "get_request (sample_udp 5000 11211) 1 ?ks [chr_nl]"
  have "list_all valid_key ?ks" by (simp add: valid_key_def key_byte_def)
  moreover have "hits (kcache initial_state) ?ks = []"
    by (simp add: hits_def potential_hit_def initial_state_def zero_entry_def)
  moreover have "length ?p < 65536" by (simp add: get_request_def sample_defs)
  moreover have "keys_wf initial_state" by (simp add: keys_wf_def initial_state_def)
  ultimately have "\<exists>s'. xdp_receive bpf_ref 2 initial_state (xdp_of ?p) = (XDP_PASS, s', xdp_of ?p) \<and>
      kcache s' = kcache initial_state \<and>
      stats s' = (stats initial_state)\<lparr>get_recv_count := get_recv_count (stats initial_state) + 1,
        miss_count := miss_count (stats initial_state) + of_nat (length ?ks)\<rparr>"
    by (intro get_miss_transparent [of 32 bpf_ref "xdp_of ?p" "sample_udp 5000 11211" 1 ?ks "[chr_nl]"]) simp_all
  then show ?thesis by (auto simp: initial_state_def)
qed

text \<open>
  C11.  Short last keys.  When a GET request is so short that fewer than fourteen bytes are left from its first key on, it is
  passed on as it is, without any key being looked up.  When the bytes run short behind a later key \<open>k\<close>, the
  request is passed on too, but with its Ethernet, IP and UDP headers cut off: what the network stack receives starts
  with \<open>k\<close>.  Both hold whatever is cached.
\<close>

theorem short_request_passed:
  assumes "bpf_linux r B" and "xdp_wf x" and "pkt x = get_request hdr m (as @ k # bs) rest" and "udp_to_memcached hdr"
    and "list_all valid_key (as @ k # bs)" and "4 + m < BMC_MAX_PACKET_LENGTH" and "length as < 30" and "keys_wf s"
    and "r \<le> xdp_data x" and "length as < n"
  shows "(length (key_seq (as @ k # bs) rest) < ETH_HLEN \<longrightarrow>
      xdp_receive B n s x = (XDP_PASS, start_get s (4 + m), x)) \<and>
    (bs \<noteq> [] \<and> length (key_seq bs rest) < ETH_HLEN \<and> ETH_HLEN \<le> length (key_seq (k # bs) rest) \<longrightarrow>
      (\<exists>s' x'. xdp_receive B n s x = (XDP_PASS, s', x') \<and> pkt x' = key_seq (k # bs) rest \<and> kcache s' = kcache s))"
proof (intro conjI impI)
  note filter = rx_filter_get [OF assms(1-4) _ assms(5,6,9), of s]
  show "xdp_receive B n s x = (XDP_PASS, start_get s (4 + m), x)" if "length (key_seq (as @ k # bs) rest) < ETH_HLEN"
    using that filter by (simp add: xdp_receive_def)
  assume short: "bs \<noteq> [] \<and> length (key_seq bs rest) < ETH_HLEN \<and> ETH_HLEN \<le> length (key_seq (k # bs) rest)"
  note x = pkt_start_get [OF assms(2-4)]
  obtain j where n: "n = Suc (length as) + j" using assms(10) less_imp_Suc_add by auto
  have "14 \<le> length (key_seq (as @ k # bs) rest)"
    using short length_key_seq_append [of "k # bs" rest as] by simp
  then have "xdp_receive B n s x = run_xdp B (Suc (length as) + j)
      (Tail_call BMC_PROG_XDP_HASH_KEYS XDP_PASS, start_get s (4 + m), move_head x (int (54 + m)))"
    using filter by (simp only: xdp_receive_def n) simp
  moreover have "\<exists>s' x'. run_xdp B (Suc (length as) + j)
      (Tail_call BMC_PROG_XDP_HASH_KEYS XDP_PASS, start_get s (4 + m), move_head x (int (54 + m))) = (XDP_PASS, s', x') \<and>
    pkt x' = key_seq (k # bs) rest \<and> kcache s' = kcache (start_get s (4 + m))"
    using short assms(5,7-9) x by (intro run_hash_keys_short [OF assms(1) x(2,1)]) (simp_all add: keys_wf_def)
  ultimately show "\<exists>s' x'. xdp_receive B n s x = (XDP_PASS, s', x') \<and> pkt x' = key_seq (k # bs) rest \<and> kcache s' = kcache s"
    by simp
qed

theorem short_request_passed_witness:
  "\<exists>s' x'. xdp_receive bpf_ref 33 initial_state
      (xdp_of (get_request (sample_udp 5000 11211) 0 [bytes ''user:1234567'', bytes ''k1''] [chr_nl])) = (XDP_PASS, s', x') \<and>
    pkt x' = bytes ''user:1234567 k1'' @ [chr_cr, chr_nl]"
proof -
  let ?k = "bytes ''user:1234567''" and ?bs = "[bytes ''k1'']"
  let ?x = "xdp_of (get_request (sample_udp 5000 11211) 0 ([] @ ?k # ?bs) [chr_nl])"
  have "list_all valid_key ([] @ ?k # ?bs)" by (simp add: valid_key_def key_byte_def)
  moreover have "keys_wf initial_state" by (simp add: keys_wf_def initial_state_def)
  ultimately have "\<exists>s' x'. xdp_receive bpf_ref 33 initial_state ?x = (XDP_PASS, s', x') \<and>
      pkt x' = key_seq (?k # ?bs) [chr_nl] \<and> kcache s' = kcache initial_state"
    using short_request_passed [of 32 bpf_ref ?x "sample_udp 5000 11211" 0 "[]" ?k ?bs "[chr_nl]" initial_state 33]
    by (simp del: bytes_simps)
  then show ?thesis by auto
qed

end
