(* ===== verification/Bmc_Serve.thy ===== *)
theory Bmc_Serve
  imports Bmc_Get
begin

text \<open>
  The reply path: what the writer sends for the keys the parser saved, and the theorem on a
  whole GET request, from the packet received to the packet sent.
\<close>

section \<open>One run of the writer\<close>

text \<open>The cache serves \<open>k\<close>: a valid entry with the key's hash whose reply names the key.\<close>

definition serves :: "(u32 \<Rightarrow> bmc_cache_entry) \<Rightarrow> u8 list \<Rightarrow> bool" where
  "serves c k \<longleftrightarrow> (let e = c (cache_index (fnv k)) in
     ce_valid e \<noteq> 0 \<and> ce_hash e = fnv k \<and> entry_wf e \<and> 0 < unat (ce_len e) \<and>
     segment 6 (length k) (ce_data e) = k)"

definition reply_of :: "(u32 \<Rightarrow> bmc_cache_entry) \<Rightarrow> u8 list \<Rightarrow> u8 list" where
  "reply_of c k = cached (c (cache_index (fnv k)))"

definition count_hit :: "bmc_state \<Rightarrow> bmc_state" where
  "count_hit s = s\<lparr>stats := (stats s)\<lparr>hit_count := hit_count (stats s) + 1\<rparr>,
                   pctx := (pctx s)\<lparr>current_key := current_key (pctx s) + 1\<rparr>\<rparr>"

lemma serves_potential_hit: "serves c k \<Longrightarrow> potential_hit c k"
  by (simp add: serves_def potential_hit_def Let_def)

lemma reply_of_nonempty: "serves c k \<Longrightarrow> 0 < length (reply_of c k)"
  by (auto simp: serves_def reply_of_def Let_def length_cached entry_wf_def cached_def)

lemma write_reply_main_hit:
  assumes "bpf_laws B" and "xdp_wf x" and "current_key (pctx s) < BMC_MAX_KEY_IN_PACKET"
    and "key_saved (keys s (current_key (pctx s))) k" and "valid_key k" and "serves (kcache s) k"
    and "length (reply_of (kcache s) k) \<le> length (pkt x)"
  shows "bmc_write_reply_main B s x =
    write_reply_next B (count_hit s)
      (x\<lparr>xdp_frame := memcpy_at (xdp_frame x) (xdp_data x) (reply_of (kcache s) k)\<rparr>)
      (length (reply_of (kcache s) k))"
proof -
  let ?m = "keys s (current_key (pctx s))" and ?e = "kcache s (cache_index (fnv k))"
  have m: "mk_hash ?m = fnv k" "unat (mk_len ?m) = length k" "take (length k) (mk_data ?m) = k"
    "length (mk_data ?m) = 250" "length k \<le> 250"
    using assms(4,5) by (simp_all add: key_saved_def valid_key_def)
  have e: "ce_valid ?e \<noteq> 0" "ce_hash ?e = fnv k" "entry_wf ?e" "segment 6 (length k) (ce_data ?e) = k"
    using assms(6) by (simp_all add: serves_def Let_def)
  have "write_reply_entry ?m ?e x =
      (True, length (cached ?e), x\<lparr>xdp_frame := memcpy_at (xdp_frame x) (xdp_data x) (cached ?e)\<rparr>)"
    using write_reply_entry_hit [OF e(3) assms(2) e(1), of ?m] m e assms(7)
    by (simp add: reply_of_def min_absorb1 Let_def)
  moreover have "xdp_data x < xdp_data_end x"
  proof -
    have "0 < length (pkt x)" using reply_of_nonempty [OF assms(6)] assms(7) by linarith
    then show ?thesis using assms(2) by (simp add: length_pkt)
  qed
  moreover have "lookup_elem B map_keys (current_key (pctx s))" using assms(1,3) by (simp add: bpf_lookup)
  ultimately show ?thesis
    using assms(1) m(1) by (simp add: bmc_write_reply_main_def Let_def count_hit_def reply_of_def)
qed

section \<open>The writer over all saved keys\<close>

abbreviation (input) end_marker :: "u8 list" where
  "end_marker \<equiv> [asc CHR ''E'', asc CHR ''N'', asc CHR ''D'', chr_cr, chr_nl]"

definition reply_payload :: "(u32 \<Rightarrow> bmc_cache_entry) \<Rightarrow> u8 list list \<Rightarrow> u8 list" where
  "reply_payload c hs = concat (map (reply_of c) hs) @ end_marker"

text \<open>The packet sent when the payload \<open>p\<close> was written at the head of \<open>x\<close>, \<open>w\<close> bytes after the headers.\<close>

definition sent :: "xdp_md \<Rightarrow> nat \<Rightarrow> u8 list \<Rightarrow> xdp_md" where
  "sent x w p =
     x\<lparr>xdp_frame := finish_headers (memcpy_at (xdp_frame x) (xdp_data x) p) (xdp_data x - (50 + w)) (w + length p),
       xdp_data := xdp_data x - (50 + w), xdp_data_end := xdp_data x + length p\<rparr>"

lemma write_reply_send_ok:
  assumes "bpf_linux h B" and "xdp_wf x" and "r + 5 \<le> length (pkt x)"
    and "h + (50 + unat (write_pkt_offset (pctx s))) \<le> xdp_data x"
    and "xdp_frame x = memcpy_at f (xdp_data x) p" and "length p = r" and "length f = length (xdp_frame x)"
  shows "write_reply_send B s x r =
    (Return XDP_TX, s, sent (x\<lparr>xdp_frame := f\<rparr>) (unat (write_pkt_offset (pctx s))) (p @ end_marker))"
proof -
  define w where "w = unat (write_pkt_offset (pctx s))"
  have w: "50 + w \<le> xdp_data x" "h + (50 + w) \<le> xdp_data x" using assms(4) unfolding w_def by linarith+
  let ?f1 = "memcpy_at (xdp_frame x) (xdp_data x + r) end_marker"
  let ?x1 = "x\<lparr>xdp_frame := ?f1\<rparr>"
  let ?x2 = "move_head ?x1 (- int (50 + w))"
  have room: "xdp_data x + r + 5 \<le> xdp_data_end x" "xdp_data_end x \<le> length (xdp_frame x)"
    using assms(2,3) by (auto simp: length_pkt xdp_wf_def)
  have f1: "?f1 = memcpy_at f (xdp_data x) (p @ end_marker)"
  proof -
    have "xdp_data x + length p + length end_marker \<le> length f" using room assms(6,7) by simp
    then have "memcpy_at (memcpy_at f (xdp_data x) p) (xdp_data x + length p) end_marker =
        memcpy_at f (xdp_data x) (p @ end_marker)"
      by (rule memcpy_at_memcpy_at_adjacent)
    then show ?thesis by (simp only: assms(5,6))
  qed
  have len: "length ?f1 = length (xdp_frame x)" using room by simp
  have wf1: "xdp_wf ?x1" using assms(2) len by (simp add: xdp_wf_def)
  then have "xdp_adjust_head B ?x1 (- int (50 + w)) = Some ?x2"
    using w by (intro linux_head_back [OF assms(1)]) simp_all
  then have head: "xdp_adjust_head B ?x1 (- (50 + int w)) = Some ?x2" by simp
  have d2: "xdp_data ?x2 = xdp_data x - (50 + w)" by (simp only: xdp_data_move_back) simp
  let ?x3 = "?x2\<lparr>xdp_frame := finish_headers (xdp_frame ?x2) (xdp_data ?x2) (w + (r + 5))\<rparr>"
  let ?d = "- (int (xdp_data_end ?x3) - int (xdp_data ?x3 + 50 + w + (r + 5)))"
  have d: "?d = int (xdp_data x + (r + 5)) - int (xdp_data_end x)"
    using d2 w(1) by simp
  have "int (xdp_data ?x3) + 14 \<le> int (xdp_data_end ?x3) + ?d" unfolding d using room d2 w(1) by simp
  moreover have "?d \<le> 0" unfolding d using room by simp
  ultimately have tail: "adjusted (xdp_adjust_tail B ?x3 ?d) ?x3 = move_tail ?x3 ?d"
    by (rule linux_tail [OF assms(1), rotated])
  have "\<not> past_end ?x2 42" using d2 w room by (simp add: past_end_def)
  moreover have "move_tail ?x3 ?d = sent (x\<lparr>xdp_frame := f\<rparr>) w (p @ end_marker)"
  proof -
    have "length (p @ end_marker) = r + 5" using assms(6) by simp
    then show ?thesis
      unfolding d sent_def using d2 f1 by (intro xdp_md.equality) (simp_all only: move_tail_simps xdp_md.simps, simp_all)
  qed
  ultimately show ?thesis
    using head tail room unfolding w_def [symmetric] write_reply_send_def by (simp add: Let_def)
qed

lemma sent_push:
  assumes "xdp_data x + length p + length q \<le> length (xdp_frame x)"
  shows "sent (move_head (x\<lparr>xdp_frame := memcpy_at (xdp_frame x) (xdp_data x) p\<rparr>) (int (length p))) (w + length p) q =
    sent x w (p @ q)"
proof -
  let ?x = "move_head (x\<lparr>xdp_frame := memcpy_at (xdp_frame x) (xdp_data x) p\<rparr>) (int (length p))"
  have d: "xdp_data ?x = xdp_data x + length p" by (simp add: nat_add_distrib)
  have m: "memcpy_at (memcpy_at (xdp_frame x) (xdp_data x) p) (xdp_data x + length p) q =
      memcpy_at (xdp_frame x) (xdp_data x) (p @ q)"
    using assms by (rule memcpy_at_memcpy_at_adjacent)
  have "xdp_data x + length p - (50 + (w + length p)) = xdp_data x - (50 + w)" by simp
  then show ?thesis
    unfolding sent_def d by (intro xdp_md.equality) (simp_all add: m add.assoc)
qed

lemma write_reply_next_last:
  assumes "bpf_linux h B" and "xdp_wf x" and "length p + 5 \<le> length (pkt x)" and "p \<noteq> []"
    and "current_key (pctx s) = key_count (pctx s)"
    and "h + (50 + unat (write_pkt_offset (pctx s))) \<le> xdp_data x"
  shows "write_reply_next B s (x\<lparr>xdp_frame := memcpy_at (xdp_frame x) (xdp_data x) p\<rparr>) (length p) =
    (Return XDP_TX, s, sent x (unat (write_pkt_offset (pctx s))) (p @ end_marker))"
proof -
  let ?x = "x\<lparr>xdp_frame := memcpy_at (xdp_frame x) (xdp_data x) p\<rparr>"
  have room: "xdp_data x + length p \<le> length (xdp_frame x)"
    using assms(2,3) by (auto simp: length_pkt xdp_wf_def)
  then have len: "length (memcpy_at (xdp_frame x) (xdp_data x) p) = length (xdp_frame x)" by simp
  then have wf: "xdp_wf ?x" using assms(2) by (simp add: xdp_wf_def)
  moreover have "length (pkt ?x) = length (pkt x)" using wf assms(2) by (simp add: length_pkt)
  ultimately have "write_reply_send B s ?x (length p) =
      (Return XDP_TX, s, sent (?x\<lparr>xdp_frame := xdp_frame x\<rparr>) (unat (write_pkt_offset (pctx s))) (p @ end_marker))"
    using assms len by (intro write_reply_send_ok) simp_all
  then show ?thesis using assms(4,5) by (simp add: write_reply_next_def)
qed

lemma write_reply_next_more:
  assumes "bpf_linux h B" and "xdp_wf x" and "h \<le> xdp_data x" and "r + 14 \<le> length (pkt x)"
    and "current_key (pctx s) \<noteq> key_count (pctx s)" and "current_key (pctx s) < BMC_MAX_KEY_IN_PACKET"
  shows "write_reply_next B s x r =
    (Tail_call BMC_PROG_XDP_WRITE_REPLY XDP_DROP,
     s\<lparr>pctx := (pctx s)\<lparr>write_pkt_offset := write_pkt_offset (pctx s) + of_nat r\<rparr>\<rparr>, move_head x (int r))"
  using assms linux_head_forward [OF assms(1-4)] by (simp add: write_reply_next_def)

lemma count_hit_simps [simp]:
  "kcache (count_hit s) = kcache s" "keys (count_hit s) = keys s"
  "current_key (pctx (count_hit s)) = current_key (pctx s) + 1"
  "key_count (pctx (count_hit s)) = key_count (pctx s)"
  "write_pkt_offset (pctx (count_hit s)) = write_pkt_offset (pctx s)"
  "stats (count_hit s) = (stats s)\<lparr>hit_count := hit_count (stats s) + 1\<rparr>"
  by (simp_all add: count_hit_def)

lemma reply_payload_Cons: "reply_payload c (k # hs) = reply_of c k @ reply_payload c hs"
  by (simp add: reply_payload_def)

text \<open>The replies before the last one, behind which a packet must have room for an Ethernet header.\<close>

abbreviation (input) before_last :: "(u32 \<Rightarrow> bmc_cache_entry) \<Rightarrow> u8 list list \<Rightarrow> u8 list" where
  "before_last c hs \<equiv> concat (map (reply_of c) (butlast hs))"

lemma run_write_reply:
  assumes "bpf_linux h B" and "xdp_wf x" and "hs \<noteq> []" and "list_all valid_key hs"
    and "list_all (serves (kcache s)) hs" and "all_saved s (unat (current_key (pctx s))) hs"
    and "unat (current_key (pctx s)) + length hs = unat (key_count (pctx s))"
    and "unat (key_count (pctx s)) \<le> 30"
    and "length (reply_payload (kcache s) hs) \<le> length (pkt x)"
    and "h + (50 + unat (write_pkt_offset (pctx s))) \<le> xdp_data x"
    and "unat (write_pkt_offset (pctx s)) + length (reply_payload (kcache s) hs) < 65536"
    and "length (before_last (kcache s) hs) + ETH_HLEN \<le> length (pkt x)"
  shows "\<exists>s'. run_xdp B (length hs + n) (Tail_call BMC_PROG_XDP_WRITE_REPLY a, s, x) =
      (XDP_TX, s', sent x (unat (write_pkt_offset (pctx s))) (reply_payload (kcache s) hs)) \<and>
    kcache s' = kcache s \<and> stats s' = (stats s)\<lparr>hit_count := hit_count (stats s) + of_nat (length hs)\<rparr>"
  using assms
proof (induction hs arbitrary: s x a)
  case (Cons k hs)
  let ?r = "reply_of (kcache s) k" and ?s1 = "count_hit s"
  let ?x1 = "x\<lparr>xdp_frame := memcpy_at (xdp_frame x) (xdp_data x) ?r\<rparr>"
  have pay: "length (reply_payload (kcache s) (k # hs)) = length ?r + length (reply_payload (kcache s) hs)"
    by (simp add: reply_payload_Cons)
  have r: "length ?r + 5 \<le> length (pkt x)"
    using Cons.prems(9) unfolding pay by (simp add: reply_payload_def)
  have cur: "unat (current_key (pctx s) + 1) = unat (current_key (pctx s)) + 1"
    using Cons.prems(7,8) by (intro unat_add_one_u32) simp
  have main: "bmc_write_reply_main B s x = write_reply_next B ?s1 ?x1 (length ?r)"
    using Cons.prems r by (intro write_reply_main_hit) (auto simp: bpf_linux_laws word_less_nat_alt)
  have wf1: "xdp_wf ?x1" and len1: "length (pkt ?x1) = length (pkt x)"
  proof -
    have "xdp_data x + length ?r \<le> length (xdp_frame x)"
      using Cons.prems(2) r by (auto simp: length_pkt xdp_wf_def)
    then show "xdp_wf ?x1" using Cons.prems(2) by (simp add: xdp_wf_def)
    then show "length (pkt ?x1) = length (pkt x)" using Cons.prems(2) by (simp add: length_pkt)
  qed
  show ?case
  proof (cases hs)
    case Nil
    have "current_key (pctx ?s1) = key_count (pctx ?s1)"
      using Cons.prems(7) cur Nil by (simp add: word_unat_eq_iff)
    moreover have "?r \<noteq> []" using reply_of_nonempty [of "kcache s" k] Cons.prems(5) by simp
    ultimately have "write_reply_next B ?s1 ?x1 (length ?r) =
        (Return XDP_TX, ?s1, sent x (unat (write_pkt_offset (pctx s))) (?r @ end_marker))"
      using write_reply_next_last [OF Cons.prems(1,2) r, of ?s1] Cons.prems(10) by simp
    then show ?thesis using main Nil by (simp add: reply_payload_def)
  next
    case more: (Cons k' hs')
    define s2 where "s2 = ?s1\<lparr>pctx := (pctx ?s1)\<lparr>write_pkt_offset := write_pkt_offset (pctx ?s1) + of_nat (length ?r)\<rparr>\<rparr>"
    define x2 where "x2 = move_head ?x1 (int (length ?r))"
    have "current_key (pctx ?s1) \<noteq> key_count (pctx ?s1)" "current_key (pctx ?s1) < 30"
      using Cons.prems(7,8) cur more by (auto simp: word_unat_eq_iff word_less_nat_alt)
    then have step: "write_reply_next B ?s1 ?x1 (length ?r) = (Tail_call BMC_PROG_XDP_WRITE_REPLY XDP_DROP, s2, x2)"
      using write_reply_next_more [OF Cons.prems(1) wf1, of "length ?r" ?s1] Cons.prems(10,12) len1 more
      by (simp add: s2_def x2_def)
    have wpo: "unat (write_pkt_offset (pctx s2)) = unat (write_pkt_offset (pctx s)) + length ?r"
    proof -
      have small: "unat (write_pkt_offset (pctx s)) + length ?r < 65536" using Cons.prems(11) pay by linarith
      then have "unat (of_nat (length ?r) :: u16) = length ?r" by simp
      with small show ?thesis by (simp add: s2_def unat_word_ariths)
    qed
    have x2: "xdp_wf x2" "xdp_data x2 = xdp_data x + length ?r" "length (pkt x2) = length (pkt x) - length ?r"
      using pkt_move_head [OF wf1, of "length ?r"] r len1 by (simp_all add: x2_def nat_add_distrib)
    have "\<exists>s'. run_xdp B (length hs + n) (Tail_call BMC_PROG_XDP_WRITE_REPLY XDP_DROP, s2, x2) =
        (XDP_TX, s', sent x2 (unat (write_pkt_offset (pctx s2))) (reply_payload (kcache s2) hs)) \<and>
      kcache s' = kcache s2 \<and> stats s' = (stats s2)\<lparr>hit_count := hit_count (stats s2) + of_nat (length hs)\<rparr>"
    proof (rule Cons.IH [OF Cons.prems(1) x2(1)])
      show "length (reply_payload (kcache s2) hs) \<le> length (pkt x2)"
        using Cons.prems(9) pay x2(3) by (simp add: s2_def)
      show "unat (write_pkt_offset (pctx s2)) + length (reply_payload (kcache s2) hs) < 65536"
        unfolding wpo using Cons.prems(11) pay by (simp add: s2_def)
      show "h + (50 + unat (write_pkt_offset (pctx s2))) \<le> xdp_data x2"
        unfolding wpo x2(2) using Cons.prems(10) by simp
      show "length (before_last (kcache s2) hs) + 14 \<le> length (pkt x2)"
        using Cons.prems(12) x2(3) more by (simp add: s2_def)
      show "all_saved s2 (unat (current_key (pctx s2))) hs"
        using Cons.prems(6) cur all_saved_cong [of s2 s] by (simp add: s2_def)
    qed (use Cons.prems(4,5,7,8) cur more in \<open>simp_all add: s2_def\<close>)
    moreover have "sent x2 (unat (write_pkt_offset (pctx s2))) (reply_payload (kcache s2) hs) =
        sent x (unat (write_pkt_offset (pctx s))) (reply_payload (kcache s) (k # hs))"
      unfolding wpo x2_def reply_payload_Cons using Cons.prems(2,9) pay
      by (subst sent_push) (auto simp: s2_def length_pkt xdp_wf_def)
    ultimately show ?thesis using main step by (auto simp: s2_def)
  qed
qed simp

section \<open>A whole GET request\<close>

definition prepared :: "xdp_md \<Rightarrow> xdp_md" where
  "prepared x = x\<lparr>xdp_frame := reply_headers (xdp_frame x) (xdp_data x - 128), xdp_data := xdp_data x - 78\<rparr>"

lemma length_reply_headers:
  assumes "data + 178 \<le> length f"
  shows "length (reply_headers f data) = length f"
proof -
  have "reply_headers (take data f @ drop data f) data =
      take data f @ swapped_headers (segment 128 50 (drop data f)) @ drop 50 (drop data f)"
    using assms by (intro reply_headers_append) simp_all
  then show ?thesis using assms by simp
qed

lemma prepare_packet_ok:
  assumes "bpf_linux h B" and "xdp_wf x" and "h + 128 \<le> xdp_data x" and "52 \<le> length (pkt x)"
  shows "bmc_prepare_packet_main B s x = (Tail_call BMC_PROG_XDP_WRITE_REPLY XDP_PASS, s, prepared x)"
proof -
  let ?x1 = "move_head x (- int 128)"
  let ?x2 = "?x1\<lparr>xdp_frame := reply_headers (xdp_frame ?x1) (xdp_data ?x1)\<rparr>"
  have h1: "xdp_adjust_head B x (- int 128) = Some ?x1"
    using assms(3,4) by (intro linux_head_back [OF assms(1,2)]) simp_all
  have d1: "xdp_data ?x1 = xdp_data x - 128" by (rule xdp_data_move_back)
  have e: "xdp_data x + 52 \<le> xdp_data_end x" using assms(2,4) by (auto simp: length_pkt xdp_wf_def)
  have h2: "xdp_adjust_head B ?x2 (int 50) = Some (move_head ?x2 (int 50))"
    using d1 e assms(3) by (intro linux_head [OF assms(1)]) simp_all
  have "nat (int (xdp_data x) - 128) = xdp_data x - 128" by linarith
  then have "move_head ?x2 (int 50) = prepared x"
    unfolding prepared_def using assms(3) by (intro xdp_md.equality) simp_all
  then show ?thesis
    using h1 h2 d1 e assms(3) by (simp add: bmc_prepare_packet_main_def Let_def)
qed

lemma prepared_wf:
  assumes "xdp_wf x" and "128 \<le> xdp_data x" and "50 \<le> length (pkt x)"
  shows "xdp_wf (prepared x)" and "length (pkt (prepared x)) = length (pkt x) + 78"
proof -
  have "xdp_data x + 50 \<le> xdp_data_end x" "xdp_data_end x \<le> length (xdp_frame x)"
    using assms(1,3) by (auto simp: length_pkt xdp_wf_def)
  then show wf: "xdp_wf (prepared x)"
    using assms(2) length_reply_headers [of "xdp_data x - 128" "xdp_frame x"] by (simp add: prepared_def xdp_wf_def)
  then show "length (pkt (prepared x)) = length (pkt x) + 78"
    using assms by (simp add: length_pkt prepared_def xdp_wf_def)
qed

lemma pkt_sent_prepared:
  assumes "xdp_wf x" and "128 \<le> xdp_data x" and "pkt x = hdr @ q" and "length hdr = 50"
    and "length p \<le> length (pkt x) + 78"
  shows "pkt (sent (prepared x) 0 p) = finish_headers (swapped_headers hdr @ p) 0 (length p)"
proof -
  define d where "d = xdp_data x - 128"
  let ?f = "xdp_frame x"
  let ?A = "take d ?f" and ?B = "drop d ?f"
  have len: "length (pkt x) = xdp_data_end x - xdp_data x" "50 \<le> length (pkt x)"
    using length_pkt [OF assms(1)] assms(3,4) by simp_all
  have e: "xdp_data x = d + 128" "d + 178 \<le> length ?f" "d + 50 + length p \<le> length ?f"
    using assms(1,2,5) len unfolding d_def xdp_wf_def by linarith+
  have "hdr = take 50 (pkt x)" using assms(3,4) by simp
  also have "\<dots> = segment 128 50 ?B"
    using len e(1) by (simp add: pkt_def segment_def min_def add.commute)
  finally have "reply_headers (?A @ ?B) d = ?A @ swapped_headers hdr @ drop 50 ?B"
    using e(2) reply_headers_append [of ?A d ?B] by simp
  then have "memcpy_at (reply_headers ?f d) (length (?A @ swapped_headers hdr) + 0) p =
      (?A @ swapped_headers hdr) @ memcpy_at (drop 50 ?B) 0 p"
    using memcpy_at_append_right [of "?A @ swapped_headers hdr" "drop 50 ?B" 0 p] by simp
  then have "memcpy_at (reply_headers ?f d) (d + 50) p = ?A @ (swapped_headers hdr @ p) @ drop (50 + length p) ?B"
    using e(2) assms(4) by (simp add: memcpy_at_def ac_simps)
  then have "finish_headers (memcpy_at (reply_headers ?f d) (d + 50) p) d (length p) =
      ?A @ finish_headers (swapped_headers hdr @ p) 0 (length p) @ drop (50 + length p) ?B"
    using finish_headers_append [of ?A "(swapped_headers hdr @ p) @ drop (50 + length p) ?B" "length p"]
      finish_headers_append_left [of "swapped_headers hdr @ p"] e(2) assms(4) by simp
  then have "xdp_frame (sent (prepared x) 0 p) =
      ?A @ finish_headers (swapped_headers hdr @ p) 0 (length p) @ drop (50 + length p) ?B"
    using e(1) by (simp add: sent_def prepared_def add.commute [of 50 d])
  then show ?thesis
    using e assms(4) by (simp add: pkt_def sent_def prepared_def segment_def)
qed

lemma receive_get_hit:
  assumes "bpf_linux h B" and "xdp_wf x" and "pkt x = get_request hdr m ks rest" and "udp_to_memcached hdr"
    and "ks \<noteq> []" and "list_all valid_key ks" and "4 + m < BMC_MAX_PACKET_LENGTH"
    and "length ks \<le> 30" and "length (pkt x) < 65000" and "keys_wf s" and "h + 128 \<le> xdp_data x"
    and "hits (kcache s) ks \<noteq> []" and "list_all (serves (kcache s)) (hits (kcache s) ks)"
    and "length (reply_payload (kcache s) (hits (kcache s) ks)) \<le> length (pkt x) + 78"
    and "length ks + length (hits (kcache s) ks) < n"
    and "ETH_HLEN \<le> length (last ks) + 1 + length rest"
    and "length (before_last (kcache s) (hits (kcache s) ks)) + ETH_HLEN \<le> length (pkt x) + 78"
  shows "\<exists>s'. xdp_receive B n s x = (XDP_TX, s', sent (prepared x) 0 (reply_payload (kcache s) (hits (kcache s) ks))) \<and>
    kcache s' = kcache s \<and>
    stats s' = (stats s)\<lparr>get_recv_count := get_recv_count (stats s) + 1,
      miss_count := miss_count (stats s) + of_nat (length ks - length (hits (kcache s) ks)),
      hit_count := hit_count (stats s) + of_nat (length (hits (kcache s) ks))\<rparr>"
proof -
  let ?hs = "hits (kcache s) ks" and ?s = "note_keys (start_get s (4 + m)) ks"
  obtain j where n: "n = length ks + Suc (length ?hs + j)"
    using assms(15) by (metis add_Suc_right less_imp_add_positive gr0_conv_Suc add.assoc)
  have lhs: "length ?hs \<le> 30" using length_hits [of "kcache s" ks] assms(8) by linarith
  have kc: "unat (key_count (pctx ?s)) = length ?hs" using lhs by (simp add: note_keys_key_count)
  have hdr: "length hdr = 50" "52 \<le> length (pkt x)" "pkt x = hdr @ drop 50 (pkt x)"
    using assms(3,4) by (simp_all add: get_request_def udp_to_memcached_def)
  have saved: "all_saved ?s 0 ?hs"
    using all_saved_note_keys [of "start_get s (4 + m)" ks] assms(6,8,10) by (simp add: keys_wf_def)
  have valid: "list_all valid_key ?hs" using assms(6) by (auto simp: hits_def list_all_iff)
  have head: "128 \<le> xdp_data x" "h \<le> xdp_data x" using assms(11) by simp_all
  have wf: "xdp_wf (prepared x)" "length (pkt (prepared x)) = length (pkt x) + 78"
    using prepared_wf [OF assms(2) head(1)] hdr(2) by simp_all
  have "xdp_receive B n s x = run_xdp B (length ?hs + j) (Tail_call BMC_PROG_XDP_WRITE_REPLY XDP_PASS, ?s, prepared x)"
    using receive_get [OF assms(1-8) _ assms(10) head(2) assms(16), of "Suc (length ?hs + j)"] assms(9,12) n
      prepare_packet_ok [OF assms(1,2,11) hdr(2)] by simp
  moreover have "\<exists>s'. run_xdp B (length ?hs + j) (Tail_call BMC_PROG_XDP_WRITE_REPLY XDP_PASS, ?s, prepared x) =
      (XDP_TX, s', sent (prepared x) (unat (write_pkt_offset (pctx ?s))) (reply_payload (kcache ?s) ?hs)) \<and>
    kcache s' = kcache ?s \<and> stats s' = (stats ?s)\<lparr>hit_count := hit_count (stats ?s) + of_nat (length ?hs)\<rparr>"
    using assms(9,11,13,14,17) wf valid saved kc lhs
    by (intro run_write_reply [OF assms(1) wf(1) assms(12)]) (simp_all add: prepared_def)
  ultimately show ?thesis by (auto simp: note_keys_stats)
qed

lemma pkt_sent_get:
  assumes "xdp_wf x" and "pkt x = get_request hdr m ks rest" and "udp_to_memcached hdr" and "128 \<le> xdp_data x"
    and "length p \<le> length (pkt x) + 78"
  shows "pkt (sent (prepared x) 0 p) = finish_headers (swapped_headers hdr @ p) 0 (length p)"
  using assms pkt_sent_prepared [of x hdr "drop 50 (pkt x)" p]
  by (simp add: get_request_def udp_to_memcached_def)

section \<open>A request for one key\<close>

text \<open>The packets \<open>x\<close> with a GET request for the key \<open>k\<close> that the receive path looks up.\<close>

definition get_for :: "nat \<Rightarrow> xdp_md \<Rightarrow> u8 list \<Rightarrow> u8 list \<Rightarrow> bool" where
  "get_for h x hdr k \<longleftrightarrow> xdp_wf x \<and> udp_to_memcached hdr \<and> valid_key k \<and> h + 128 \<le> xdp_data x \<and>
     length (pkt x) < 65000 \<and>
     (\<exists>m rest. pkt x = get_request hdr m [k] rest \<and> 4 + m < BMC_MAX_PACKET_LENGTH \<and>
        ETH_HLEN \<le> length k + 1 + length rest)"

lemma get_forD:
  assumes "get_for h x hdr k"
  obtains m rest where "xdp_wf x" "pkt x = get_request hdr m [k] rest" "udp_to_memcached hdr" "valid_key k"
    "4 + m < BMC_MAX_PACKET_LENGTH" "length (pkt x) < 65000" "h + 128 \<le> xdp_data x"
    "ETH_HLEN \<le> length k + 1 + length rest"
  using assms by (auto simp: get_for_def)

lemma receive_one_served:
  assumes "bpf_linux h B" and "get_for h x hdr k" and "keys_wf s" and "serves (kcache s) k"
    and "reply_of (kcache s) k = p" and "length p \<le> length (pkt x) + 73" and "3 \<le> n"
  shows "\<exists>s' x'. xdp_receive B n s x = (XDP_TX, s', x') \<and>
    pkt x' = finish_headers (swapped_headers hdr @ p @ end_marker) 0 (length p + 5)"
proof -
  obtain m rest where g: "xdp_wf x" "pkt x = get_request hdr m [k] rest" "udp_to_memcached hdr" "valid_key k"
    "4 + m < BMC_MAX_PACKET_LENGTH" "length (pkt x) < 65000" "h + 128 \<le> xdp_data x"
    "14 \<le> length k + 1 + length rest"
    using get_forD [OF assms(2)] .
  have hits: "hits (kcache s) [k] = [k]" using assms(4) by (simp add: serves_potential_hit)
  have pay: "reply_payload (kcache s) [k] = p @ end_marker" by (simp add: reply_payload_def assms(5))
  have "\<exists>s'. xdp_receive B n s x = (XDP_TX, s', sent (prepared x) 0 (p @ end_marker))"
    using receive_get_hit [OF assms(1) g(1-3) _ _ g(5) _ g(6) assms(3) g(7), of n] assms(4,6,7) g(4,8)
    unfolding hits pay by auto
  moreover have "pkt (sent (prepared x) 0 (p @ end_marker)) =
      finish_headers (swapped_headers hdr @ p @ end_marker) 0 (length (p @ end_marker))"
    using assms(6) g(7) by (intro pkt_sent_get [OF g(1-3)]) simp_all
  moreover have "length (p @ end_marker) = length p + 5" by simp
  ultimately show ?thesis by metis
qed

text \<open>The headers of the reply are written in front of the request and leave it intact.\<close>

lemma pkt_prepared_back:
  assumes "xdp_wf x" and "128 \<le> xdp_data x" and "50 \<le> length (pkt x)"
  shows "pkt (move_head (prepared x) 78) = pkt x"
proof -
  define d where "d = xdp_data x - 128"
  let ?f = "xdp_frame x"
  have e: "xdp_data x = d + 128" using assms(2) by (simp add: d_def)
  moreover have "xdp_data x + 50 \<le> xdp_data_end x" "xdp_data_end x \<le> length ?f"
    using assms(1,3) by (auto simp: length_pkt xdp_wf_def)
  ultimately have len: "d + 178 \<le> length ?f" by linarith
  have "reply_headers (take d ?f @ drop d ?f) d =
      take d ?f @ swapped_headers (segment 128 50 (drop d ?f)) @ drop 50 (drop d ?f)"
    using len by (intro reply_headers_append) simp_all
  moreover have "length (swapped_headers (segment 128 50 (drop d ?f))) = 50" using len by simp
  ultimately have "drop (d + 128) (reply_headers ?f d) = drop (d + 128) ?f"
    using len by (simp add: add.commute)
  moreover have "xdp_data (move_head (prepared x) 78) = d + 128" using e by (simp add: prepared_def)
  ultimately show ?thesis using e by (simp add: pkt_def segment_def) (simp add: prepared_def)
qed

lemma write_reply_entry_other:
  assumes "entry_wf e" and "ce_valid e \<noteq> 0" and "mk_hash key = ce_hash e"
    and "length (mk_data key) = BMC_MAX_KEY_LENGTH" and "unat (mk_len key) \<le> BMC_MAX_KEY_LENGTH"
    and "take (unat (mk_len key)) (mk_data key) \<noteq> segment 6 (unat (mk_len key)) (ce_data e)"
  shows "write_reply_entry key e x = (False, 0, x)"
  using assms by (simp add: write_reply_entry_def Let_def min_absorb2 key_compare_loop_segment entry_wf_def)

text \<open>
  An entry with the hash of the key that names another key: the request goes to memcached as it
  came, counted as a miss and as a wrong prediction.
\<close>

lemma receive_one_other:
  assumes "bpf_linux h B" and "get_for h x hdr k" and "keys_wf s" and "potential_hit (kcache s) k"
    and "e = kcache s (cache_index (fnv k))" and "entry_wf e" and "segment 6 (length k) (ce_data e) \<noteq> k" and "3 \<le> n"
  shows "\<exists>s' x'. xdp_receive B n s x = (XDP_PASS, s', x') \<and> pkt x' = pkt x \<and> kcache s' = kcache s \<and>
    stats s' = (stats s)\<lparr>get_recv_count := get_recv_count (stats s) + 1, miss_count := miss_count (stats s) + 1,
      hit_misprediction := hit_misprediction (stats s) + 1\<rparr>"
proof -
  obtain m rest where g: "xdp_wf x" "pkt x = get_request hdr m [k] rest" "udp_to_memcached hdr" "valid_key k"
    "4 + m < BMC_MAX_PACKET_LENGTH" "length (pkt x) < 65000" "h + 128 \<le> xdp_data x"
    "14 \<le> length k + 1 + length rest"
    using get_forD [OF assms(2)] .
  obtain j where n: "n = length [k] + Suc (Suc j)" using assms(8) by (auto simp: numeral_3_eq_3 dest: le_Suc_ex)
  let ?s = "note_key (start_get s (4 + m)) k"
  have len: "52 \<le> length (pkt x)" using g(2,3) by (simp add: get_request_def udp_to_memcached_def)
  have "\<exists>s'. bmc_write_reply_main B ?s (prepared x) = (Return XDP_PASS, s', move_head (prepared x) 78) \<and>
      kcache s' = kcache s \<and>
      stats s' = (stats s)\<lparr>get_recv_count := get_recv_count (stats s) + 1, miss_count := miss_count (stats s) + 1,
        hit_misprediction := hit_misprediction (stats s) + 1\<rparr>"
  proof -
    have saved: "key_saved (keys ?s 0) k"
      using key_saved_note [of "start_get s (4 + m)" k] assms(3,4) g(4) by (simp add: keys_wf_def)
    then have "write_reply_entry (keys ?s 0) e (prepared x) = (False, 0, prepared x)"
      using assms(4-7) g(4)
      by (intro write_reply_entry_other) (auto simp: key_saved_def valid_key_def potential_hit_def)
    moreover have "xdp_adjust_head B (prepared x) 78 = Some (move_head (prepared x) 78)"
      using g(1,7) len by (intro linux_head [OF assms(1)]) (auto simp: prepared_def length_pkt xdp_wf_def)
    moreover have "xdp_data (prepared x) < xdp_data_end (prepared x)"
      using g(1) len by (auto simp: prepared_def length_pkt)
    moreover have "lookup_elem B map_keys 0" using bpf_linux_laws [OF assms(1)] by (simp add: bpf_lookup)
    ultimately show ?thesis
      using saved assms(4,5) bpf_linux_laws [OF assms(1)]
      by (simp add: bmc_write_reply_main_def write_reply_next_def Let_def key_saved_def)
  qed
  moreover have "xdp_receive B n s x = run_xdp B (Suc j) (Tail_call BMC_PROG_XDP_WRITE_REPLY XDP_PASS, ?s, prepared x)"
    using receive_get [OF assms(1) g(1-3) _ _ g(5) _ _ assms(3) _, of "Suc (Suc j)"] g(4,6-8) assms(4)
      prepare_packet_ok [OF assms(1) g(1,7) len] unfolding n by simp
  moreover have "pkt (move_head (prepared x) 78) = pkt x" using g(1,7) len by (intro pkt_prepared_back) simp_all
  ultimately show ?thesis by auto
qed

text \<open>
  C2.  Correctness of the in-kernel GET path.  A request for at most thirty keys, of which
  those that may be cached are served by their entries, is answered on the wire: the packet sent
  has the request's headers with source and destination exchanged and completed for the new length,
  and its payload is the cached replies of the hit keys in request order, ended by \<^verbatim>\<open>END\<close>.
  The cache is untouched, and hits and misses are counted per key.  The packet must have room for an Ethernet
  header behind the start of its last key and, while the replies are written, behind each of them but the last.
\<close>

theorem get_hit_reply:
  assumes "bpf_linux h B" and "xdp_wf x" and "pkt x = get_request hdr m ks rest" and "udp_to_memcached hdr"
    and "ks \<noteq> []" and "list_all valid_key ks" and "4 + m < BMC_MAX_PACKET_LENGTH"
    and "length ks \<le> 30" and "length (pkt x) < 65000" and "keys_wf s" and "h + 128 \<le> xdp_data x"
    and "hits (kcache s) ks \<noteq> []" and "list_all (serves (kcache s)) (hits (kcache s) ks)"
    and "length (reply_payload (kcache s) (hits (kcache s) ks)) \<le> length (pkt x) + 78"
    and "length ks + length (hits (kcache s) ks) < n"
    and "ETH_HLEN \<le> length (last ks) + 1 + length rest"
    and "length (before_last (kcache s) (hits (kcache s) ks)) + ETH_HLEN \<le> length (pkt x) + 78"
  shows "\<exists>s' x'. xdp_receive B n s x = (XDP_TX, s', x') \<and>
    pkt x' = finish_headers (swapped_headers hdr @ reply_payload (kcache s) (hits (kcache s) ks)) 0
               (length (reply_payload (kcache s) (hits (kcache s) ks))) \<and>
    kcache s' = kcache s \<and>
    stats s' = (stats s)\<lparr>get_recv_count := get_recv_count (stats s) + 1,
      miss_count := miss_count (stats s) + of_nat (length ks - length (hits (kcache s) ks)),
      hit_count := hit_count (stats s) + of_nat (length (hits (kcache s) ks))\<rparr>"
proof -
  have "128 \<le> xdp_data x" using assms(11) by simp
  from receive_get_hit [OF assms] pkt_sent_get [OF assms(2-4) this assms(14)] show ?thesis by blast
qed

text \<open>A cache that holds one reply.\<close>

definition one_entry_cache :: "u8 list \<Rightarrow> u8 list \<Rightarrow> u32 \<Rightarrow> bmc_cache_entry" where
  "one_entry_cache k r = (\<lambda>i. zero_entry)(cache_index (fnv k) :=
     zero_entry\<lparr>ce_len := of_nat (length r), ce_valid := 1, ce_hash := fnv k,
       ce_data := memcpy_at (ce_data zero_entry) 0 r\<rparr>)"

lemma one_entry_cache_serves:
  assumes "0 < length r" and "length r \<le> BMC_MAX_CACHE_DATA_SIZE" and "take (length k) (drop 6 r) = k" and "6 + length k \<le> length r"
  shows "serves (one_entry_cache k r) k" and "reply_of (one_entry_cache k r) k = r"
  using assms
  by (simp_all add: serves_def reply_of_def one_entry_cache_def zero_entry_def entry_wf_def cached_def
      memcpy_at_def segment_def)

theorem get_hit_reply_witness:
  "\<exists>s' x'. xdp_receive bpf_ref 3 (initial_state\<lparr>kcache := one_entry_cache (bytes ''user:1234567'') (bytes ''VALUE user:1234567 0 1'' @ [13, 10, 65, 13, 10])\<rparr>)
      (xdp_of (get_request (sample_udp 5000 11211) 0 [bytes ''user:1234567''] [chr_nl])) = (XDP_TX, s', x') \<and>
    pkt x' = finish_headers (swapped_headers (sample_udp 5000 11211) @ bytes ''VALUE user:1234567 0 1'' @ [13, 10, 65, 13, 10] @ end_marker) 0 32 \<and>
    hit_count (stats s') = 1"
proof -
  let ?k = "bytes ''user:1234567''" and ?r = "bytes ''VALUE user:1234567 0 1'' @ [13, 10, 65, 13, 10]"
  let ?c = "one_entry_cache ?k ?r"
  let ?s = "initial_state\<lparr>kcache := ?c\<rparr>" and ?p = "get_request (sample_udp 5000 11211) 0 [?k] [chr_nl]"
  have r: "serves ?c ?k" "reply_of ?c ?k = ?r" by (intro one_entry_cache_serves; simp)+
  then have hits: "hits (kcache ?s) [?k] = [?k]" by (simp add: serves_potential_hit del: bytes_simps)
  then have pay: "reply_payload (kcache ?s) (hits (kcache ?s) [?k]) = ?r @ end_marker"
    using r by (simp add: reply_payload_def del: bytes_simps)
  have "list_all valid_key [?k]" by (simp add: valid_key_def key_byte_def)
  moreover have "length ?p = 68" by (simp add: get_request_def sample_defs)
  moreover have "keys_wf ?s" by (simp add: keys_wf_def initial_state_def)
  moreover have "list_all (serves (kcache ?s)) (hits (kcache ?s) [?k])" using hits r by (simp del: bytes_simps)
  moreover have len: "length (?r @ end_marker) = 32" by simp
  ultimately have "\<exists>s' x'. xdp_receive bpf_ref 3 ?s (xdp_of ?p) = (XDP_TX, s', x') \<and>
      pkt x' = finish_headers (swapped_headers (sample_udp 5000 11211) @ ?r @ end_marker) 0 (length (?r @ end_marker)) \<and>
      kcache s' = kcache ?s \<and>
      stats s' = (stats ?s)\<lparr>get_recv_count := get_recv_count (stats ?s) + 1,
        miss_count := miss_count (stats ?s) + of_nat (length [?k] - length [?k]),
        hit_count := hit_count (stats ?s) + of_nat (length [?k])\<rparr>"
    using get_hit_reply [of 32 bpf_ref "xdp_of ?p" "sample_udp 5000 11211" 0 "[?k]" "[chr_nl]" ?s 3] pay hits
    by (simp del: bytes_simps append_assoc)
  from this [unfolded len] show ?thesis by (auto simp: initial_state_def)
qed

end
