(* ===== verification/Bmc_Tx.thy ===== *)
theory Bmc_Tx
  imports Bmc_Data
begin

text \<open>
  The transmit path (\<^verbatim>\<open>bmc_tx_filter_main\<close> and \<^verbatim>\<open>bmc_update_cache_main\<close> of
  \<^verbatim>\<open>src/bmc/bmc_kern.c\<close>): replies to GET requests are recognised on egress and their first
  VALUE record is stored in the cache entry its key maps to.
\<close>

section \<open>bmc\_tx\_filter\<close>

definition is_value :: "u8 list \<Rightarrow> nat \<Rightarrow> bool" where
  "is_value d p \<longleftrightarrow>
     d ! p = asc CHR ''V'' \<and> d ! (p + 1) = asc CHR ''A'' \<and> d ! (p + 2) = asc CHR ''L'' \<and>
     d ! (p + 3) = asc CHR ''U'' \<and> d ! (p + 4) = asc CHR ''E'' \<and> d ! (p + 5) = asc CHR '' ''"

definition bmc_tx_filter_main ::
  "bpf \<Rightarrow> bmc_state \<Rightarrow> sk_buff \<Rightarrow> tc_prog outcome \<times> bmc_state" where
  "bmc_tx_filter_main B s skb =
     (let d = skb_data skb; ip = sizeof_ethhdr; udp = sizeof_ethhdr + sizeof_iphdr; payload = udp_headers in
      if unat (skb_len skb) > BMC_MAX_CACHE_DATA_SIZE + udp_headers then (Return TC_ACT_OK, s)
      else if ip + sizeof_iphdr > length d then (Return XDP_PASS, s)
      else if d ! (ip + 9) \<noteq> IPPROTO_UDP then (Return TC_ACT_OK, s)
      else if udp + sizeof_udphdr > length d then (Return TC_ACT_OK, s)
      else if get_be16 d udp = 11211 \<and> payload + 5 + 1 \<le> length d \<and> is_value d payload then
        if \<not> lookup_elem B map_stats 0 then (Return XDP_PASS, s)
        else (Tail_call BMC_PROG_TC_UPDATE_CACHE TC_ACT_OK,
              s\<lparr>stats := (stats s)\<lparr>get_resp_count := get_resp_count (stats s) + 1\<rparr>\<rparr>)
      else (Return TC_ACT_OK, s))"

section \<open>bmc\_update\_cache\<close>

text \<open>The key hash, from offset \<open>off\<close> of the payload \<open>d\<close> on.\<close>

function update_hash_loop :: "u8 list \<Rightarrow> nat \<Rightarrow> u32 \<Rightarrow> u32" where
  "update_hash_loop d off hash =
     (if off - 6 < BMC_MAX_KEY_LENGTH \<and> off + 1 \<le> length d \<and> d ! off \<noteq> chr_sp
      then update_hash_loop d (off + 1) (fnv_round hash (d ! off)) else hash)"
  by pat_completeness auto
termination
  by (relation "measure (\<lambda>(d, off, h). length d - off)") auto

declare update_hash_loop.simps [simp del]

text \<open>The comparison of the reply's key with the stored one; \<open>True\<close> when they differ.\<close>

function update_diff_loop :: "u8 list \<Rightarrow> bmc_cache_entry \<Rightarrow> nat \<Rightarrow> bool" where
  "update_diff_loop d entry off =
     (if off - 6 < BMC_MAX_KEY_LENGTH \<and> off + 1 \<le> length d \<and> off < unat (ce_len entry) \<and>
         (d ! off \<noteq> chr_sp \<or> ce_data entry ! off \<noteq> chr_sp)
      then if ce_data entry ! off \<noteq> d ! off then True else update_diff_loop d entry (off + 1)
      else False)"
  by pat_completeness auto
termination
  by (relation "measure (\<lambda>(d, e, off). length d - off)") auto

declare update_diff_loop.simps [simp del]

text \<open>The copy of the reply up to its second newline: entry and number of newlines seen.\<close>

function update_copy_loop :: "u8 list \<Rightarrow> nat \<Rightarrow> nat \<Rightarrow> bmc_cache_entry \<Rightarrow> bmc_cache_entry \<times> nat" where
  "update_copy_loop d j count entry =
     (if j < BMC_MAX_CACHE_DATA_SIZE \<and> j + 1 \<le> length d \<and> count < 2 then
        update_copy_loop d (j + 1) (if d ! j = chr_nl then count + 1 else count)
          (entry\<lparr>ce_data := memcpy_at (ce_data entry) j [d ! j], ce_len := ce_len entry + 1\<rparr>)
      else (entry, count))"
  by pat_completeness auto
termination
  by (relation "measure (\<lambda>(d, j, c, e). length d - j)") auto

declare update_copy_loop.simps [simp del]

text \<open>The program on the payload \<open>d\<close> of the reply.\<close>

definition update_cache_payload :: "bpf \<Rightarrow> bmc_state \<Rightarrow> u8 list \<Rightarrow> tc_prog outcome \<times> bmc_state" where
  "update_cache_payload B s d =
     (let hash = update_hash_loop d 6 FNV_OFFSET_BASIS_32; cache_idx = cache_index hash in
      if \<not> lookup_elem B map_kcache cache_idx then (Return TC_ACT_OK, s)
      else
        let entry = kcache s cache_idx in
        if ce_valid entry \<noteq> 0 \<and> ce_hash entry = hash \<and> \<not> update_diff_loop d entry 6
        then (Return TC_ACT_OK, s)
        else
          let (entry1, count) = update_copy_loop d 0 0 (entry\<lparr>ce_len := 0\<rparr>) in
          if count = 2 then
            let s1 = s\<lparr>kcache := (kcache s)(cache_idx := entry1\<lparr>ce_valid := 1, ce_hash := hash\<rparr>)\<rparr> in
            if \<not> lookup_elem B map_stats 0 then (Return XDP_PASS, s1)
            else (Return TC_ACT_OK,
                  s1\<lparr>stats := (stats s1)\<lparr>update_count := update_count (stats s1) + 1\<rparr>\<rparr>)
          else (Return TC_ACT_OK, s\<lparr>kcache := (kcache s)(cache_idx := entry1)\<rparr>))"

definition bmc_update_cache_main :: "bpf \<Rightarrow> bmc_state \<Rightarrow> sk_buff \<Rightarrow> tc_prog outcome \<times> bmc_state" where
  "bmc_update_cache_main B s skb = update_cache_payload B s (drop udp_headers (skb_data skb))"

section \<open>Facts on the loops\<close>

lemma update_hash_loop_takeWhile:
  assumes "6 \<le> off"
  shows "update_hash_loop d off h = fnv1a_hash32 (takeWhile (\<lambda>c. c \<noteq> chr_sp) (take (256 - off) (drop off d))) h"
  using assms
proof (induction d off h rule: update_hash_loop.induct)
  case (1 d off h)
  show ?case
  proof (cases "off < 256 \<and> off < length d")
    case False
    then have "take (256 - off) (drop off d) = []" by auto
    with False "1.prems" show ?thesis by (subst update_hash_loop.simps) auto
  next
    case True
    then have "take (256 - off) (drop off d) = d ! off # take (256 - (off + 1)) (drop (off + 1) d)"
      by (simp add: Cons_nth_drop_Suc [symmetric] take_Cons')
    with True "1.IH" "1.prems" show ?thesis by (subst update_hash_loop.simps) auto
  qed
qed

text \<open>The bytes up to and including the \<open>n\<close>-th newline.\<close>

fun take_lines :: "nat \<Rightarrow> u8 list \<Rightarrow> u8 list" where
  "take_lines 0 xs = []"
| "take_lines (Suc n) [] = []"
| "take_lines (Suc n) (c # xs) = c # take_lines (if c = chr_nl then n else Suc n) xs"

lemma take_lines_Nil [simp]: "take_lines n [] = []"
  by (cases n) simp_all

lemma length_take_lines: "length (take_lines n xs) \<le> length xs"
  by (induction n xs rule: take_lines.induct) auto

lemma take_lines_take: "take_lines n xs = take (length (take_lines n xs)) xs"
  by (induction n xs rule: take_lines.induct) auto

lemma count_take_lines: "count_list (take_lines n xs) chr_nl \<le> n"
proof (induction n xs rule: take_lines.induct)
  case (3 n c xs)
  then show ?case by (cases "c = chr_nl") auto
qed simp_all

lemma take_lines_append_line:
  "chr_nl \<notin> set a \<Longrightarrow> take_lines (Suc n) (a @ chr_nl # xs) = a @ chr_nl # take_lines n xs"
  by (induction a) auto

lemma update_copy_loop_take_lines:
  assumes "length (ce_data e) = BMC_MAX_CACHE_DATA_SIZE" and "count \<le> 2" and "j \<le> BMC_MAX_CACHE_DATA_SIZE"
  shows "update_copy_loop d j count e =
    (let p = take_lines (2 - count) (drop j (take BMC_MAX_CACHE_DATA_SIZE d))
     in (e\<lparr>ce_data := memcpy_at (ce_data e) j p, ce_len := ce_len e + of_nat (length p)\<rparr>,
         count + count_list p chr_nl))"
  using assms
proof (induction d j count e rule: update_copy_loop.induct)
  case (1 d j count e)
  let ?rest = "drop j (take BMC_MAX_CACHE_DATA_SIZE d)"
  show ?case
  proof (cases "j < BMC_MAX_CACHE_DATA_SIZE \<and> j < length d \<and> count < 2")
    case False
    then have "take_lines (2 - count) ?rest = []" using "1.prems" by (cases "count = 2") auto
    with False show ?thesis by (subst update_copy_loop.simps) auto
  next
    case True
    let ?c = "d ! j"
    let ?e = "e\<lparr>ce_data := memcpy_at (ce_data e) j [?c], ce_len := ce_len e + 1\<rparr>"
    let ?n = "if ?c = chr_nl then count + 1 else count"
    let ?p = "take_lines (2 - ?n) (drop (j + 1) (take BMC_MAX_CACHE_DATA_SIZE d))"
    have "?rest = ?c # drop (j + 1) (take BMC_MAX_CACHE_DATA_SIZE d)"
      using True by (simp add: Cons_nth_drop_Suc [symmetric])
    moreover obtain m where m: "2 - count = Suc m" using True by (metis Suc_diff_Suc)
    moreover from m have "m = 2 - (count + 1)" by simp
    ultimately have p: "take_lines (2 - count) ?rest = ?c # ?p" by auto
    have step: "update_copy_loop d j count e = update_copy_loop d (j + 1) ?n ?e"
      using True by (subst update_copy_loop.simps) simp
    have "length ?p \<le> BMC_MAX_CACHE_DATA_SIZE - (j + 1)"
      using length_take_lines [of "2 - ?n" "drop (j + 1) (take BMC_MAX_CACHE_DATA_SIZE d)"] by simp
    then have "memcpy_at (memcpy_at (ce_data e) j [?c]) (j + 1) ?p = memcpy_at (ce_data e) j (?c # ?p)"
      using True "1.prems"(1) by (intro memcpy_at_Cons) linarith
    with "1.IH" True "1.prems" show ?thesis
      unfolding step p by (cases "?c = chr_nl") (simp_all add: Let_def)
  qed
qed

section \<open>Replies that hold a VALUE record\<close>

definition value_record :: "u8 list \<Rightarrow> u8 list \<Rightarrow> u8 list \<Rightarrow> u8 list" where
  "value_record k meta v = bytes ''VALUE '' @ k @ chr_sp # meta @ [chr_cr, chr_nl] @ v @ [chr_cr, chr_nl]"

text \<open>What the cache can take: no newline before the two that end the lines, and a record that fits.\<close>

definition storable :: "u8 list \<Rightarrow> u8 list \<Rightarrow> u8 list \<Rightarrow> bool" where
  "storable k meta v \<longleftrightarrow> length k \<le> BMC_MAX_KEY_LENGTH \<and> chr_sp \<notin> set k \<and> chr_nl \<notin> set k \<and>
     chr_nl \<notin> set meta \<and> chr_nl \<notin> set v \<and> length (value_record k meta v) \<le> BMC_MAX_CACHE_DATA_SIZE"

text \<open>The key a stored reply names.\<close>

definition reply_key :: "u8 list \<Rightarrow> u8 list" where
  "reply_key r = takeWhile (\<lambda>c. c \<noteq> chr_sp) (drop 6 r)"

lemma takeWhile_upto: "x \<notin> set k \<Longrightarrow> takeWhile (\<lambda>c. c \<noteq> x) (k @ x # r) = k"
  by (induction k) auto

lemma reply_key_record: "chr_sp \<notin> set k \<Longrightarrow> reply_key (value_record k meta v @ rest) = k"
  by (simp add: reply_key_def value_record_def takeWhile_upto)

lemma takeWhile_take_upto:
  assumes "x \<notin> set k" and "length k \<le> n"
  shows "takeWhile (\<lambda>c. c \<noteq> x) (take n (k @ x # r)) = k"
proof (cases "n - length k")
  case 0
  have "takeWhile (\<lambda>c. c \<noteq> x) k = k" using assms(1) by (auto simp: takeWhile_eq_all_conv)
  with 0 show ?thesis using assms(2) by simp
next
  case (Suc m)
  then show ?thesis using assms by (simp add: takeWhile_upto)
qed

lemma update_hash_value:
  assumes "chr_sp \<notin> set k" and "length k \<le> BMC_MAX_KEY_LENGTH"
  shows "update_hash_loop (value_record k meta v @ rest) 6 FNV_OFFSET_BASIS_32 = fnv k"
proof -
  let ?t = "meta @ [chr_cr, chr_nl] @ v @ [chr_cr, chr_nl] @ rest"
  have "drop 6 (value_record k meta v @ rest) = k @ chr_sp # ?t" by (simp add: value_record_def)
  then show ?thesis
    using update_hash_loop_takeWhile [of 6 "value_record k meta v @ rest"] takeWhile_take_upto [OF assms]
    by (simp add: fnv_def)
qed

lemma update_hash_record:
  "storable k meta v \<Longrightarrow> update_hash_loop (value_record k meta v @ rest) 6 FNV_OFFSET_BASIS_32 = fnv k"
  by (rule update_hash_value) (simp_all add: storable_def)

lemma take_lines_two:
  "chr_nl \<notin> set a \<Longrightarrow> chr_nl \<notin> set b \<Longrightarrow>
   take_lines 2 (a @ chr_nl # b @ chr_nl # q) = a @ chr_nl # b @ [chr_nl]"
  by (simp add: numeral_2_eq_2 take_lines_append_line)

lemma take_lines_record:
  assumes "storable k meta v"
  shows "take_lines 2 (take BMC_MAX_CACHE_DATA_SIZE (value_record k meta v @ rest)) = value_record k meta v"
proof -
  let ?r = "value_record k meta v"
  let ?a = "bytes ''VALUE '' @ k @ chr_sp # meta @ [chr_cr]" and ?b = "v @ [chr_cr]"
  have r: "?r = ?a @ chr_nl # ?b @ [chr_nl]" by (simp add: value_record_def)
  have "chr_nl \<notin> set ?a" "chr_nl \<notin> set ?b" using assms by (auto simp: storable_def)
  then have "take_lines 2 (?a @ chr_nl # ?b @ chr_nl # take (1303 - length ?r) rest) = ?r"
    unfolding r by (rule take_lines_two)
  moreover have "take 1303 (?r @ rest) = ?r @ take (1303 - length ?r) rest"
    using assms by (simp add: storable_def)
  moreover have "?r @ q = ?a @ chr_nl # ?b @ chr_nl # q" for q by (simp add: r)
  ultimately show ?thesis by metis
qed

lemma count_record:
  assumes "storable k meta v"
  shows "count_list (value_record k meta v) chr_nl = 2"
proof -
  have "count_list k chr_nl = 0" "count_list meta chr_nl = 0" "count_list v chr_nl = 0"
    using assms by (simp_all add: storable_def count_list_0_iff)
  then show ?thesis by (simp add: value_record_def)
qed

lemma cached_nth: "i < unat (ce_len e) \<Longrightarrow> cached e ! i = ce_data e ! i"
  by (simp add: cached_def)

lemma drop_cached_nth:
  assumes "drop off (cached e) = b @ c # r"
  shows "off + length b < unat (ce_len e)" and "i \<le> length b \<Longrightarrow> ce_data e ! (off + i) = (b @ [c]) ! i"
proof -
  have "length (drop off (cached e)) = length b + 1 + length r" by (simp add: assms)
  then have len: "off + length b < length (cached e)" by simp
  then show "off + length b < unat (ce_len e)" by (simp add: cached_def)
  assume i: "i \<le> length b"
  then have "cached e ! (off + i) = (b @ c # r) ! i" using len assms nth_drop [of off "cached e" i] by simp
  moreover have "(b @ c # r) ! i = (b @ [c]) ! i" using i by (auto simp: nth_append)
  moreover have "cached e ! (off + i) = ce_data e ! (off + i)"
    using i len by (intro cached_nth) (simp add: cached_def)
  ultimately show "ce_data e ! (off + i) = (b @ [c]) ! i" by simp
qed

text \<open>
  The loop compares the key of the payload, and the space behind it, with the stored reply \<open>r\<close>: at most
  250 bytes, and not beyond the end of the stored reply.
\<close>

definition key_agrees :: "u8 list \<Rightarrow> u8 list \<Rightarrow> bool" where
  "key_agrees k r \<longleftrightarrow>
     (let w = take BMC_MAX_KEY_LENGTH (k @ [chr_sp]); c = drop 6 r in take (length w) c = take (length c) w)"

lemma update_diff_loop_agrees:
  assumes "drop off d = a @ chr_sp # r" and "chr_sp \<notin> set a" and "6 \<le> off" and "off + length a \<le> 256"
    and "length (ce_data e) = BMC_MAX_CACHE_DATA_SIZE"
    and "w = take (256 - off) (a @ [chr_sp])" and "c = drop off (cached e)"
  shows "update_diff_loop d e off \<longleftrightarrow> take (length w) c \<noteq> take (length c) w"
  using assms
proof (induction a arbitrary: off w c)
  case Nil
  note d = drop_step(1,2) [of off d, OF Nil.prems(1) [simplified]]
  have c: "off < unat (ce_len e) \<and> c \<noteq> [] \<and> hd c = ce_data e ! off \<or> unat (ce_len e) \<le> off \<and> c = []"
    if "off < 256"
  proof (cases "off < length (cached e)")
    case True
    then show ?thesis
      using Nil.prems(7) by (simp add: hd_drop_conv_nth cached_nth) (simp add: cached_def)
  next
    case False
    then show ?thesis using Nil.prems(5,7) that by (simp add: cached_def)
  qed
  show ?case
  proof (cases "off < 256")
    case True
    then have "w = [chr_sp]" using Nil.prems(6) by (simp add: take_Cons')
    then show ?thesis
      using c [OF True] d Nil.prems(3) True by (subst update_diff_loop.simps) (cases c, auto)
  next
    case False
    then show ?thesis using Nil.prems(3,6) by (subst update_diff_loop.simps) auto
  qed
next
  case (Cons y a)
  note d = drop_step [of off d y "a @ chr_sp # r", OF Cons.prems(1) [simplified]]
  have off: "off < 256" using Cons.prems(4) by simp
  let ?w = "take (256 - (off + 1)) (a @ [chr_sp])"
  have w: "w = y # ?w" using off Cons.prems(6) by (simp add: take_Cons')
  show ?case
  proof (cases "off < length (cached e)")
    case True
    then have c: "c = ce_data e ! off # drop (off + 1) (cached e)"
      using Cons.prems(7) by (simp add: Cons_nth_drop_Suc [symmetric] cached_nth) (simp add: cached_def)
    have len: "off < unat (ce_len e)" using True by (simp add: cached_def)
    have "update_diff_loop d e off \<longleftrightarrow> ce_data e ! off \<noteq> y \<or> update_diff_loop d e (off + 1)"
      using d Cons.prems(2,3) off len by (subst update_diff_loop.simps) auto
    moreover have "update_diff_loop d e (off + 1) \<longleftrightarrow>
        take (length ?w) (drop (off + 1) (cached e)) \<noteq> take (length (drop (off + 1) (cached e))) ?w"
      using Cons.prems by (intro Cons.IH [OF d(3)]) simp_all
    ultimately show ?thesis unfolding w c by auto
  next
    case False
    then have "c = []" "unat (ce_len e) \<le> off" using Cons.prems(5,7) off by (simp_all add: cached_def)
    then show ?thesis by (subst update_diff_loop.simps) simp
  qed
qed

lemma update_diff_value:
  assumes "chr_sp \<notin> set k" and "length k \<le> BMC_MAX_KEY_LENGTH" and "entry_wf e"
  shows "update_diff_loop (value_record k meta v @ rest) e 6 \<longleftrightarrow> \<not> key_agrees k (cached e)"
  using assms
    update_diff_loop_agrees [of 6 "value_record k meta v @ rest" k "meta @ [chr_cr, chr_nl] @ v @ [chr_cr, chr_nl] @ rest" e]
  by (simp add: value_record_def key_agrees_def entry_wf_def Let_def)

text \<open>For a stored record, the keys are compared as a whole.\<close>

lemma take_agrees:
  assumes "chr_sp \<notin> set a" and "chr_sp \<notin> set b" and "length a \<le> n" and "length b \<le> n"
    and "w = take n (a @ [chr_sp])" and "c = b @ chr_sp # r" and "take (length w) c = take (length c) w"
  shows "a = b"
  using assms
proof (induction a arbitrary: b n w c)
  case Nil
  then show ?case by (cases b; cases n) auto
next
  case (Cons x a)
  from Cons.prems obtain n' where n: "n = Suc n'" by (cases n) auto
  from Cons.prems n obtain b' where b: "b = x # b'" by (cases b) auto
  have "a = b'"
    using Cons.prems n b by (intro Cons.IH [of b' n' "take n' (a @ [chr_sp])" "b' @ chr_sp # r"]) auto
  with b show ?case by simp
qed

text \<open>The entry holds a record for the key \<open>k\<close>.\<close>

definition holds_record :: "bmc_cache_entry \<Rightarrow> u8 list \<Rightarrow> u8 list \<Rightarrow> u8 list \<Rightarrow> bool" where
  "holds_record e k meta v \<longleftrightarrow> storable k meta v \<and> cached e = value_record k meta v"

lemma key_agrees_record:
  assumes "length k \<le> BMC_MAX_KEY_LENGTH" and "chr_sp \<notin> set k" and "storable k' meta v"
  shows "key_agrees k (value_record k' meta v) \<longleftrightarrow> k = k'"
proof
  assume "key_agrees k (value_record k' meta v)"
  then show "k = k'"
    using assms
    by (intro take_agrees [of k k' 250 _ _ "meta @ [chr_cr, chr_nl] @ v @ [chr_cr, chr_nl]", OF _ _ _ _ refl refl])
      (auto simp: key_agrees_def value_record_def storable_def Let_def)
next
  assume "k = k'"
  then show "key_agrees k (value_record k' meta v)"
    by (simp add: key_agrees_def value_record_def Let_def min_def take_Cons')
qed

section \<open>What an update stores\<close>

text \<open>The entry after a record \<open>r\<close> with the key hash \<open>h\<close> was stored in it.\<close>

definition store_entry :: "bmc_cache_entry \<Rightarrow> u32 \<Rightarrow> u8 list \<Rightarrow> bmc_cache_entry" where
  "store_entry e h r =
     e\<lparr>ce_data := memcpy_at (ce_data e) 0 r, ce_len := of_nat (length r), ce_valid := 1, ce_hash := h\<rparr>"

lemma store_entry_simps [simp]:
  "ce_valid (store_entry e h r) = 1" "ce_hash (store_entry e h r) = h"
  by (simp_all add: store_entry_def)

lemma cached_memcpy:
  "entry_wf e \<Longrightarrow> length r \<le> BMC_MAX_CACHE_DATA_SIZE \<Longrightarrow>
   cached (e\<lparr>ce_data := memcpy_at (ce_data e) 0 r, ce_len := of_nat (length r)\<rparr>) = r"
  by (simp add: entry_wf_def cached_def memcpy_at_def)

lemma store_entry_wf:
  assumes "entry_wf e" and "length r \<le> BMC_MAX_CACHE_DATA_SIZE"
  shows "entry_wf (store_entry e h r)" and "cached (store_entry e h r) = r"
  using assms by (simp_all add: entry_wf_def store_entry_def cached_def memcpy_at_def)

text \<open>
  The copy, whatever the payload: the stored bytes are the payload up to its second newline,
  cut at the size of an entry.
\<close>

definition copied :: "u8 list \<Rightarrow> u8 list" where
  "copied d = take_lines 2 (take BMC_MAX_CACHE_DATA_SIZE d)"

lemma length_copied: "length (copied d) \<le> BMC_MAX_CACHE_DATA_SIZE"
  using length_take_lines [of 2 "take BMC_MAX_CACHE_DATA_SIZE d"] by (simp add: copied_def)

lemma update_copy_copied:
  assumes "entry_wf e"
  shows "update_copy_loop d 0 0 (e\<lparr>ce_len := 0\<rparr>) =
    (e\<lparr>ce_data := memcpy_at (ce_data e) 0 (copied d), ce_len := of_nat (length (copied d))\<rparr>,
     count_list (copied d) chr_nl)"
  using assms update_copy_loop_take_lines [of "e\<lparr>ce_len := 0\<rparr>" 0 0 d]
  by (simp add: entry_wf_def copied_def Let_def)

text \<open>The key test that decides whether the entry is left alone.\<close>

definition up_to_date :: "bmc_cache_entry \<Rightarrow> u8 list \<Rightarrow> bool" where
  "up_to_date e d \<longleftrightarrow>
     ce_valid e \<noteq> 0 \<and> ce_hash e = update_hash_loop d 6 FNV_OFFSET_BASIS_32 \<and> \<not> update_diff_loop d e 6"

text \<open>One entry after an update with the payload \<open>d\<close>.\<close>

definition updated_entry :: "bmc_cache_entry \<Rightarrow> u8 list \<Rightarrow> bmc_cache_entry" where
  "updated_entry e d =
     (if up_to_date e d then e
      else if count_list (copied d) chr_nl = 2
      then store_entry e (update_hash_loop d 6 FNV_OFFSET_BASIS_32) (copied d)
      else e\<lparr>ce_data := memcpy_at (ce_data e) 0 (copied d), ce_len := of_nat (length (copied d))\<rparr>)"

lemma update_cache_kcache:
  assumes "bpf_laws B" and "cache_wf (kcache s)"
  shows "kcache (snd (update_cache_payload B s d)) =
    (let i = cache_index (update_hash_loop d 6 FNV_OFFSET_BASIS_32)
     in (kcache s)(i := updated_entry (kcache s i) d))"
proof -
  let ?i = "cache_index (update_hash_loop d 6 FNV_OFFSET_BASIS_32)"
  have "entry_wf (kcache s ?i)" using assms(2) by (simp add: cache_wf_def)
  from update_copy_copied [OF this, of d] show ?thesis
    using assms(1)
    by (auto simp: update_cache_payload_def updated_entry_def up_to_date_def store_entry_def Let_def fun_eq_iff)
qed

lemma updated_entry_wf:
  assumes "entry_wf e"
  shows "entry_wf (updated_entry e d)"
  using assms store_entry_wf(1) [OF assms length_copied] length_copied [of d]
  by (auto simp: updated_entry_def entry_wf_def)

lemma cached_updated_entry:
  assumes "entry_wf e" and "\<not> up_to_date e d"
  shows "cached (updated_entry e d) = copied d"
  using assms store_entry_wf(2) [OF assms(1) length_copied] length_copied [of d]
  by (auto simp: updated_entry_def entry_wf_def cached_def memcpy_at_def)

lemma copied_record: "storable k meta v \<Longrightarrow> copied (value_record k meta v @ rest) = value_record k meta v"
  unfolding copied_def by (rule take_lines_record)

lemma update_cache_record:
  assumes "bpf_laws B" and "cache_wf (kcache s)" and "storable k meta v"
    and "d = value_record k meta v @ rest" and "i = cache_index (fnv k)"
  shows "update_cache_payload B s d =
    (Return TC_ACT_OK,
     if up_to_date (kcache s i) d then s
     else s\<lparr>kcache := (kcache s)(i := store_entry (kcache s i) (fnv k) (value_record k meta v)),
            stats := (stats s)\<lparr>update_count := update_count (stats s) + 1\<rparr>\<rparr>)"
proof -
  have "entry_wf (kcache s i)" using assms(2) by (simp add: cache_wf_def)
  from update_copy_copied [OF this, of d] show ?thesis
    using assms(1,3-5) update_hash_record [OF assms(3), of rest] copied_record [OF assms(3), of rest]
      count_record [OF assms(3)]
    by (simp add: update_cache_payload_def up_to_date_def store_entry_def Let_def)
qed

lemma up_to_date_value:
  assumes "chr_sp \<notin> set k" and "length k \<le> BMC_MAX_KEY_LENGTH" and "entry_wf e"
  shows "up_to_date e (value_record k meta v @ rest) \<longleftrightarrow>
    ce_valid e \<noteq> 0 \<and> ce_hash e = fnv k \<and> key_agrees k (cached e)"
  using assms update_diff_value [OF assms] update_hash_value [OF assms(1,2)] by (simp add: up_to_date_def)

end
