(* ===== verification/Coherent_Cache.thy ===== *)
theory Coherent_Cache
  imports Main
begin

text \<open>
  The contract of a look-aside cache that watches the traffic of the store it caches.  Events
  may bring a value for a key or announce that the key is overwritten; the contract says that
  a step never finds a value that neither the event brought nor was found before, and that
  nothing is found right after an overwriting event.  The lemmas are what a client may conclude over
  any sequence of events.
\<close>

locale coherent_cache =
  fixes find :: "'s \<Rightarrow> 'k \<Rightarrow> 'r option"
    and step :: "'e \<Rightarrow> 's \<Rightarrow> 's"
    and brings :: "'e \<Rightarrow> 'k \<Rightarrow> 'r \<Rightarrow> bool"
    and overwrites :: "'e \<Rightarrow> 'k \<Rightarrow> bool"
    and invar :: "'s \<Rightarrow> bool"
  assumes invar_step: "invar s \<Longrightarrow> invar (step e s)"
    and find_step: "invar s \<Longrightarrow> find (step e s) k = Some r \<Longrightarrow> brings e k r \<or> find s k = Some r"
    and overwrites_step: "invar s \<Longrightarrow> overwrites e k \<Longrightarrow> find (step e s) k = None"
begin

lemma invar_run: "invar s \<Longrightarrow> invar (fold step es s)"
  by (induction es arbitrary: s) (simp_all add: invar_step)

lemma find_origin:
  assumes "invar s" and "find (fold step es s) k = Some r"
  shows "(\<exists>as e bs. es = as @ e # bs \<and> brings e k r \<and> (\<forall>b\<in>set bs. \<not> overwrites b k)) \<or>
    find s k = Some r \<and> (\<forall>b\<in>set es. \<not> overwrites b k)"
  using assms(2)
proof (induction es rule: rev_induct)
  case (snoc e es)
  let ?s = "fold step es s"
  have inv: "invar ?s" using assms(1) by (rule invar_run)
  have found: "find (step e ?s) k = Some r" using snoc.prems by simp
  show ?case
  proof (cases "brings e k r")
    case True
    then show ?thesis by (intro disjI1 exI [of _ es] exI [of _ e] exI [of _ "[]"]) simp
  next
    case False
    with find_step [OF inv found] have old: "find ?s k = Some r" by blast
    have live: "\<not> overwrites e k" using overwrites_step [OF inv] found by fastforce
    from snoc.IH [OF old] show ?thesis
    proof
      assume "\<exists>as e' bs. es = as @ e' # bs \<and> brings e' k r \<and> (\<forall>b\<in>set bs. \<not> overwrites b k)"
      then obtain as e' bs where "es = as @ e' # bs" "brings e' k r" "\<forall>b\<in>set bs. \<not> overwrites b k" by blast
      then have "es @ [e] = as @ e' # (bs @ [e]) \<and> brings e' k r \<and> (\<forall>b\<in>set (bs @ [e]). \<not> overwrites b k)"
        using live by simp
      then show ?thesis by blast
    next
      assume "find s k = Some r \<and> (\<forall>b\<in>set es. \<not> overwrites b k)"
      then show ?thesis using live by simp
    qed
  qed
qed (simp add: assms)

lemma found_after_overwrite:
  assumes "invar s" and "overwrites e k" and "find (fold step (as @ e # bs) s) k = Some r"
  shows "\<exists>b\<in>set bs. brings b k r"
proof -
  let ?s = "step e (fold step as s)"
  have inv: "invar ?s" using assms(1) by (intro invar_step invar_run)
  have none: "find ?s k = None" using assms(1,2) by (intro overwrites_step invar_run)
  from assms(3) have "find (fold step bs ?s) k = Some r" by simp
  from find_origin [OF inv this] none show ?thesis by auto
qed

end

end
