(* ===== verification/Bmc_System.thy ===== *)
theory Bmc_System
  imports Bmc_Serve Bmc_Tx Coherent_Cache
begin

text \<open>
  The two paths together: packets arrive at the receive hook and leave through the traffic-control
  hook in any order.  The theory gives the egress driver, the effect of every
  program on the maps, the invariant of the maps over all packet sequences, and the coherence of
  the cache: what a lookup finds was carried by an outgoing reply, and no SET of the key was
  received since.
\<close>

section \<open>The egress hook\<close>

fun exec_tc :: "bpf \<Rightarrow> tc_prog \<Rightarrow> bmc_state \<Rightarrow> sk_buff \<Rightarrow> tc_prog outcome \<times> bmc_state" where
  "exec_tc B BMC_PROG_TC_UPDATE_CACHE = bmc_update_cache_main B"

fun run_tc :: "bpf \<Rightarrow> nat \<Rightarrow> sk_buff \<Rightarrow> tc_prog outcome \<times> bmc_state \<Rightarrow> int \<times> bmc_state" where
  "run_tc B n skb (Return a, s) = (a, s)"
| "run_tc B 0 skb (Tail_call p a, s) = (a, s)"
| "run_tc B (Suc n) skb (Tail_call p a, s) = run_tc B n skb (exec_tc B p s skb)"

definition tc_transmit :: "bpf \<Rightarrow> nat \<Rightarrow> bmc_state \<Rightarrow> sk_buff \<Rightarrow> int \<times> bmc_state" where
  "tc_transmit B n s skb = run_tc B n skb (bmc_tx_filter_main B s skb)"

section \<open>The invariant of the maps\<close>

definition maps_wf :: "bmc_state \<Rightarrow> bool" where
  "maps_wf s \<longleftrightarrow> cache_wf (kcache s) \<and> keys_wf s"

lemma weaker_cache_wf:
  assumes "weaker_cache c' c" and "cache_wf c"
  shows "cache_wf c'"
  unfolding cache_wf_def
proof
  fix i
  have "c' i = c i \<or> c' i = (c i)\<lparr>ce_valid := 0\<rparr>" "entry_wf (c i)"
    using assms by (simp_all add: weaker_cache_def cache_wf_def)
  then show "entry_wf (c' i)" by (auto simp: entry_wf_def)
qed

text \<open>Programs that leave the cache alone and keep the saved keys inside their arrays.\<close>

definition key_lens :: "bmc_state \<Rightarrow> bool" where
  "key_lens s \<longleftrightarrow> (\<forall>i. unat (mk_len (keys s i)) \<le> BMC_MAX_KEY_LENGTH)"

definition harmless :: "bmc_state \<Rightarrow> bmc_state \<Rightarrow> bool" where
  "harmless s s' \<longleftrightarrow> kcache s' = kcache s \<and> request_count s' = request_count s \<and>
     (keys_wf s \<longrightarrow> keys_wf s') \<and> (key_lens s \<longrightarrow> key_lens s')"

lemma length_save_key_loop: "i + n \<le> length d \<Longrightarrow> length (save_key_loop x i n d) = length d"
  by (induction n arbitrary: i d) simp_all

lemma rx_filter_harmless: "harmless s (fst (snd (bmc_rx_filter_main B s x)))"
  by (simp add: harmless_def keys_wf_def key_lens_def bmc_rx_filter_main_def rx_dispatch_def rx_start_get_def Let_def
      split: option.split)

lemma hash_keys_probe_harmless:
  assumes "n \<le> BMC_MAX_KEY_LENGTH" and "hash_keys_probe B s x n = Some s'"
  shows "harmless s s'"
proof -
  have "unat (of_nat n :: u32) = n" using assms(1) by (intro unat_of_nat_u32) simp
  moreover have "length (save_key_loop x 0 n d) = 250" if "length d = 250" for d
    using assms(1) that by (simp add: length_save_key_loop)
  ultimately show ?thesis
    using assms by (auto simp: harmless_def keys_wf_def key_lens_def hash_keys_probe_def Let_def split: if_splits)
qed

lemma hash_keys_next_harmless: "harmless s (fst (snd (hash_keys_next B s x off d)))"
  by (simp add: harmless_def keys_wf_def key_lens_def hash_keys_next_def Let_def split: option.split)

lemma harmless_trans: "harmless s s1 \<Longrightarrow> harmless s1 s2 \<Longrightarrow> harmless s s2"
  by (simp add: harmless_def)

lemma harmless_hash [simp]: "harmless s (s\<lparr>keys := (keys s)(i := (keys s i)\<lparr>mk_hash := h\<rparr>)\<rparr>)"
  by (simp add: harmless_def keys_wf_def key_lens_def)

lemma harmless_refl [simp]: "harmless s s"
  by (simp add: harmless_def)

lemma hash_keys_harmless: "harmless s (fst (snd (bmc_hash_keys_main B s x)))"
proof -
  have "harmless s (fst (snd (case hash_keys_probe B s1 x n of
      None \<Rightarrow> (Return XDP_PASS, s1, x) | Some s2 \<Rightarrow> hash_keys_next B s2 x off d)))"
    if "n \<le> 250" "harmless s s1" for s1 n off d
    using that by (auto split: option.split intro: harmless_trans
        harmless_trans [OF hash_keys_probe_harmless hash_keys_next_harmless])
  then show ?thesis
    by (auto simp: bmc_hash_keys_main_def Let_def split: prod.split)
qed

lemma prepare_packet_harmless: "harmless s (fst (snd (bmc_prepare_packet_main B s x)))"
  by (simp add: harmless_def bmc_prepare_packet_main_def Let_def split: option.split)

lemma write_reply_next_harmless: "harmless s (fst (snd (write_reply_next B s x n)))"
  by (simp add: harmless_def keys_wf_def key_lens_def write_reply_next_def write_reply_send_def Let_def split: option.split)

lemma write_reply_harmless: "harmless s (fst (snd (bmc_write_reply_main B s x)))"
proof -
  have "harmless s (fst (snd (write_reply_next B s1 x1 n)))"
    if "kcache s1 = kcache s" "request_count s1 = request_count s" "keys s1 = keys s" for s1 x1 n
    using that by (intro harmless_trans [OF _ write_reply_next_harmless]) (simp add: harmless_def keys_wf_def key_lens_def)
  then show ?thesis
    by (simp add: bmc_write_reply_main_def Let_def split: prod.split)
qed

text \<open>What any run of the receive path may do to the maps.\<close>

definition weakens :: "bmc_state \<Rightarrow> bmc_state \<Rightarrow> bool" where
  "weakens s s' \<longleftrightarrow> weaker_cache (kcache s') (kcache s) \<and>
     (keys_wf s \<longrightarrow> keys_wf s') \<and> (key_lens s \<longrightarrow> key_lens s')"

lemma harmless_weakens: "harmless s s' \<Longrightarrow> weakens s s'"
  by (simp add: harmless_def weakens_def)

lemma weakens_trans: "weakens s s1 \<Longrightarrow> weakens s1 s2 \<Longrightarrow> weakens s s2"
  by (auto simp: weakens_def intro: weaker_cache_trans)

lemma inval_loop_keys: "keys (inval_loop B x p off sf kf h s) = keys s"
proof (induction B x p off sf kf h s rule: inval_loop.induct)
  case (1 B x p off sf kf h s)
  then show ?case by (subst inval_loop.simps) (auto simp: invalidate_entry_def)
qed

lemma exec_xdp_weakens: "weakens s (fst (snd (exec_xdp B p s x)))"
proof (cases p)
  case BMC_PROG_XDP_INVALIDATE_CACHE
  then show ?thesis
    by (simp add: weakens_def bmc_invalidate_cache_main_def Let_def inval_loop_weaker inval_loop_keys keys_wf_def key_lens_def)
qed (simp_all add: harmless_weakens hash_keys_harmless prepare_packet_harmless write_reply_harmless)

lemma run_xdp_weakens: "weakens s (fst (snd (run_xdp B n (r, s, x))))"
proof (induction n arbitrary: r s x)
  case 0
  then show ?case by (cases r) (simp_all add: harmless_weakens)
next
  case (Suc n)
  show ?case
  proof (cases r)
    case (Tail_call p a)
    obtain r1 s1 x1 where e: "exec_xdp B p s x = (r1, s1, x1)" by (cases "exec_xdp B p s x")
    then have "weakens s s1" using exec_xdp_weakens [of s B p x] by simp
    then show ?thesis using Suc [of s1 r1 x1] e Tail_call by (auto intro: weakens_trans)
  qed (simp add: harmless_weakens)
qed

lemma xdp_receive_weakens: "weakens s (fst (snd (xdp_receive B n s x)))"
proof -
  obtain r s1 x1 where e: "bmc_rx_filter_main B s x = (r, s1, x1)" by (cases "bmc_rx_filter_main B s x")
  then have "weakens s s1" using rx_filter_harmless [of s B x] by (simp add: harmless_weakens)
  then show ?thesis
    using run_xdp_weakens [of s1 B n r x1] e by (auto simp: xdp_receive_def intro: weakens_trans)
qed

lemma receive_maps_wf: "maps_wf s \<Longrightarrow> maps_wf (fst (snd (xdp_receive B n s x)))"
  using xdp_receive_weakens [of s B n x] by (auto simp: maps_wf_def weakens_def intro: weaker_cache_wf)

section \<open>The egress path on the maps\<close>

lemma tx_filter_state:
  "snd (bmc_tx_filter_main B s skb) = s \<or>
   snd (bmc_tx_filter_main B s skb) = s\<lparr>stats := (stats s)\<lparr>get_resp_count := get_resp_count (stats s) + 1\<rparr>\<rparr>"
  by (simp add: bmc_tx_filter_main_def Let_def)

lemma update_cache_keys: "keys (snd (update_cache_payload B s d)) = keys s"
  by (simp add: update_cache_payload_def Let_def split: prod.split)

lemma update_cache_returns: "\<exists>a. fst (update_cache_payload B s d) = Return a"
  by (simp add: update_cache_payload_def Let_def split: prod.split)

lemma run_tc_update:
  "run_tc B n skb (exec_tc B p s skb) =
     (case update_cache_payload B s (drop udp_headers (skb_data skb)) of
        (Return a, s') \<Rightarrow> (a, s') | (Tail_call p a, s') \<Rightarrow> (a, s'))"
  using update_cache_returns [of B s "drop udp_headers (skb_data skb)"]
  by (cases p; cases n) (auto simp: bmc_update_cache_main_def split: prod.splits outcome.splits)

lemma tc_transmit_cases:
  obtains (pass) a s1 where "tc_transmit B n s skb = (a, s1)" and "kcache s1 = kcache s" and "keys s1 = keys s"
  | (update) a s1 where "kcache s1 = kcache s" and "keys s1 = keys s"
      and "tc_transmit B n s skb = (a, snd (update_cache_payload B s1 (drop udp_headers (skb_data skb))))"
proof -
  obtain r s1 where e: "bmc_tx_filter_main B s skb = (r, s1)" by (cases "bmc_tx_filter_main B s skb")
  then have s1: "kcache s1 = kcache s" "keys s1 = keys s" using tx_filter_state [of B s skb] by auto
  show thesis
  proof (cases "r \<in> range Return \<or> n = 0")
    case True
    then have "\<exists>a. tc_transmit B n s skb = (a, s1)" using e by (cases r) (auto simp: tc_transmit_def)
    then show thesis using pass s1 by blast
  next
    case False
    then obtain p a m where "r = Tail_call p a" "n = Suc m" by (cases r; cases n) auto
    then have "\<exists>a. tc_transmit B n s skb = (a, snd (update_cache_payload B s1 (drop udp_headers (skb_data skb))))"
      using e by (simp add: tc_transmit_def run_tc_update split: prod.splits outcome.splits)
    then show thesis using update s1 by blast
  qed
qed

lemma transmit_maps_wf:
  assumes "bpf_laws B" and "maps_wf s"
  shows "maps_wf (snd (tc_transmit B n s skb))"
proof (cases rule: tc_transmit_cases [of B n s skb])
  case (pass a s1)
  then show ?thesis using assms(2) by (simp add: maps_wf_def keys_wf_def)
next
  case (update a s1)
  have "cache_wf (kcache s1)" using assms(2) update by (simp add: maps_wf_def)
  then show ?thesis
    using update assms
    by (simp add: maps_wf_def keys_wf_def update_cache_kcache update_cache_keys Let_def cache_wf_def updated_entry_wf)
qed

lemma transmit_keys: "keys (snd (tc_transmit B n s skb)) = keys s"
  by (cases rule: tc_transmit_cases [of B n s skb]) (simp_all add: update_cache_keys)

section \<open>What a lookup finds\<close>

text \<open>The reply the cache holds for a key, with the whole key compared.\<close>

definition find_reply :: "(u32 \<Rightarrow> bmc_cache_entry) \<Rightarrow> u8 list \<Rightarrow> u8 list option" where
  "find_reply c k =
     (let e = c (cache_index (fnv k)) in
      if ce_valid e \<noteq> 0 \<and> ce_hash e = fnv k \<and> reply_key (cached e) = k then Some (cached e) else None)"

lemma find_reply_weaker:
  assumes "weaker_cache c' c" and "find_reply c' k = Some r"
  shows "find_reply c k = Some r"
proof -
  have "c' i = c i \<or> c' i = (c i)\<lparr>ce_valid := 0\<rparr>" for i using assms(1) by (simp add: weaker_cache_def)
  from this [of "cache_index (fnv k)"] show ?thesis
    using assms(2) by (auto simp: find_reply_def Let_def split: if_splits)
qed

lemma find_reply_updated:
  assumes "cache_wf c" and "find_reply (c(i := updated_entry (c i) d)) k = Some r"
  shows "find_reply c k = Some r \<or> r = copied d \<and> reply_key r = k"
proof (cases "cache_index (fnv k) = i \<and> \<not> up_to_date (c i) d")
  case True
  then show ?thesis
    using assms cached_updated_entry [of "c i" d] by (auto simp: find_reply_def cache_wf_def Let_def split: if_splits)
next
  case False
  then show ?thesis
    using assms(2) by (auto simp: find_reply_def updated_entry_def Let_def split: if_splits)
qed

section \<open>A SET command over TCP\<close>

definition tcp_to_memcached :: "u8 list \<Rightarrow> bool" where
  "tcp_to_memcached hdr \<longleftrightarrow> length hdr = 54 \<and> hdr ! 23 = IPPROTO_TCP \<and> get_be16 hdr 36 = 11211"

text \<open>
  The commands whose key the scan recognises: nothing before the command holds an \<open>s\<close>, the key
  starts with a byte other than a carriage return, and the scan reaches the key's end.
\<close>

definition set_command :: "u8 list \<Rightarrow> u8 list \<Rightarrow> nat \<Rightarrow> u8 list \<Rightarrow> bool" where
  "set_command hdr t m k \<longleftrightarrow> tcp_to_memcached hdr \<and> asc CHR ''s'' \<notin> set t \<and> k \<noteq> [] \<and> chr_sp \<notin> set k \<and>
     hd k \<noteq> chr_cr \<and> length t + 4 + m + length k < BMC_MAX_PACKET_LENGTH"

lemma rx_filter_set:
  assumes "xdp_wf x" and "pkt x = set_packet hdr t m k rest" and "set_command hdr t m k"
  shows "bmc_rx_filter_main B s x = (Tail_call BMC_PROG_XDP_INVALIDATE_CACHE XDP_PASS, s, x)"
proof -
  have hdr: "length hdr = 54" "hdr ! 23 = 6" "get_be16 hdr 36 = 11211"
    using assms(3) by (simp_all add: set_command_def tcp_to_memcached_def)
  have len: "59 \<le> length (pkt x)" using assms(2) hdr by (simp add: set_packet_def)
  have "ldb x 23 = 6"
    using ldb_pkt [OF assms(1), of 23] len hdr assms(2) by (simp add: set_packet_def nth_append)
  moreover have "ld_be16 x 36 = 11211"
    using ld_be16_pkt [OF assms(1), of 36] len hdr assms(2) by (simp add: set_packet_def get_be16_def nth_append)
  moreover have "past_end x n \<longleftrightarrow> \<not> n \<le> length (pkt x)" for n using assms(1) by (simp add: past_end_pkt not_le)
  ultimately show ?thesis
    using len by (simp add: bmc_rx_filter_main_def rx_dispatch_def Let_def)
qed

lemma receive_set:
  assumes "bpf_laws B" and "xdp_wf x" and "pkt x = set_packet hdr t m k rest" and "set_command hdr t m k" and "0 < n"
  shows "\<exists>s'. xdp_receive B n s x = (XDP_PASS, s', x) \<and> weakens s s' \<and>
    ce_valid (kcache s' (cache_index (fnv k))) = 0"
proof -
  let ?s = "inval_loop B x 54 0 False False 0 s"
  have "length (pkt x) > 54" "drop 54 (pkt x) = t @ bytes ''set '' @ replicate m chr_sp @ k @ chr_sp # rest"
    using assms(3,4) by (simp_all add: set_packet_def set_command_def tcp_to_memcached_def)
  then have "xdp_data x + 54 < xdp_data_end x"
    and inv: "ce_valid (kcache ?s (cache_index (fnv k))) = 0"
    using assms(1,2,4) by (auto simp: length_pkt set_command_def intro!: inval_set_command)
  then have "bmc_invalidate_cache_main B s x = (Return XDP_PASS, ?s, x)"
    using assms(1) by (simp add: bmc_invalidate_cache_main_def)
  then have rec: "xdp_receive B n s x = (XDP_PASS, ?s, x)"
    using assms(5) by (cases n) (simp_all add: xdp_receive_def rx_filter_set [OF assms(2-4)])
  then have "weakens s ?s" using xdp_receive_weakens [of s B n x] by simp
  with rec inv show ?thesis by blast
qed

section \<open>Packet sequences\<close>

text \<open>
  The hooks run once per packet, each with the number of tail calls the kernel allows.  The
  helpers are carried along with the maps.
\<close>

datatype bmc_event = Ingress nat xdp_md | Egress nat sk_buff

type_synonym bmc_system = "bpf \<times> bmc_state"

fun bmc_step :: "bmc_event \<Rightarrow> bmc_system \<Rightarrow> bmc_system" where
  "bmc_step (Ingress n x) (B, s) = (B, fst (snd (xdp_receive B n s x)))"
| "bmc_step (Egress n skb) (B, s) = (B, snd (tc_transmit B n s skb))"

fun system_wf :: "bmc_system \<Rightarrow> bool" where
  "system_wf (B, s) \<longleftrightarrow> bpf_laws B \<and> maps_wf s"

fun system_find :: "bmc_system \<Rightarrow> u8 list \<Rightarrow> u8 list option" where
  "system_find (B, s) k = find_reply (kcache s) k"

text \<open>The event carries the reply \<open>r\<close> for \<open>k\<close>; the event is a SET of \<open>k\<close>.\<close>

fun carries :: "bmc_event \<Rightarrow> u8 list \<Rightarrow> u8 list \<Rightarrow> bool" where
  "carries (Egress n skb) k r \<longleftrightarrow> r = copied (drop udp_headers (skb_data skb)) \<and> reply_key r = k"
| "carries (Ingress n x) k r \<longleftrightarrow> False"

fun sets :: "bmc_event \<Rightarrow> u8 list \<Rightarrow> bool" where
  "sets (Ingress n x) k \<longleftrightarrow> 0 < n \<and> xdp_wf x \<and>
     (\<exists>hdr t m rest. pkt x = set_packet hdr t m k rest \<and> set_command hdr t m k)"
| "sets (Egress n skb) k \<longleftrightarrow> False"

lemma system_step_wf: "system_wf S \<Longrightarrow> system_wf (bmc_step e S)"
  by (cases S; cases e) (simp_all add: receive_maps_wf transmit_maps_wf)

lemma system_find_step:
  assumes "system_wf S" and "system_find (bmc_step e S) k = Some r"
  shows "carries e k r \<or> system_find S k = Some r"
proof -
  obtain B s where S: "S = (B, s)" by (cases S)
  show ?thesis
  proof (cases e)
    case (Ingress n x)
    then show ?thesis
      using assms S xdp_receive_weakens [of s B n x] find_reply_weaker by (auto simp: weakens_def)
  next
    case (Egress n skb)
    show ?thesis
    proof (cases rule: tc_transmit_cases [of B n s skb])
      case (pass a s1)
      then show ?thesis using assms S Egress by simp
    next
      case (update a s1)
      have wf: "cache_wf (kcache s)" "bpf_laws B" using assms(1) S by (simp_all add: maps_wf_def)
      then show ?thesis
        using assms(2) S Egress update find_reply_updated [OF wf(1)] update_cache_kcache [OF wf(2), of s1]
        by (auto simp: Let_def)
    qed
  qed
qed

lemma system_sets_step:
  assumes "system_wf S" and "sets e k"
  shows "system_find (bmc_step e S) k = None"
proof -
  obtain B s where S: "S = (B, s)" by (cases S)
  obtain n x hdr t m rest where e: "e = Ingress n x" "0 < n" "xdp_wf x"
    "pkt x = set_packet hdr t m k rest" "set_command hdr t m k"
    using assms(2) by (cases e) auto
  have "bpf_laws B" using assms(1) S by simp
  from receive_set [OF this e(3-5,2), of s] show ?thesis
    using S e(1) by (auto simp: find_reply_def Let_def)
qed

interpretation kc: coherent_cache system_find bmc_step carries sets system_wf
  by unfold_locales (use system_step_wf system_find_step system_sets_step in blast)+

lemma initial_maps_wf: "maps_wf initial_state"
  by (simp add: maps_wf_def cache_wf_def entry_wf_def keys_wf_def initial_state_def zero_entry_def)

lemma initial_find: "find_reply (kcache initial_state) k = None"
  by (simp add: find_reply_def initial_state_def zero_entry_def)

inductive reachable :: "bpf \<Rightarrow> bmc_state \<Rightarrow> bool" for B where
  load: "reachable B initial_state"
| packet: "reachable B s \<Longrightarrow> bmc_step e (B, s) = (B, s') \<Longrightarrow> reachable B s'"

lemma reachable_wf:
  assumes "reachable B s" and "bpf_laws B"
  shows "system_wf (B, s)"
  using assms
proof (induction rule: reachable.induct)
  case load
  then show ?case by (simp add: initial_maps_wf)
next
  case (packet s e s')
  then show ?case using system_step_wf [of "(B, s)" e] by simp
qed

lemma reachable_key_lens: "reachable B s \<Longrightarrow> key_lens s"
proof (induction rule: reachable.induct)
  case load
  then show ?case by (simp add: key_lens_def initial_state_def)
next
  case (packet s e s')
  then show ?case
    using xdp_receive_weakens [of s B] transmit_keys [of B _ s] by (cases e) (auto simp: weakens_def key_lens_def)
qed

section \<open>A reply on its way out\<close>

definition udp_from_memcached :: "u8 list \<Rightarrow> bool" where
  "udp_from_memcached hdr \<longleftrightarrow> length hdr = udp_headers \<and> hdr ! 23 = IPPROTO_UDP \<and> get_be16 hdr 34 = 11211"

definition reply_skb :: "u8 list \<Rightarrow> u8 list \<Rightarrow> sk_buff" where
  "reply_skb hdr d = \<lparr>skb_len = of_nat (length (hdr @ d)), skb_data = hdr @ d\<rparr>"

definition count_reply :: "bmc_state \<Rightarrow> bmc_state" where
  "count_reply s = s\<lparr>stats := (stats s)\<lparr>get_resp_count := get_resp_count (stats s) + 1\<rparr>\<rparr>"

definition stored :: "bmc_state \<Rightarrow> u8 list \<Rightarrow> u8 list \<Rightarrow> bmc_state" where
  "stored s k r =
     s\<lparr>kcache := (kcache s)(cache_index (fnv k) := store_entry (kcache s (cache_index (fnv k))) (fnv k) r),
       stats := (stats s)\<lparr>update_count := update_count (stats s) + 1\<rparr>\<rparr>"

lemma is_value_record: "is_value (hdr @ value_record k meta v @ rest) (length hdr)"
  by (simp add: is_value_def value_record_def nth_append)

lemma tx_filter_record:
  assumes "bpf_laws B" and "udp_from_memcached hdr" and "length (hdr @ value_record k meta v @ rest) \<le> 1353"
  shows "bmc_tx_filter_main B s (reply_skb hdr (value_record k meta v @ rest)) =
    (Tail_call BMC_PROG_TC_UPDATE_CACHE TC_ACT_OK, count_reply s)"
proof -
  let ?d = "value_record k meta v @ rest"
  have hdr: "length hdr = 50" "hdr ! 23 = 17" "get_be16 hdr 34 = 11211"
    using assms(2) by (simp_all add: udp_from_memcached_def)
  have "unat (of_nat (length (hdr @ ?d)) :: u32) = length (hdr @ ?d)"
    using assms(3) by (intro unat_of_nat_u32) simp
  then have "unat (skb_len (reply_skb hdr ?d)) \<le> 1353" using assms(3) by (simp add: reply_skb_def)
  moreover have "56 \<le> length (hdr @ ?d)" using hdr by (simp add: value_record_def)
  moreover have "is_value (hdr @ ?d) 50" using is_value_record [of hdr] hdr(1) by simp
  moreover have "get_be16 (hdr @ ?d) 34 = 11211" using hdr by (simp add: get_be16_append_left)
  ultimately show ?thesis
    using assms(1) hdr by (simp add: bmc_tx_filter_main_def reply_skb_def count_reply_def nth_append Let_def)
qed

lemma transmit_record:
  assumes "bpf_laws B" and "cache_wf (kcache s)" and "udp_from_memcached hdr" and "storable k meta v"
    and "length (hdr @ value_record k meta v @ rest) \<le> 1353" and "0 < n"
  shows "tc_transmit B n s (reply_skb hdr (value_record k meta v @ rest)) =
    (TC_ACT_OK,
     if up_to_date (kcache s (cache_index (fnv k))) (value_record k meta v @ rest) then count_reply s
     else stored (count_reply s) k (value_record k meta v))"
proof -
  let ?d = "value_record k meta v @ rest" and ?s = "count_reply s"
  obtain m where n: "n = Suc m" using assms(6) by (cases n) auto
  have d: "drop 50 (skb_data (reply_skb hdr ?d)) = ?d"
    using assms(3) by (simp add: reply_skb_def udp_from_memcached_def)
  have "cache_wf (kcache ?s)" using assms(2) by (simp add: count_reply_def)
  from update_cache_record [OF assms(1) this assms(4) refl refl, of rest] show ?thesis
    unfolding tc_transmit_def tx_filter_record [OF assms(1,3,5)] n run_tc.simps run_tc_update d
    by (simp add: stored_def count_reply_def)
qed

lemma stored_find:
  assumes "cache_wf (kcache s)" and "storable k meta v" and "length k \<le> BMC_MAX_KEY_LENGTH"
  shows "find_reply (kcache (stored s k (value_record k meta v))) k = Some (value_record k meta v)"
proof -
  let ?r = "value_record k meta v"
  have "length ?r \<le> 1303" "chr_sp \<notin> set k" using assms(2) by (simp_all add: storable_def)
  then show ?thesis
    using assms(1) store_entry_wf(2) [of "kcache s (cache_index (fnv k))" ?r] reply_key_record [of k meta v "[]"]
    by (simp add: find_reply_def stored_def cache_wf_def Let_def)
qed

lemma store_entry_serves:
  assumes "entry_wf e" and "length p \<le> BMC_MAX_CACHE_DATA_SIZE" and "6 + length k \<le> length p"
    and "take (length k) (drop 6 p) = k" and "c (cache_index (fnv k)) = store_entry e (fnv k) p"
  shows "serves c k" and "reply_of c k = p"
proof -
  let ?e = "store_entry e (fnv k) p"
  note e = store_entry_wf [OF assms(1,2), of "fnv k"]
  have "segment 6 (length k) (ce_data ?e) = k"
    using assms(1,3,4) by (simp add: store_entry_def memcpy_at_def segment_def entry_wf_def)
  moreover have "0 < unat (ce_len ?e)" using length_cached [OF e(1)] e(2) assms(3) by simp
  ultimately show "serves c k" using e(1) assms(5) by (simp add: serves_def Let_def)
  show "reply_of c k = p" using e(2) assms(5) by (simp add: reply_of_def)
qed

lemma stored_serves:
  assumes "cache_wf (kcache s)" and "storable k meta v"
  shows "serves (kcache (stored s k (value_record k meta v))) k"
    and "reply_of (kcache (stored s k (value_record k meta v))) k = value_record k meta v"
proof -
  let ?e = "kcache s (cache_index (fnv k))" and ?r = "value_record k meta v"
  have r: "length ?r \<le> 1303" "6 + length k \<le> length ?r" "take (length k) (drop 6 ?r) = k"
    using assms(2) by (simp add: storable_def) (simp_all add: value_record_def)
  have e: "entry_wf ?e" "kcache (stored s k ?r) (cache_index (fnv k)) = store_entry ?e (fnv k) ?r"
    using assms(1) by (simp_all add: cache_wf_def stored_def)
  show "serves (kcache (stored s k ?r)) k" "reply_of (kcache (stored s k ?r)) k = ?r"
    using store_entry_serves [of ?e ?r k "kcache (stored s k ?r)", OF e(1) r e(2)] by blast+
qed

text \<open>The update for any VALUE record, storable or not.\<close>

lemma transmit_value:
  assumes "bpf_laws B" and "cache_wf (kcache s)" and "udp_from_memcached hdr" and "chr_sp \<notin> set k"
    and "length k \<le> BMC_MAX_KEY_LENGTH" and "length (hdr @ value_record k meta v @ rest) \<le> 1353" and "0 < n"
    and "i = cache_index (fnv k)"
  shows "\<exists>s'. tc_transmit B n s (reply_skb hdr (value_record k meta v @ rest)) = (TC_ACT_OK, s') \<and>
    kcache s' = (kcache s)(i := updated_entry (kcache s i) (value_record k meta v @ rest))"
proof -
  let ?d = "value_record k meta v @ rest" and ?s = "count_reply s"
  obtain m where n: "n = Suc m" using assms(7) by (cases n) auto
  have d: "drop 50 (skb_data (reply_skb hdr ?d)) = ?d"
    using assms(3) by (simp add: reply_skb_def udp_from_memcached_def)
  obtain a s' where u: "update_cache_payload B ?s ?d = (Return a, s')"
    using update_cache_returns [of B ?s ?d] by (cases "update_cache_payload B ?s ?d") auto
  have "a = TC_ACT_OK"
    using u assms(1) by (auto simp: update_cache_payload_def Let_def split: if_splits prod.splits)
  moreover have "kcache s' = (kcache s)(i := updated_entry (kcache s i) ?d)"
    using update_cache_kcache [OF assms(1), of ?s ?d] u assms(2,8) update_hash_value [OF assms(4,5)]
    by (simp add: count_reply_def Let_def)
  ultimately show ?thesis
    unfolding tc_transmit_def tx_filter_record [OF assms(1,3,6)] n run_tc.simps run_tc_update d by (simp add: u)
qed

end
