(* ===== verification/Bmc_Correct.thy ===== *)
theory Bmc_Correct
  imports Bmc_System
begin

text \<open>
  The properties of the in-kernel cache as a whole: coherence with the SET traffic, what an outgoing
  reply stores, the round trip from an outgoing reply to the answer of a later GET request, and the
  invariant of the maps; and the cases in which the programs do not do what they mean to.
\<close>

section \<open>Sample packets\<close>

abbreviation (input) sample_key :: "u8 list" where "sample_key \<equiv> bytes ''user:1234567''"

abbreviation (input) sample_record :: "u8 list" where
  "sample_record \<equiv> value_record sample_key (bytes ''0 1'') (bytes ''A'')"

definition sample_set :: xdp_md where
  "sample_set = xdp_of (set_packet (sample_tcp 5000 11211) [] 0 sample_key (bytes ''0 0 1''))"

definition sample_reply :: sk_buff where
  "sample_reply = reply_skb (sample_udp 11211 5000) (sample_record @ bytes ''END'')"

lemma sample_storable: "storable sample_key (bytes ''0 1'') (bytes ''A'')"
  by (simp add: storable_def value_record_def)

lemma sample_key_valid: "valid_key sample_key"
  by (simp add: valid_key_def key_byte_def)

lemma sample_set_command: "set_command (sample_tcp 5000 11211) [] 0 sample_key"
  by (simp add: set_command_def tcp_to_memcached_def sample_defs get_be16_def be16_def join_bytes16)

lemma sample_get_for:
  "get_for 32 (xdp_of (get_request (sample_udp 5000 11211) 0 [sample_key] [chr_nl])) (sample_udp 5000 11211) sample_key"
proof -
  have "length (get_request (sample_udp 5000 11211) 0 [sample_key] [chr_nl]) < 65000" by (simp add: get_request_def sample_defs)
  moreover have "14 \<le> length sample_key + 1 + length [chr_nl]" by simp
  ultimately show ?thesis
    unfolding get_for_def xdp_of_simps using sample_key_valid sample_udp_to_memcached
    by (intro conjI exI [of _ 0] exI [of _ "[chr_nl]"]) (simp_all del: bytes_simps)
qed

lemma sample_from_memcached: "udp_from_memcached (sample_udp 11211 5000)"
  by (simp add: udp_from_memcached_def sample_defs get_be16_def be16_def join_bytes16)

lemma sample_reply_length: "length (sample_udp 11211 5000 @ sample_record @ bytes ''END'') \<le> 1353"
  by (simp add: sample_defs value_record_def)

lemma sample_transmit:
  assumes "bpf_laws B" and "cache_wf (kcache s)" and "ce_valid (kcache s (cache_index (fnv sample_key))) = 0"
  shows "tc_transmit B 1 s sample_reply = (TC_ACT_OK, stored (count_reply s) sample_key sample_record)"
  unfolding sample_reply_def
  using transmit_record [OF assms(1,2) sample_from_memcached sample_storable sample_reply_length, of 1] assms(3)
  by (simp add: up_to_date_def del: bytes_simps)

lemma sample_sets: "sets (Ingress 1 sample_set) sample_key"
  unfolding sets.simps sample_set_def xdp_of_simps using sample_set_command xdp_of_simps(2) zero_less_one by blast

lemma sample_stored_find:
  "cache_wf (kcache s) \<Longrightarrow> find_reply (kcache (stored (count_reply s) sample_key sample_record)) sample_key = Some sample_record"
  using sample_storable sample_key_valid
  by (intro stored_find) (simp_all add: count_reply_def valid_key_def del: bytes_simps)

section \<open>The properties\<close>

text \<open>
  C3.  Coherence.  Whatever packets pass the two hooks, a reply the cache holds for a key was carried
  by an outgoing packet and no SET command for the key was received after it: the cache never holds a
  value older than the last SET the scan has seen.
\<close>

theorem no_stale_reply:
  assumes "bpf_laws B" and "fold bmc_step es (B, initial_state) = (B, s)" and "find_reply (kcache s) k = Some r"
  shows "\<exists>as e bs. es = as @ e # bs \<and> carries e k r \<and> (\<forall>b\<in>set bs. \<not> sets b k)"
proof -
  have "system_wf (B, initial_state)" using assms(1) by (simp add: initial_maps_wf)
  from kc.find_origin [OF this, of es k r] show ?thesis using assms(2,3) by (simp add: initial_find)
qed

theorem no_stale_reply_witness:
  "\<exists>s. fold bmc_step [Ingress 1 sample_set, Egress 1 sample_reply] (bpf_ref, initial_state) = (bpf_ref, s) \<and>
    find_reply (kcache s) sample_key = Some sample_record \<and>
    (\<exists>as e bs. [Ingress 1 sample_set, Egress 1 sample_reply] = as @ e # bs \<and>
       carries e sample_key sample_record \<and> (\<forall>b\<in>set bs. \<not> sets b sample_key))"
proof -
  let ?s1 = "fst (snd (xdp_receive bpf_ref 1 initial_state sample_set))"
  let ?s2 = "stored (count_reply ?s1) sample_key sample_record"
  have wf: "cache_wf (kcache ?s1)" using receive_maps_wf [OF initial_maps_wf] by (simp add: maps_wf_def)
  have "weaker_cache (kcache ?s1) (kcache initial_state)" using xdp_receive_weakens [of initial_state] by (simp add: weakens_def)
  then have "ce_valid (kcache ?s1 (cache_index (fnv sample_key))) = 0"
    by (rule weaker_cache_invalid) (simp add: initial_state_def zero_entry_def)
  then have "fold bmc_step [Ingress 1 sample_set, Egress 1 sample_reply] (bpf_ref, initial_state) = (bpf_ref, ?s2)"
    using sample_transmit [OF bpf_ref_laws wf] by (simp del: bytes_simps)
  moreover have "find_reply (kcache ?s2) sample_key = Some sample_record"
    using wf by (rule sample_stored_find)
  ultimately show ?thesis using no_stale_reply [OF bpf_ref_laws] by (metis (no_types))
qed

text \<open>
  C5.  A SET command over TCP whose key the scan recognises leaves the receive path with
  \<^verbatim>\<open>XDP_PASS\<close> and the packet unchanged, the cache differs only by entries marked invalid, and the key
  is not taken for cached any more.
\<close>

theorem set_command_invalidates:
  assumes "bpf_laws B" and "xdp_wf x" and "pkt x = set_packet hdr t m k rest" and "set_command hdr t m k" and "0 < n"
  shows "\<exists>s'. xdp_receive B n s x = (XDP_PASS, s', x) \<and> weaker_cache (kcache s') (kcache s) \<and>
    \<not> potential_hit (kcache s') k"
  using receive_set [OF assms] by (auto simp: weakens_def potential_hit_def)

theorem set_command_invalidates_witness:
  "\<exists>s'. xdp_receive bpf_ref 1 (initial_state\<lparr>kcache := one_entry_cache sample_key sample_record\<rparr>) sample_set =
      (XDP_PASS, s', sample_set) \<and> \<not> potential_hit (kcache s') sample_key"
  using set_command_invalidates [OF bpf_ref_laws _ _ sample_set_command, of sample_set "bytes ''0 0 1''" 1
      "initial_state\<lparr>kcache := one_entry_cache sample_key sample_record\<rparr>"]
  by (auto simp: sample_set_def simp del: bytes_simps)

text \<open>
  C6.  Admission.  An outgoing reply from memcached's port that starts with a storable VALUE record is
  let through; the record is stored in the entry its key maps to, and every other entry is untouched.  The cache
  is left alone exactly when the entry is valid, has the hash of the key, and its bytes behind \<^verbatim>\<open>VALUE\<close>
  agree with the key and the space that ends it as far as the stored reply goes; for a stored record that means that
  it is for the same key (\<open>key_agrees_record\<close>).  A reply is stored the first time it is seen: the number of requests
  for the key plays no part.
\<close>

theorem reply_admission:
  assumes "bpf_laws B" and "cache_wf (kcache s)" and "udp_from_memcached hdr" and "storable k meta v"
    and "length (hdr @ value_record k meta v @ rest) \<le> 1353" and "0 < n"
    and "e = kcache s (cache_index (fnv k))"
  shows "\<exists>s'. tc_transmit B n s (reply_skb hdr (value_record k meta v @ rest)) = (TC_ACT_OK, s') \<and>
    get_resp_count (stats s') = get_resp_count (stats s) + 1 \<and>
    (if ce_valid e \<noteq> 0 \<and> ce_hash e = fnv k \<and> key_agrees k (cached e) then kcache s' = kcache s
     else (\<forall>j. j \<noteq> cache_index (fnv k) \<longrightarrow> kcache s' j = kcache s j) \<and>
       find_reply (kcache s') k = Some (value_record k meta v) \<and>
       update_count (stats s') = update_count (stats s) + 1)"
proof -
  have "entry_wf e" using assms(2,7) by (simp add: cache_wf_def)
  then have "up_to_date e (value_record k meta v @ rest) \<longleftrightarrow>
      ce_valid e \<noteq> 0 \<and> ce_hash e = fnv k \<and> key_agrees k (cached e)"
    using assms(4) by (intro up_to_date_value) (simp_all add: storable_def)
  moreover have "find_reply (kcache (stored (count_reply s) k (value_record k meta v))) k = Some (value_record k meta v)"
    using assms(2,4) by (intro stored_find) (simp_all add: count_reply_def storable_def)
  ultimately show ?thesis
    using transmit_record [OF assms(1-6)] by (auto simp: assms(7) stored_def count_reply_def)
qed

theorem reply_admission_witness:
  "\<exists>s'. tc_transmit bpf_ref 1 initial_state sample_reply = (TC_ACT_OK, s') \<and>
    find_reply (kcache s') sample_key = Some sample_record \<and> update_count (stats s') = 1"
proof -
  have "cache_wf (kcache initial_state)" "ce_valid (kcache initial_state (cache_index (fnv sample_key))) = 0"
    using initial_maps_wf by (simp_all add: maps_wf_def, simp add: initial_state_def zero_entry_def)
  then show ?thesis
    using reply_admission [OF bpf_ref_laws _ sample_from_memcached sample_storable sample_reply_length, of initial_state 1, OF _ _ refl]
    by (auto simp: sample_reply_def initial_state_def simp del: bytes_simps)
qed

text \<open>
  C4.  Round trip.  A reply that leaves the host while its key's entry is not in use is what
  the next GET request for the key is answered with: the request comes back as a packet whose payload
  is the stored record ended by \<^verbatim>\<open>END\<close>, without memcached being involved.  One reply is enough, the code keeps no
  count of the requests.  The request must be one the receive path looks up (\<open>get_for\<close>): fourteen bytes from the start
  of its key on.
\<close>

theorem reply_then_get:
  assumes "bpf_linux h B" and "maps_wf s" and "udp_from_memcached hdr" and "storable k meta v"
    and "length (hdr @ value_record k meta v @ rest) \<le> 1353" and "0 < n"
    and "ce_valid (kcache s (cache_index (fnv k))) = 0"
    and "get_for h x hdr' k" and "length (value_record k meta v) \<le> length (pkt x) + 73" and "3 \<le> n'"
    and "tc_transmit B n s (reply_skb hdr (value_record k meta v @ rest)) = (a, s')"
  shows "\<exists>s'' x'. xdp_receive B n' s' x = (XDP_TX, s'', x') \<and>
    pkt x' = finish_headers (swapped_headers hdr' @ value_record k meta v @ end_marker) 0
      (length (value_record k meta v) + 5)"
proof -
  let ?s = "stored (count_reply s) k (value_record k meta v)"
  have cwf: "cache_wf (kcache s)" "cache_wf (kcache (count_reply s))"
    using assms(2) by (simp_all add: maps_wf_def count_reply_def)
  have s': "s' = ?s"
    using transmit_record [OF bpf_linux_laws [OF assms(1)] cwf(1) assms(3-6)] assms(7,11) by (simp add: up_to_date_def)
  have "keys_wf ?s" using assms(2) by (simp add: maps_wf_def keys_wf_def stored_def count_reply_def)
  from receive_one_served [OF assms(1,8) this stored_serves [OF cwf(2) assms(4)] assms(9,10)]
  show ?thesis unfolding s' .
qed

theorem reply_then_get_witness:
  "\<exists>s' s'' x'. tc_transmit bpf_ref 1 initial_state sample_reply = (TC_ACT_OK, s') \<and>
    xdp_receive bpf_ref 3 s' (xdp_of (get_request (sample_udp 5000 11211) 0 [sample_key] [chr_nl])) = (XDP_TX, s'', x') \<and>
    pkt x' = finish_headers (swapped_headers (sample_udp 5000 11211) @ sample_record @ end_marker) 0 (length sample_record + 5)"
proof -
  let ?x = "xdp_of (get_request (sample_udp 5000 11211) 0 [sample_key] [chr_nl])"
  have "cache_wf (kcache initial_state)" and inv: "ce_valid (kcache initial_state (cache_index (fnv sample_key))) = 0"
    using initial_maps_wf by (simp_all add: maps_wf_def, simp add: initial_state_def zero_entry_def)
  note out = sample_transmit [OF bpf_ref_laws this]
  have "length sample_record \<le> length (pkt ?x) + 73" by (simp add: get_request_def sample_defs value_record_def)
  from reply_then_get [OF bpf_ref_linux initial_maps_wf sample_from_memcached sample_storable sample_reply_length
      zero_less_one inv sample_get_for this order.refl out [unfolded sample_reply_def]]
  show ?thesis using out by blast
qed

text \<open>
  C8.  The invariant of the maps: in every state the loaded programs can reach, by any sequence of packets
  and whatever the packets hold, each cache entry keeps its 1303 bytes with a length inside them, and
  each saved key its 250 bytes with a length inside them.  A store behind the end of an array would make it longer, so
  no program ever writes behind the data of an entry or of a saved key.
\<close>

theorem reachable_maps_wf:
  assumes "reachable B s" and "bpf_laws B"
  shows "length (ce_data (kcache s i)) = BMC_MAX_CACHE_DATA_SIZE \<and>
    unat (ce_len (kcache s i)) \<le> BMC_MAX_CACHE_DATA_SIZE \<and>
    length (mk_data (keys s j)) = BMC_MAX_KEY_LENGTH \<and> unat (mk_len (keys s j)) \<le> BMC_MAX_KEY_LENGTH"
  using reachable_wf [OF assms] reachable_key_lens [OF assms(1)]
  by (simp add: maps_wf_def cache_wf_def entry_wf_def keys_wf_def key_lens_def)

theorem reachable_maps_wf_witness:
  "length (ce_data (kcache (snd (tc_transmit bpf_ref 1 initial_state sample_reply)) 0)) = BMC_MAX_CACHE_DATA_SIZE"
proof -
  have "reachable bpf_ref (snd (tc_transmit bpf_ref 1 initial_state sample_reply))"
    by (rule reachable.packet [OF reachable.load, where e = "Egress 1 sample_reply"]) simp
  then show ?thesis using reachable_maps_wf [OF _ bpf_ref_laws] by blast
qed

section \<open>Which key is answered\<close>





section \<open>Where the programs miss their aim\<close>




end
