(* ===== verification/Bmc_Safety.thy ===== *)
theory Bmc_Safety
  imports Bmc_System
begin

text \<open>
  Memory safety of the receive path: whatever the packet and whatever state the maps are in, every
  store of the programs stays inside the packet's frame and before the packet's end, and the chain of
  programs ends with one of the return codes of an XDP program.
\<close>

definition in_bounds :: "xdp_md \<Rightarrow> xdp_md \<Rightarrow> bool" where
  "in_bounds x x' \<longleftrightarrow> xdp_wf x' \<and> length (xdp_frame x') = length (xdp_frame x) \<and>
     xdp_data_end x' \<le> xdp_data_end x \<and>
     drop (xdp_data_end x) (xdp_frame x') = drop (xdp_data_end x) (xdp_frame x)"

lemma in_bounds_refl [simp]: "xdp_wf x \<Longrightarrow> in_bounds x x"
  by (simp add: in_bounds_def)

lemma in_bounds_wf: "in_bounds x x' \<Longrightarrow> xdp_wf x'"
  by (simp add: in_bounds_def)

lemma in_bounds_trans:
  assumes "in_bounds x y" and "in_bounds y z"
  shows "in_bounds x z"
proof -
  have split: "drop (xdp_data_end x) f = drop (xdp_data_end x - xdp_data_end y) (drop (xdp_data_end y) f)" for f :: "u8 list"
    using assms(1) by (simp add: in_bounds_def)
  have "drop (xdp_data_end x) (xdp_frame z) = drop (xdp_data_end x) (xdp_frame y)"
    using assms(2) unfolding split by (simp only: in_bounds_def)
  then show ?thesis using assms by (simp add: in_bounds_def)
qed

lemma in_bounds_store:
  assumes "xdp_wf x" and "length f = length (xdp_frame x)" and "drop (xdp_data_end x) f = drop (xdp_data_end x) (xdp_frame x)"
  shows "in_bounds x (x\<lparr>xdp_frame := f\<rparr>)"
  using assms by (simp add: in_bounds_def xdp_wf_def)

lemma in_bounds_memcpy:
  assumes "xdp_wf x" and "i + length ys \<le> xdp_data_end x"
  shows "in_bounds x (x\<lparr>xdp_frame := memcpy_at (xdp_frame x) i ys\<rparr>)"
proof -
  have "i + length ys \<le> length (xdp_frame x)" using assms by (simp add: xdp_wf_def)
  then show ?thesis using assms by (intro in_bounds_store) simp_all
qed

lemma in_bounds_head:
  assumes "bpf_laws B" and "xdp_wf x" and "xdp_adjust_head B x d = Some x'"
  shows "in_bounds x x'"
  using bpf_adjust_head [OF assms(1,3)] assms(2) by (auto simp: in_bounds_def xdp_wf_def head_ok_def)

lemma in_bounds_adjusted_head:
  assumes "bpf_laws B" and "xdp_wf x"
  shows "in_bounds x (adjusted (xdp_adjust_head B x d) x)"
  using assms by (cases "xdp_adjust_head B x d") (auto intro: in_bounds_head)

lemma in_bounds_adjusted_tail:
  assumes "bpf_laws B" and "xdp_wf x"
  shows "in_bounds x (adjusted (xdp_adjust_tail B x d) x)"
proof (cases "xdp_adjust_tail B x d")
  case (Some x')
  then show ?thesis
    using bpf_adjust_tail [OF assms(1) Some] assms(2) by (auto simp: in_bounds_def xdp_wf_def tail_ok_def)
qed (simp add: assms(2))

section \<open>The filter, the parser and the header construction\<close>

lemma rx_filter_in_bounds:
  assumes "bpf_laws B" and "xdp_wf x"
  shows "in_bounds x (snd (snd (bmc_rx_filter_main B s x)))"
  using assms in_bounds_head [OF assms]
  by (simp add: bmc_rx_filter_main_def rx_dispatch_def rx_start_get_def Let_def split: option.split)

lemma hash_keys_in_bounds:
  assumes "bpf_laws B" and "xdp_wf x"
  shows "in_bounds x (snd (snd (bmc_hash_keys_main B s x)))"
  using assms in_bounds_head [OF assms] in_bounds_adjusted_head [OF assms]
  by (simp add: bmc_hash_keys_main_def hash_keys_next_def restore_head_def Let_def split: option.split prod.split)

lemma reply_headers_in_bounds:
  assumes "xdp_wf x" and "xdp_data x + 178 \<le> xdp_data_end x"
  shows "in_bounds x (x\<lparr>xdp_frame := reply_headers (xdp_frame x) (xdp_data x)\<rparr>)"
proof (rule in_bounds_store [OF assms(1)])
  let ?f = "xdp_frame x" and ?d = "xdp_data x" and ?e = "xdp_data_end x"
  have len: "?d + 178 \<le> length ?f" "?d + 50 \<le> ?e" using assms by (auto simp: xdp_wf_def)
  then show "length (reply_headers ?f ?d) = length ?f" by (simp add: length_reply_headers)
  have "reply_headers (take ?d ?f @ drop ?d ?f) ?d =
      take ?d ?f @ swapped_headers (segment 128 50 (drop ?d ?f)) @ drop 50 (drop ?d ?f)"
    using len by (intro reply_headers_append) simp_all
  then show "drop ?e (reply_headers ?f ?d) = drop ?e ?f" using len by (simp add: min_absorb2)
qed

lemma prepare_packet_in_bounds:
  assumes "bpf_laws B" and "xdp_wf x"
  shows "in_bounds x (snd (snd (bmc_prepare_packet_main B s x)))"
proof (cases "xdp_adjust_head B x (- int ADJUST_HEAD_LEN)")
  case None
  with assms show ?thesis by (simp add: bmc_prepare_packet_main_def)
next
  case (Some x1)
  have b1: "in_bounds x x1" by (rule in_bounds_head [OF assms Some])
  then have wf1: "xdp_wf x1" by (rule in_bounds_wf)
  let ?x2 = "x1\<lparr>xdp_frame := reply_headers (xdp_frame x1) (xdp_data x1)\<rparr>"
  show ?thesis
  proof (cases "xdp_data x1 + 178 < xdp_data_end x1")
    case False
    with Some b1 show ?thesis by (simp add: bmc_prepare_packet_main_def)
  next
    case True
    then have "in_bounds x1 ?x2" using wf1 by (intro reply_headers_in_bounds) simp_all
    with b1 have b2: "in_bounds x ?x2" by (rule in_bounds_trans)
    have "in_bounds x x3" if "xdp_adjust_head B ?x2 (int udp_headers) = Some x3" for x3
      using in_bounds_trans [OF b2 in_bounds_head [OF assms(1) in_bounds_wf [OF b2] that]] .
    with Some b1 b2 show ?thesis
      by (simp add: bmc_prepare_packet_main_def Let_def split: option.split)
  qed
qed

section \<open>The reply writer\<close>

lemma write_reply_entry_store:
  assumes "entry_wf en" and "xdp_wf x" and "write_reply_entry key en x = (hit, w, x')"
  obtains r where "x' = x\<lparr>xdp_frame := memcpy_at (xdp_frame x) (xdp_data x) r\<rparr>" and "length r = w"
    and "xdp_data x + w \<le> xdp_data_end x"
proof -
  let ?p = "xdp_data x" and ?e = "xdp_data_end x" and ?f = "xdp_frame x"
  define n where "n = min (unat (ce_len en)) (min BMC_MAX_CACHE_DATA_SIZE (?e - ?p))"
  have wf: "length (ce_data en) = BMC_MAX_CACHE_DATA_SIZE" "?e \<le> length ?f" "?p \<le> ?e"
    using assms(1,2) by (auto simp: entry_wf_def xdp_wf_def)
  obtain off where c8: "copy8_loop en ?p ?e ?f 0 0 = (memcpy_at ?f ?p (take off (ce_data en)), off, off)"
    and off: "off \<le> n"
    using copy8_loop_memcpy [OF wf(1,2), of 0 n ?p] wf n_def by auto
  have c1: "copy1_loop en ?p ?e (memcpy_at ?f ?p (take off (ce_data en))) off off =
      (memcpy_at ?f ?p (take n (ce_data en)), n)"
    using copy1_loop_memcpy [OF wf(1,2) off n_def wf(3)] .
  have n: "length (take n (ce_data en)) = n" "?p + n \<le> ?e" using wf by (auto simp: n_def)
  show thesis
  proof (cases "ce_valid en \<noteq> 0 \<and> mk_hash key = ce_hash en \<and>
      key_compare_loop key en 0 (min BMC_MAX_KEY_LENGTH (unat (mk_len key))) True")
    case True
    then have "x' = x\<lparr>xdp_frame := memcpy_at ?f ?p (take n (ce_data en))\<rparr>" "w = n"
      using assms(3) c8 c1 by (auto simp: write_reply_entry_def Let_def)
    with n show thesis using that by simp
  next
    case False
    then have "x' = x" "w = 0" using assms(3) by (auto simp: write_reply_entry_def Let_def split: if_splits)
    with wf(3) show thesis using that [of "[]"] by simp
  qed
qed

lemma finish_headers_in_bounds:
  assumes "xdp_wf x" and "xdp_data x + 42 \<le> xdp_data_end x"
  shows "in_bounds x (x\<lparr>xdp_frame := finish_headers (xdp_frame x) (xdp_data x) n\<rparr>)"
proof (rule in_bounds_store [OF assms(1)])
  let ?f = "xdp_frame x" and ?d = "xdp_data x" and ?e = "xdp_data_end x"
  let ?h = "take 42 (drop ?d ?f)"
  have len: "?d + 42 \<le> length ?f" using assms by (auto simp: xdp_wf_def)
  have "?f = take ?d ?f @ ?h @ drop 42 (drop ?d ?f)" by (simp only: append_take_drop_id)
  then have "finish_headers ?f ?d n = take ?d ?f @ finish_headers (?h @ drop 42 (drop ?d ?f)) 0 n"
    using finish_headers_append [of "take ?d ?f" "?h @ drop 42 (drop ?d ?f)" n] len by simp
  also have "finish_headers (?h @ drop 42 (drop ?d ?f)) 0 n = finish_headers ?h 0 n @ drop (?d + 42) ?f"
    using finish_headers_append_left [of ?h "drop 42 (drop ?d ?f)" n] len by (simp add: add.commute)
  finally have eq: "finish_headers ?f ?d n = take ?d ?f @ finish_headers ?h 0 n @ drop (?d + 42) ?f" .
  then show "length (finish_headers ?f ?d n) = length ?f" using len by simp
  show "drop ?e (finish_headers ?f ?d n) = drop ?e ?f" using assms(2) len by (simp add: eq)
qed

lemma write_reply_send_in_bounds:
  assumes "bpf_laws B" and "xdp_wf x"
  shows "in_bounds x (snd (snd (write_reply_send B s x w)))"
proof (cases "xdp_data x + w + 5 \<le> xdp_data_end x")
  case False
  then show ?thesis using assms(2) by (simp add: write_reply_send_def)
next
  case True
  let ?x1 = "x\<lparr>xdp_frame := memcpy_at (xdp_frame x) (xdp_data x + w)
    [asc CHR ''E'', asc CHR ''N'', asc CHR ''D'', chr_cr, chr_nl]\<rparr>"
  let ?wpo = "unat (write_pkt_offset (pctx s))"
  have b1: "in_bounds x ?x1" using assms(2) True by (intro in_bounds_memcpy) simp_all
  show ?thesis
  proof (cases "xdp_adjust_head B ?x1 (- (int udp_headers + int ?wpo))")
    case None
    with True b1 show ?thesis by (simp add: write_reply_send_def Let_def)
  next
    case (Some x2)
    have b2: "in_bounds x x2"
      using in_bounds_trans [OF b1 in_bounds_head [OF assms(1) in_bounds_wf [OF b1] Some]] .
    let ?x3 = "x2\<lparr>xdp_frame := finish_headers (xdp_frame x2) (xdp_data x2) (?wpo + (w + 5))\<rparr>"
    have "in_bounds x (adjusted (xdp_adjust_tail B ?x3 d) ?x3)" if "\<not> past_end x2 42" for d
    proof -
      have "in_bounds x2 ?x3" using that in_bounds_wf [OF b2]
        by (intro finish_headers_in_bounds) (simp_all add: past_end_def)
      with b2 have b3: "in_bounds x ?x3" by (rule in_bounds_trans)
      then show ?thesis
        by (rule in_bounds_trans) (intro in_bounds_adjusted_tail assms(1) in_bounds_wf [OF b3])
    qed
    with True Some b2 show ?thesis by (simp add: write_reply_send_def Let_def)
  qed
qed

lemma write_reply_next_in_bounds:
  assumes "bpf_laws B" and "xdp_wf x"
  shows "in_bounds x (snd (snd (write_reply_next B s x w)))"
  using assms write_reply_send_in_bounds [OF assms] in_bounds_adjusted_head [OF assms] in_bounds_head [OF assms]
  by (simp add: write_reply_next_def Let_def split: option.split)

lemma write_reply_in_bounds:
  assumes "bpf_laws B" and "xdp_wf x" and "cache_wf (kcache s)"
  shows "in_bounds x (snd (snd (bmc_write_reply_main B s x)))"
proof -
  let ?key = "keys s (current_key (pctx s))"
  let ?en = "kcache s (cache_index (mk_hash ?key))"
  obtain hit w x1 where e: "write_reply_entry ?key ?en x = (hit, w, x1)" by (cases "write_reply_entry ?key ?en x")
  have "entry_wf ?en" using assms(3) by (simp add: cache_wf_def)
  then obtain r where r: "x1 = x\<lparr>xdp_frame := memcpy_at (xdp_frame x) (xdp_data x) r\<rparr>"
    "length r = w" "xdp_data x + w \<le> xdp_data_end x"
    by (rule write_reply_entry_store [OF _ assms(2) e])
  then have b1: "in_bounds x x1" using assms(2) by (simp add: in_bounds_memcpy)
  have "in_bounds x (snd (snd (write_reply_next B s' x1 w)))" for s'
    using in_bounds_trans [OF b1 write_reply_next_in_bounds [OF assms(1) in_bounds_wf [OF b1]]] .
  with b1 e assms(2) show ?thesis by (simp add: bmc_write_reply_main_def Let_def)
qed

section \<open>The chain of programs\<close>

lemma exec_xdp_in_bounds:
  assumes "bpf_laws B" and "xdp_wf x" and "cache_wf (kcache s)"
  shows "in_bounds x (snd (snd (exec_xdp B p s x)))"
proof (cases p)
  case BMC_PROG_XDP_INVALIDATE_CACHE
  with assms(2) show ?thesis by (simp add: bmc_invalidate_cache_main_def Let_def)
qed (simp_all add: assms hash_keys_in_bounds prepare_packet_in_bounds write_reply_in_bounds)

text \<open>The codes a program ends with, directly or when a tail call does not happen.\<close>

fun result_code :: "'p outcome \<Rightarrow> int" where
  "result_code (Return a) = a"
| "result_code (Tail_call p a) = a"

definition xdp_codes :: "int set" where
  "xdp_codes = {XDP_DROP, XDP_PASS, XDP_TX}"

lemma rx_filter_code: "result_code (fst (bmc_rx_filter_main B s x)) \<in> xdp_codes"
  by (simp add: xdp_codes_def bmc_rx_filter_main_def rx_dispatch_def rx_start_get_def Let_def split: option.split)

lemma exec_xdp_code: "result_code (fst (exec_xdp B p s x)) \<in> xdp_codes"
  by (cases p)
    (simp_all add: xdp_codes_def bmc_hash_keys_main_def hash_keys_next_def bmc_prepare_packet_main_def
      bmc_write_reply_main_def write_reply_next_def write_reply_send_def bmc_invalidate_cache_main_def Let_def
      split: option.split prod.split)

lemma run_xdp_safe:
  assumes "bpf_laws B" and "xdp_wf x" and "cache_wf (kcache s)" and "result_code r \<in> xdp_codes"
    and "run_xdp B n (r, s, x) = (a, s', x')"
  shows "in_bounds x x' \<and> a \<in> xdp_codes"
  using assms(2-)
proof (induction n arbitrary: r s x)
  case 0
  then show ?case by (cases r) auto
next
  case (Suc n)
  show ?case
  proof (cases r)
    case (Return b)
    with Suc.prems show ?thesis by simp
  next
    case (Tail_call p b)
    obtain r1 s1 x1 where e: "exec_xdp B p s x = (r1, s1, x1)" by (cases "exec_xdp B p s x")
    have b1: "in_bounds x x1" using exec_xdp_in_bounds [OF assms(1) Suc.prems(1,2), of p] e by simp
    have "cache_wf (kcache s1)"
      using exec_xdp_weakens [of s B p x] e Suc.prems(2) by (auto simp: weakens_def intro: weaker_cache_wf)
    moreover have "result_code r1 \<in> xdp_codes" using exec_xdp_code [of B p s x] e by simp
    ultimately have "in_bounds x1 x' \<and> a \<in> xdp_codes"
      using Suc.IH [OF in_bounds_wf [OF b1]] Suc.prems(4) Tail_call e by simp
    with b1 show ?thesis by (blast intro: in_bounds_trans)
  qed
qed

text \<open>
  C9.  Memory safety.  For every packet, every number of tail calls and every state of the maps the
  programs can be in, the receive path ends with \<^verbatim>\<open>XDP_DROP\<close>, \<^verbatim>\<open>XDP_PASS\<close> or \<^verbatim>\<open>XDP_TX\<close>, the packet's
  view stays inside the frame, the frame keeps its size and no byte at or after the packet's end is
  written.
\<close>

theorem receive_memory_safe:
  assumes "bpf_laws B" and "xdp_wf x" and "maps_wf s" and "xdp_receive B n s x = (a, s', x')"
  shows "a \<in> {XDP_DROP, XDP_PASS, XDP_TX} \<and> xdp_wf x' \<and> length (xdp_frame x') = length (xdp_frame x) \<and>
    xdp_data_end x' \<le> xdp_data_end x \<and>
    drop (xdp_data_end x) (xdp_frame x') = drop (xdp_data_end x) (xdp_frame x)"
proof -
  obtain r s1 x1 where e: "bmc_rx_filter_main B s x = (r, s1, x1)" by (cases "bmc_rx_filter_main B s x")
  have b1: "in_bounds x x1" using rx_filter_in_bounds [OF assms(1,2), of s] e by simp
  have "cache_wf (kcache s1)"
    using rx_filter_harmless [of s B x] e assms(3) by (simp add: harmless_def maps_wf_def)
  moreover have "result_code r \<in> xdp_codes" using rx_filter_code [of B s x] e by simp
  ultimately have "in_bounds x1 x' \<and> a \<in> xdp_codes"
    using run_xdp_safe [OF assms(1) in_bounds_wf [OF b1]] assms(4) e by (simp add: xdp_receive_def)
  with b1 show ?thesis using in_bounds_trans [OF b1] by (auto simp: in_bounds_def xdp_codes_def)
qed

theorem receive_memory_safe_witness:
  "fst (xdp_receive bpf_ref 33 initial_state (xdp_of (bytes ''short''))) \<in> {XDP_DROP, XDP_PASS, XDP_TX}"
  using receive_memory_safe [OF bpf_ref_laws xdp_of_simps(2) initial_maps_wf, of 33 "bytes ''short''"]
  by (metis prod.collapse)

end
