(* ===== verification/Itoa.thy ===== *)
theory Itoa
  imports Bmc_Prelude
begin

text \<open>
  Printing of integers (\<^verbatim>\<open>src/memcached-sr/itoa_ljust.c\<close>).  A cursor \<^verbatim>\<open>char *p\<close> is an offset into an
  explicit buffer; every function maps a buffer and a cursor to the buffer and cursor it leaves.  The
  fall-through \<^verbatim>\<open>switch\<close> of \<^verbatim>\<open>itoa\<close> is a sequence of guarded steps, one per pair of labels.

  The facts compare the printed text with \<open>decimal\<close>, the usual recursive definition of the decimal
  digits of a number.
\<close>

type_synonym cursor = "u8 list \<times> nat"

section \<open>The printer\<close>

definition lut :: "u8 list" where
  "lut = bytes (''0001020304050607080910111213141516171819'' @
                ''2021222324252627282930313233343536373839'' @
                ''4041424344454647484950515253545556575859'' @
                ''6061626364656667686970717273747576777879'' @
                ''8081828384858687888990919293949596979899'')"

definition out2 :: "u32 \<Rightarrow> cursor \<Rightarrow> cursor" where
  "out2 d = (\<lambda>(buf, p). (memcpy_at buf p (segment (2 * unat d) 2 lut), p + 2))"

definition out1 :: "u8 \<Rightarrow> cursor \<Rightarrow> cursor" where
  "out1 c = (\<lambda>(buf, p). (memcpy_at buf p [c], p + 1))"

text \<open>\<open>digits u k d b n\<close> returns the new values of \<^verbatim>\<open>*d\<close>, \<^verbatim>\<open>*p\<close> and \<^verbatim>\<open>n\<close>.\<close>

definition digits :: "u32 \<Rightarrow> u32 \<Rightarrow> u32 \<Rightarrow> cursor \<Rightarrow> nat \<Rightarrow> u32 \<times> cursor \<times> nat" where
  "digits u k d b n = (if u < k * 10 then let d = u div k in (d, out1 (48 + ucast d) b, n - 1) else (d, b, n))"

text \<open>The cases \<open>c\<close> and \<open>c - 1\<close> of the switch, entered from above or directly.\<close>

definition itoa_case :: "nat \<Rightarrow> nat \<Rightarrow> u32 \<Rightarrow> u32 \<times> u32 \<times> cursor \<Rightarrow> u32 \<times> u32 \<times> cursor" where
  "itoa_case n c k = (\<lambda>(u, d, b).
     let (d, b) = (if c \<le> n then (u div k, out2 (u div k) b) else (d, b)) in
     (if c - 1 \<le> n then u - d * k else u, d, b))"

definition itoa_last :: "nat \<Rightarrow> u32 \<times> u32 \<times> cursor \<Rightarrow> cursor" where
  "itoa_last n = (\<lambda>(u, d, b). if 2 \<le> n then out2 (u div 1) b else b)"

definition itoa :: "u32 \<Rightarrow> cursor \<Rightarrow> u32 \<Rightarrow> nat \<Rightarrow> cursor" where
  "itoa u b d n =
     (let (buf, p) = itoa_last n (itoa_case n 4 100 (itoa_case n 6 10000
                       (itoa_case n 8 1000000 (itoa_case n 10 100000000 (u, d, b))))) in
      (memcpy_at buf p [0], p))"

definition itoa_u32 :: "u32 \<Rightarrow> cursor \<Rightarrow> cursor" where
  "itoa_u32 u b =
     (let (d, b, n) =
        (if u \<ge> 100000000 then digits u 100000000 0 b 10
         else if u < 100 then digits u 1 0 b 2
         else if u < 10000 then digits u 100 0 b 4
         else if u < 1000000 then digits u 10000 0 b 6
         else digits u 1000000 0 b 8) in
      itoa u b d n)"

definition itoa_32 :: "u32 \<Rightarrow> cursor \<Rightarrow> cursor" where
  "itoa_32 i b =
     (let u = i in
      if i <s 0 then itoa_u32 (- u) (out1 (asc CHR ''-'') b) else itoa_u32 u b)"

function itoa_u64 :: "u64 \<Rightarrow> cursor \<Rightarrow> cursor" where
  "itoa_u64 u b =
     (let lower = ucast u :: u32 in
      if ucast lower = u then itoa_u32 lower b
      else
        let upper = u div 1000000000;
            b = itoa_u64 upper b;
            lower = ucast (u - upper * 1000000000) :: u32;
            d = lower div 100000000;
            b = out1 (48 + ucast d) b
        in itoa lower b d 9)"
  by auto
termination
  by (relation "measure (\<lambda>(u, b). unat u)") (auto simp: unat_div unat_gt_0 intro!: div_less_dividend)

declare itoa_u64.simps [simp del]

definition itoa_64 :: "u64 \<Rightarrow> cursor \<Rightarrow> cursor" where
  "itoa_64 i b =
     (let u = i in
      if i <s 0 then itoa_u64 (- u) (out1 (asc CHR ''-'') b) else itoa_u64 u b)"

section \<open>Decimal digits\<close>

definition digit :: "nat \<Rightarrow> u8" where
  "digit n = 48 + of_nat n"

fun decimal :: "nat \<Rightarrow> u8 list" where
  "decimal n = (if n < 10 then [digit n] else decimal (n div 10) @ [digit (n mod 10)])"

declare decimal.simps [simp del]

text \<open>The last \<open>k\<close> digits of a number.\<close>

fun pad :: "nat \<Rightarrow> nat \<Rightarrow> u8 list" where
  "pad 0 n = []"
| "pad (Suc k) n = pad k (n div 10) @ [digit (n mod 10)]"

lemma length_pad [simp]: "length (pad k n) = k"
  by (induction k arbitrary: n) simp_all

lemma pad_add: "pad (a + b) n = pad a (n div 10 ^ b) @ pad b n"
  by (induction b arbitrary: n) (simp_all add: div_mult2_eq)

lemma pad_mod: "pad k (n mod 10 ^ k) = pad k n"
proof (induction k arbitrary: n)
  case (Suc k)
  have "n mod 10 ^ Suc k div 10 = n div 10 mod 10 ^ k" by (simp add: mod_mult2_eq)
  moreover have "n mod 10 ^ Suc k mod 10 = n mod 10" by (simp add: mod_mult2_eq)
  ultimately show ?case using Suc.IH by (simp del: power_Suc)
qed simp

lemma decimal_pad: "10 ^ k \<le> n \<Longrightarrow> n < 10 ^ Suc k \<Longrightarrow> decimal n = pad (Suc k) n"
proof (induction k arbitrary: n)
  case 0
  then show ?case by (simp add: decimal.simps)
next
  case (Suc k)
  have "10 ^ k \<le> n div 10" "n div 10 < 10 ^ Suc k" using Suc.prems by simp_all
  moreover have "(10 :: nat) \<le> 10 ^ Suc k" by simp
  with Suc.prems(1) have "\<not> n < 10" by linarith
  ultimately show ?case using Suc.IH [of "n div 10"] by (subst decimal.simps) simp
qed

lemma decimal_append: "0 < n div 10 ^ k \<Longrightarrow> decimal n = decimal (n div 10 ^ k) @ pad k n"
proof (induction k arbitrary: n)
  case (Suc k)
  have a: "0 < n div 10 div 10 ^ k" using Suc.prems by (simp add: div_mult2_eq)
  have "\<not> n < 10" using a by (metis div_less div_0 less_numeral_extra(3))
  then have "decimal n = decimal (n div 10) @ [digit (n mod 10)]" by (subst decimal.simps) simp
  with Suc.IH [OF a] show ?case by (simp add: div_mult2_eq)
qed simp

lemma length_decimal_le: "n < 10 ^ k \<Longrightarrow> 0 < k \<Longrightarrow> length (decimal n) \<le> k"
proof (induction k arbitrary: n)
  case (Suc k)
  show ?case
  proof (cases "n < 10")
    case False
    then have "0 < k" using Suc.prems(1) by (cases k) simp_all
    moreover have "n div 10 < 10 ^ k" using Suc.prems(1) by simp
    ultimately have "length (decimal (n div 10)) \<le> k" using Suc.IH by blast
    with False show ?thesis by (subst decimal.simps) simp
  qed (simp add: decimal.simps)
qed simp

section \<open>What the printer writes\<close>

definition wr :: "u8 list \<Rightarrow> cursor \<Rightarrow> cursor" where
  "wr s = (\<lambda>(buf, p). (memcpy_at buf p s, p + length s))"

definition room :: "nat \<Rightarrow> cursor \<Rightarrow> bool" where
  "room n = (\<lambda>(buf, p). p + n \<le> length buf)"

text \<open>The text and its terminator, with the cursor left on the terminator.\<close>

definition wr0 :: "u8 list \<Rightarrow> cursor \<Rightarrow> cursor" where
  "wr0 s = (\<lambda>(buf, p). (memcpy_at buf p (s @ [0]), p + length s))"

lemma wr_Nil [simp]: "wr [] b = b"
  by (cases b) (simp add: wr_def)

lemma wr_wr: "room (length s + length t) b \<Longrightarrow> wr t (wr s b) = wr (s @ t) b"
  by (cases b) (simp add: wr_def room_def memcpy_at_memcpy_at_adjacent)

lemma wr0_wr: "room (length s + length t + 1) b \<Longrightarrow> wr0 t (wr s b) = wr0 (s @ t) b"
  by (cases b) (simp add: wr_def wr0_def room_def memcpy_at_memcpy_at_adjacent)

lemma room_wr: "room (length s + n) b \<Longrightarrow> room n (wr s b)"
  by (cases b) (simp add: wr_def room_def)

lemma room_mono: "room n b \<Longrightarrow> m \<le> n \<Longrightarrow> room m b"
  by (cases b) (simp add: room_def)

lemma lut_pair: "n < 100 \<Longrightarrow> segment (2 * n) 2 lut = pad 2 n"
proof -
  have "list_all (\<lambda>n. segment (2 * n) 2 lut = pad 2 n) [0..<100]" by code_simp
  then show "n < 100 \<Longrightarrow> segment (2 * n) 2 lut = pad 2 n" by (simp add: list_all_iff)
qed

lemma out2_wr: "d < 100 \<Longrightarrow> out2 d = wr (pad 2 (unat d))"
  by (simp add: out2_def wr_def lut_pair word_less_nat_alt)

lemma out1_wr: "out1 c = wr [c]"
  by (simp add: out1_def wr_def)

lemma digit_word:
  assumes "(d :: u32) < 10"
  shows "48 + ucast d = digit (unat d)"
  by (simp add: digit_def)

lemma itoa_case_skip: "n < c - 1 \<Longrightarrow> itoa_case n c k s = s"
  by (cases s) (auto simp: itoa_case_def)

lemma itoa_case_sub: "0 < c \<Longrightarrow> n = c - 1 \<Longrightarrow> itoa_case n c k (u, d, b) = (u - d * k, d, b)"
  by (auto simp: itoa_case_def)

lemma itoa_case_pair:
  assumes "c \<le> n" and "u div k < 100"
  shows "itoa_case n c k (u, d, b) = (u mod k, u div k, wr (pad 2 (unat (u div k))) b)"
  using assms le_trans [OF diff_le_self assms(1), of 1] by (simp add: itoa_case_def out2_wr minus_div_mult_eq_mod)

text \<open>From each even label on, the remaining digits of a number that has no more of them are written.\<close>

lemma unat_div_mod:
  "unat ((u :: u32) div k) = unat u div unat k" "unat (u mod k) = unat u mod unat k"
  by (simp_all add: unat_div unat_mod)

lemma pad_pair: "pad 2 (n div 10 ^ k) @ pad k (n mod 10 ^ k) = pad (2 + k) n"
  by (simp only: pad_mod pad_add)

lemma itoa_step_wr:
  assumes tail: "\<And>u d b. unat (u :: u32) < 10 ^ m \<Longrightarrow> room m b \<Longrightarrow> F (u, d, b) = wr (pad m (unat u)) b"
    and "c \<le> n" and k: "unat (k :: u32) = 10 ^ m" and u: "unat u < 10 ^ (2 + m)" and r: "room (2 + m) b"
  shows "F (itoa_case n c k (u, d, b)) = wr (pad (2 + m) (unat u)) b"
proof -
  have "unat u div 10 ^ m < 100" using u by (simp add: power_add less_mult_imp_div_less)
  then have "u div k < 100" using k by (simp add: word_less_nat_alt unat_div_mod)
  moreover have "unat (u mod k) < 10 ^ m" using k by (simp add: unat_div_mod)
  moreover have "room m (wr (pad 2 (unat (u div k))) b)" using r by (simp add: room_wr)
  ultimately have "F (itoa_case n c k (u, d, b)) = wr (pad m (unat (u mod k))) (wr (pad 2 (unat (u div k))) b)"
    using tail assms(2) by (simp add: itoa_case_pair)
  also have "\<dots> = wr (pad 2 (unat (u div k)) @ pad m (unat (u mod k))) b" using r by (simp add: wr_wr)
  also have "\<dots> = wr (pad (2 + m) (unat u)) b" using k by (simp only: unat_div_mod pad_pair)
  finally show ?thesis .
qed

lemma itoa_from2: "2 \<le> n \<Longrightarrow> unat u < 10 ^ 2 \<Longrightarrow> itoa_last n (u, d, b) = wr (pad 2 (unat u)) b"
  by (simp add: itoa_last_def out2_wr word_less_nat_alt)

lemma itoa_from4:
  assumes "4 \<le> n" and "unat u < 10 ^ 4" and "room 4 b"
  shows "itoa_last n (itoa_case n 4 100 (u, d, b)) = wr (pad 4 (unat u)) b"
  using itoa_step_wr [of 2 "itoa_last n" 4 n 100 u b d] itoa_from2 [of n] assms by simp

lemma itoa_from6:
  assumes "6 \<le> n" and "unat u < 10 ^ 6" and "room 6 b"
  shows "itoa_last n (itoa_case n 4 100 (itoa_case n 6 10000 (u, d, b))) = wr (pad 6 (unat u)) b"
  using itoa_step_wr [of 4 "\<lambda>s. itoa_last n (itoa_case n 4 100 s)" 6 n 10000 u b d] itoa_from4 [of n] assms by simp

lemma itoa_from8:
  assumes "8 \<le> n" and "unat u < 10 ^ 8" and "room 8 b"
  shows "itoa_last n (itoa_case n 4 100 (itoa_case n 6 10000 (itoa_case n 8 1000000 (u, d, b)))) = wr (pad 8 (unat u)) b"
  using itoa_step_wr [of 6 "\<lambda>s. itoa_last n (itoa_case n 4 100 (itoa_case n 6 10000 s))" 8 n 1000000 u b d]
    itoa_from6 [of n] assms by simp

lemma itoa_from10:
  assumes "10 \<le> n" and "room 10 b"
  shows "itoa_last n (itoa_case n 4 100 (itoa_case n 6 10000 (itoa_case n 8 1000000
    (itoa_case n 10 100000000 (u, d, b))))) = wr (pad 10 (unat u)) b"
proof -
  have "unat u < 10000000000" using unat_u32_less [of u] by linarith
  then show ?thesis
    using itoa_step_wr [of 8 "\<lambda>s. itoa_last n (itoa_case n 4 100 (itoa_case n 6 10000 (itoa_case n 8 1000000 s)))"
      10 n 100000000 u b d] itoa_from8 [of n] assms by simp
qed

lemma wr0_conv: "(let (buf, p) = wr s b in (memcpy_at buf p [0], p)) = wr0 s b" if "room (length s + 1) b"
  using that by (cases b) (simp add: wr_def wr0_def room_def memcpy_at_memcpy_at_adjacent)

text \<open>Entered at an even label, \<^verbatim>\<open>itoa\<close> writes all digits; at an odd one it first takes off the leading digit \<open>d\<close>.\<close>

lemma itoa_even:
  assumes "n \<in> {2, 4, 6, 8, 10}" and "unat u < 10 ^ n" and "room (n + 1) b"
  shows "itoa u b d n = wr0 (pad n (unat u)) b"
proof -
  have "room n b" using assms(3) room_mono by fastforce
  then have "itoa_last n (itoa_case n 4 100 (itoa_case n 6 10000 (itoa_case n 8 1000000
      (itoa_case n 10 100000000 (u, d, b))))) = wr (pad n (unat u)) b"
    using assms(1,2)
    by (auto simp: itoa_case_skip itoa_from2 itoa_from4 itoa_from6 itoa_from8 itoa_from10)
  then show ?thesis using wr0_conv [of "pad n (unat u)" b] assms(3) by (simp add: itoa_def)
qed

lemma itoa_odd:
  assumes "n \<in> {1, 3, 5, 7, 9}" and d: "unat d = unat u div 10 ^ (n - 1)" and "room n b"
  shows "itoa u b d n = wr0 (pad (n - 1) (unat u)) b"
proof -
  have sub: "unat (u - d * k) = unat u mod 10 ^ (n - 1)" if "unat k = 10 ^ (n - 1)" for k
  proof -
    have "d = u div k" using d that by (simp add: word_unat_eq_iff unat_div_mod)
    then show ?thesis using that by (simp add: minus_div_mult_eq_mod unat_div_mod)
  qed
  have r: "room (n - 1) b" using assms(3) room_mono by fastforce
  have "itoa_last n (itoa_case n 4 100 (itoa_case n 6 10000 (itoa_case n 8 1000000
      (itoa_case n 10 100000000 (u, d, b))))) = wr (pad (n - 1) (unat u)) b"
  proof -
    consider "n = 1" | "n = 3" | "n = 5" | "n = 7" | "n = 9" using assms(1) by auto
    then show ?thesis
    proof cases
      case 1
      then show ?thesis by (simp add: itoa_case_skip itoa_last_def)
    next
      case 2
      then show ?thesis using itoa_from2 [of n "u - d * 100" d b] sub [of 100] pad_mod [of 2 "unat u"]
        by (simp add: itoa_case_skip itoa_case_sub)
    next
      case 3
      then show ?thesis using itoa_from4 [of n "u - d * 10000" b d] sub [of 10000] pad_mod [of 4 "unat u"] r
        by (simp add: itoa_case_skip itoa_case_sub)
    next
      case 4
      then show ?thesis using itoa_from6 [of n "u - d * 1000000" b d] sub [of 1000000] pad_mod [of 6 "unat u"] r
        by (simp add: itoa_case_skip itoa_case_sub)
    next
      case 5
      then show ?thesis using itoa_from8 [of n "u - d * 100000000" b d] sub [of 100000000] pad_mod [of 8 "unat u"] r
        by (simp add: itoa_case_sub)
    qed
  qed
  then show ?thesis using wr0_conv [of "pad (n - 1) (unat u)" b] assms(1,3) by (auto simp: itoa_def)
qed

lemma digits_itoa:
  assumes n: "n \<in> {2, 4, 6, 8, 10}" and k: "unat (k :: u32) = 10 ^ (n - 2)" "unat (k * 10) = 10 ^ (n - 1)"
    and u: "10 ^ (n - 2) \<le> unat u \<or> n = 2" "unat u < 10 ^ n" and r: "room (n + 1) b"
  shows "(let (d, b, n) = digits u k 0 b n in itoa u b d n) = wr0 (decimal (unat u)) b"
proof (cases "u < k * 10")
  case True
  then have less: "unat u < 10 ^ (n - 1)" using k(2) by (simp add: word_less_nat_alt)
  have Suc: "n - 1 = Suc (n - 2)" using n by auto
  let ?d = "u div k"
  have d: "unat ?d = unat u div 10 ^ (n - 2)" using k(1) by (simp add: unat_div_mod)
  moreover have "unat u < 10 * 10 ^ (n - 2)" using less unfolding Suc by simp
  then have d10: "unat ?d < 10" unfolding d by (rule less_mult_imp_div_less)
  moreover have n1: "n - 1 \<in> {1, 3, 5, 7, 9}" using n by auto
  moreover have "room (n - 1) (wr [digit (unat ?d)] b)"
    using r n by (intro room_wr) (auto intro: room_mono)
  ultimately have "itoa u (wr [digit (unat ?d)] b) ?d (n - 1) = wr0 (pad (n - 2) (unat u)) (wr [digit (unat ?d)] b)"
    using itoa_odd [of "n - 1" ?d u "wr [digit (unat ?d)] b"] by (simp add: numeral_2_eq_2)
  moreover have "48 + ucast ?d = digit (unat ?d)" using digit_word d10 by (simp add: word_less_nat_alt)
  ultimately have "(let (d, b, n) = digits u k 0 b n in itoa u b d n) = wr0 (pad (n - 2) (unat u)) (wr [digit (unat ?d)] b)"
    using True by (simp add: digits_def out1_wr Let_def)
  also have "\<dots> = wr0 (digit (unat ?d) # pad (n - 2) (unat u)) b"
    using r n by (subst wr0_wr) (auto intro: room_mono)
  also have "digit (unat ?d) # pad (n - 2) (unat u) = pad (1 + (n - 2)) (unat u)"
    using d10 d by (simp only: pad_add) simp
  also have "\<dots> = decimal (unat u)"
  proof (cases "10 ^ (n - 2) \<le> unat u")
    case True
    then show ?thesis using decimal_pad [of "n - 2" "unat u"] less Suc by simp
  next
    case False
    then have "n = 2" using u(1) by simp
    then show ?thesis using less by (simp add: decimal.simps)
  qed
  finally show ?thesis .
next
  case False
  then have "10 ^ (n - 1) \<le> unat u" using k(2) by (simp add: word_less_nat_alt not_less)
  moreover have "n = Suc (n - 1)" using n by auto
  ultimately have "decimal (unat u) = pad n (unat u)" using decimal_pad [of "n - 1" "unat u"] u(2) by simp
  with False show ?thesis using itoa_even [OF n u(2) r] by (simp add: digits_def)
qed

lemma itoa_u32_wr:
  assumes "room 11 b"
  shows "itoa_u32 u b = wr0 (decimal (unat u)) b"
proof -
  have r: "room n b" if "n \<le> 11" for n using assms that by (rule room_mono)
  have big: "unat u < 10000000000" using unat_u32_less [of u] by linarith
  consider "u \<ge> 100000000" | "u < 100" | "100 \<le> u" "u < 10000" | "10000 \<le> u" "u < 1000000"
    | "1000000 \<le> u" "u < 100000000" by fastforce
  then show ?thesis
  proof cases
    case 1
    then show ?thesis using digits_itoa [of 10 100000000 u b] r [of 11] big
      by (simp add: itoa_u32_def word_le_nat_alt)
  next
    case 2
    then show ?thesis using digits_itoa [of 2 1 u b] r [of 3]
      by (simp add: itoa_u32_def word_less_nat_alt word_le_nat_alt)
  next
    case 3
    then show ?thesis using digits_itoa [of 4 100 u b] r [of 5]
      by (simp add: itoa_u32_def word_less_nat_alt word_le_nat_alt)
  next
    case 4
    then show ?thesis using digits_itoa [of 6 10000 u b] r [of 7]
      by (simp add: itoa_u32_def word_less_nat_alt word_le_nat_alt)
  next
    case 5
    then show ?thesis using digits_itoa [of 8 1000000 u b] r [of 9]
      by (simp add: itoa_u32_def word_less_nat_alt word_le_nat_alt)
  qed
qed

lemma memcpy_at_overwrite:
  assumes "i + length s + length t \<le> length xs" and "t \<noteq> []"
  shows "memcpy_at (memcpy_at xs i (s @ [y])) (i + length s) t = memcpy_at xs i (s @ t)"
proof -
  obtain c r where t: "t = c # r" using assms(2) by (cases t) auto
  have b: "i + length (s @ [y]) \<le> length xs" using assms(1) t by simp
  have l: "length (memcpy_at xs i (s @ [y])) = length xs" using b by (rule length_memcpy_at)
  have l': "length (memcpy_at (memcpy_at xs i (s @ [y])) (i + length s) t) = length xs" using l assms(1) by simp
  show ?thesis
  proof (intro nth_equalityI)
    fix j assume "j < length (memcpy_at (memcpy_at xs i (s @ [y])) (i + length s) t)"
    then have "j < length xs" using l' by simp
    then show "memcpy_at (memcpy_at xs i (s @ [y])) (i + length s) t ! j = memcpy_at xs i (s @ t) ! j"
      using assms(1) t b l nth_memcpy_at [OF b, of j] nth_memcpy_at [of "i + length s" t "memcpy_at xs i (s @ [y])" j]
        nth_memcpy_at [of i "s @ t" xs j]
      by (auto simp: nth_append)
  qed (use l' assms(1) in simp)
qed

lemma wr_wr0:
  assumes "room (length s + length t) b" and "t \<noteq> []"
  shows "wr t (wr0 s b) = wr (s @ t) b"
  using assms memcpy_at_overwrite [of "snd b" s t "fst b" 0] by (cases b) (simp add: wr_def wr0_def room_def)

lemma itoa_u64_wr:
  assumes "room 21 b"
  shows "itoa_u64 u b = wr0 (decimal (unat u)) b"
  using assms
proof (induction u b rule: itoa_u64.induct)
  case (1 u b)
  let ?lower = "ucast u :: u32"
  show ?case
  proof (cases "ucast ?lower = u")
    case True
    then have "unat u = unat ?lower" by (metis unat_ucast_u64)
    then show ?thesis using True itoa_u32_wr [of b ?lower] room_mono [OF 1(2)] by (simp add: itoa_u64.simps [of u])
  next
    case False
    let ?n = "unat u" and ?upper = "u div 1000000000" and ?m = "1000000000 :: nat"
    let ?l = "ucast (u - ?upper * 1000000000) :: u32"
    have up: "unat ?upper = ?n div ?m" by (simp add: unat_div)
    have "?m \<le> ?n"
    proof (rule ccontr)
      assume "\<not> ?m \<le> ?n"
      then have "unat (ucast ?lower :: u64) = ?n" by (simp add: unat_ucast_u32)
      then show False using False by (simp add: word_unat_eq_iff)
    qed
    then have pos: "0 < ?n div 10 ^ 9" by (simp add: div_greater_zero_iff)
    have "u - ?upper * 1000000000 = u mod 1000000000" by (simp add: minus_div_mult_eq_mod)
    then have l: "unat ?l = ?n mod ?m" by (simp add: unat_ucast_u32 unat_mod)
    define d where "d = ?l div 100000000"
    have d: "unat d = unat ?l div 10 ^ 8" "unat d < 10" using l by (simp_all add: d_def unat_div_mod)
    have "?n < 100000000000 * ?m" using unat_u64_less [of u] by linarith
    then have "?n div ?m < 100000000000" by (rule less_mult_imp_div_less)
    then have len: "length (decimal (?n div ?m)) \<le> 11" using length_decimal_le [of _ 11] by simp
    let ?b = "wr (decimal (?n div ?m) @ [digit (unat d)]) b"
    have rest: "room 9 ?b" using 1(2) len by (intro room_wr) (auto intro: room_mono)
    have "itoa_u64 u b = itoa ?l (out1 (48 + ucast d) (wr0 (decimal (?n div ?m)) b)) d 9"
      using False 1 up by (simp add: itoa_u64.simps [of u] Let_def d_def)
    also have "out1 (48 + ucast d) (wr0 (decimal (?n div ?m)) b) = ?b"
      using digit_word [of d] d(2) 1(2) len
      by (simp add: out1_wr word_less_nat_alt wr_wr0 room_mono)
    also have "itoa ?l ?b d 9 = wr0 (pad 8 (unat ?l)) ?b" using itoa_odd [of 9 d ?l ?b] rest d(1) by simp
    also have "\<dots> = wr0 (decimal (?n div ?m) @ digit (unat d) # pad 8 (unat ?l)) b"
      using 1(2) len by (subst wr0_wr) (auto intro: room_mono)
    also have "digit (unat d) # pad 8 (unat ?l) = pad (1 + 8) (unat ?l)" using d by (simp only: pad_add) simp
    also have "\<dots> = pad 9 ?n" using l pad_mod [of 9 ?n] by simp
    finally show ?thesis using decimal_append [OF pos] by simp
  qed
qed

section \<open>The property of the printer\<close>

text \<open>The decimal text of a signed number.\<close>

definition signed_decimal :: "int \<Rightarrow> u8 list" where
  "signed_decimal i = (if i < 0 then asc CHR ''-'' # decimal (nat (- i)) else decimal (nat i))"

lemma unat_of_int_small:
  "0 \<le> x \<Longrightarrow> x < 2 ^ LENGTH('a::len) \<Longrightarrow> unat (of_int x :: 'a word) = nat x"
  by (simp add: unat_eq_nat_uint uint_word_of_int)

lemma sint_less_two_power: "sint (i :: 'a::len word) < 2 ^ LENGTH('a)" "- sint i < 2 ^ LENGTH('a)"
proof -
  have "(2 :: int) ^ (LENGTH('a) - 1) < 2 ^ LENGTH('a)" by simp
  then show "sint i < 2 ^ LENGTH('a)" "- sint i < 2 ^ LENGTH('a)"
    using sint_lt [of i] sint_ge [of i] by linarith+
qed

lemma sint_negate: "sint (i :: 'a::len word) < 0 \<Longrightarrow> nat (- sint i) = unat (- i)"
  using unat_of_int_small [of "- sint i", where ?'a = 'a] sint_less_two_power [of i] by simp

lemma nat_sint_nonneg: "\<not> sint (i :: 'a::len word) < 0 \<Longrightarrow> nat (sint i) = unat i"
  using unat_of_int_small [of "sint i", where ?'a = 'a] sint_less_two_power [of i] by simp

lemma itoa_64_wr:
  assumes r: "room 22 b"
  shows "itoa_64 i b = wr0 (signed_decimal (sint i)) b"
proof (cases "sint i < 0")
  case True
  let ?b = "wr [asc CHR ''-''] b"
  have "unat (- i) < 10 ^ 20" using unat_u64_less [of "- i"] by (simp del: unat_u64_less)
  then have "length (decimal (unat (- i))) \<le> 20" using length_decimal_le [of _ 20] by simp
  then have "itoa_64 i b = wr0 (asc CHR ''-'' # decimal (unat (- i))) b"
    using True itoa_u64_wr [of ?b "- i"] room_wr [of "[asc CHR ''-'']" 21 b] r room_mono [OF r]
    by (simp add: itoa_64_def out1_wr wr0_wr word_sless_alt)
  then show ?thesis using True sint_negate [OF True] by (simp add: signed_decimal_def)
next
  case False
  then show ?thesis using nat_sint_nonneg [OF False] itoa_u64_wr [of b i] room_mono [OF r]
    by (simp add: itoa_64_def signed_decimal_def word_sless_alt)
qed

text \<open>
  C28.  Printing is exact.  In a buffer with room for 22 bytes after the cursor, \<^verbatim>\<open>itoa_64\<close> and \<^verbatim>\<open>itoa_u64\<close>
  write the decimal text of their argument followed by a terminator, leave the cursor on the terminator
  and change no other byte.
\<close>

theorem itoa_decimal:
  assumes "p + 22 \<le> length buf"
  shows "itoa_u64 u (buf, p) = (memcpy_at buf p (decimal (unat u) @ [0]), p + length (decimal (unat u))) \<and>
    itoa_64 u (buf, p) = (memcpy_at buf p (signed_decimal (sint u) @ [0]), p + length (signed_decimal (sint u)))"
  using assms itoa_u64_wr [of "(buf, p)" u] itoa_64_wr [of "(buf, p)" u] by (simp add: room_def wr0_def)

theorem itoa_decimal_witness:
  "itoa_64 (- 42) (replicate 30 1, 3) = (memcpy_at (replicate 30 1) 3 (bytes ''-42'' @ [0]), 6)"
  using itoa_decimal [of 3 "replicate 30 1" "- 42"]
  by (simp add: signed_decimal_def decimal.simps digit_def)

end
