(* ===== verification/Bmc_User.thy ===== *)
theory Bmc_User
  imports Bmc_Data Itoa
begin

text \<open>
  The user-space side (\<^verbatim>\<open>src/bmc/bmc_user.c\<close>): the check of the command line, the sum of the
  per-processor statistics and the two output formats, and the signal loop that decides when statistics
  are written and when the program ends.  Loading and attaching the programs is a sequence of
  calls into libbpf and is not modelled, apart from the table that fills the program arrays.
\<close>

section \<open>Command line\<close>

datatype option_error =
    Negative_count | Negative_interval | Count_without_interval | Interval_without_count | No_interface

text \<open>The checks of \<^verbatim>\<open>main\<close>, in their order, on the parsed values and the number of remaining arguments.\<close>

definition check_options :: "int \<Rightarrow> int \<Rightarrow> int \<Rightarrow> option_error + unit" where
  "check_options stats_poll_count stats_poll_interval interface_count =
     (if stats_poll_count < 0 then Inl Negative_count
      else if stats_poll_interval < 0 then Inl Negative_interval
      else if stats_poll_count > 0 \<and> stats_poll_interval = 0 then Inl Count_without_interval
      else if stats_poll_interval > 0 \<and> stats_poll_count = 0 then Inl Interval_without_count
      else if interface_count \<le> 0 then Inl No_interface
      else Inr ())"

section \<open>Statistics\<close>

definition zero_stats :: bmc_stats where
  "zero_stats = \<lparr>get_recv_count = 0, set_recv_count = 0, get_resp_count = 0, hit_misprediction = 0,
     hit_count = 0, miss_count = 0, update_count = 0, invalidation_count = 0\<rparr>"

definition add_stats :: "bmc_stats \<Rightarrow> bmc_stats \<Rightarrow> bmc_stats" where
  "add_stats a s =
     \<lparr>get_recv_count = get_recv_count a + get_recv_count s,
      set_recv_count = set_recv_count a + set_recv_count s,
      get_resp_count = get_resp_count a + get_resp_count s,
      hit_misprediction = hit_misprediction a + hit_misprediction s,
      hit_count = hit_count a + hit_count s,
      miss_count = miss_count a + miss_count s,
      update_count = update_count a + update_count s,
      invalidation_count = invalidation_count a + invalidation_count s\<rparr>"

fun aggregate_stats :: "bmc_stats \<Rightarrow> bmc_stats list \<Rightarrow> bmc_stats" where
  "aggregate_stats a [] = a"
| "aggregate_stats a (s # ss) = aggregate_stats (add_stats a s) ss"

text \<open>
  \<^verbatim>\<open>write_stats_to_file\<close>: the text written, or \<open>None\<close> when the file
  cannot be opened.  The function opens the fixed path whatever its \<^verbatim>\<open>filename\<close> argument is.  The
  conversions \<^verbatim>\<open>%u\<close> and \<^verbatim>\<open>%lu\<close> print decimal numbers.
\<close>

definition stat_line :: "string \<Rightarrow> u32 \<Rightarrow> u8 list" where
  "stat_line label v = bytes ''STAT '' @ bytes label @ [chr_sp] @ decimal (unat v) @ [chr_nl]"

definition write_stats_to_file :: "bool \<Rightarrow> bmc_stats list \<Rightarrow> u8 list option" where
  "write_stats_to_file fopen_ok cpu_stats =
     (let a = aggregate_stats zero_stats cpu_stats in
      if \<not> fopen_ok then None
      else Some
        (stat_line ''get_recv_count'' (get_recv_count a) @
         stat_line ''set_recv_count'' (set_recv_count a) @
         stat_line ''get_resp_count'' (get_resp_count a) @
         stat_line ''get_key_count'' (hit_misprediction a) @
         stat_line ''hit_count'' (hit_count a) @
         stat_line ''miss_count'' (miss_count a) @
         stat_line ''update_count'' (update_count a) @
         stat_line ''invalidation_count'' (invalidation_count a)))"

definition write_stat_line :: "u64 \<Rightarrow> bmc_stats list \<Rightarrow> u8 list" where
  "write_stat_line now cpu_stats =
     (let a = aggregate_stats zero_stats cpu_stats in
      decimal (unat now) @
      concat (map (\<lambda>v. asc CHR '','' # decimal (unat v))
        [get_recv_count a, set_recv_count a, get_resp_count a, hit_misprediction a,
         hit_count a, miss_count a, update_count a, invalidation_count a]) @ [chr_nl])"

section \<open>The signal loop\<close>

datatype user_signal = SIGINT | SIGTERM | SIGALRM | SIGUSR1 | Other_signal

text \<open>
  What the outside provides with a delivered signal: the time, the statistics of the processors
  as each of the two output functions reads them, and whether the statistics file can be opened.
\<close>

record sig_event =
  ev_sig :: user_signal
  ev_now :: u64
  ev_line_stats :: "bmc_stats list"
  ev_stats :: "bmc_stats list"
  ev_fopen :: bool

record user_state =
  us_ret :: int
  us_quit :: bool
  us_polls :: int
  us_alarms :: nat
  us_lines :: "u8 list list"
  us_files :: "u8 list list"

text \<open>The return value of \<^verbatim>\<open>write_stats_to_file\<close> and the state after its output.\<close>

definition stats_result :: "u8 list option \<Rightarrow> int" where
  "stats_result r = (case r of None \<Rightarrow> -1 | Some f \<Rightarrow> 0)"

definition emit_file :: "u8 list option \<Rightarrow> user_state \<Rightarrow> user_state" where
  "emit_file r st = (case r of None \<Rightarrow> st | Some f \<Rightarrow> st\<lparr>us_files := us_files st @ [f]\<rparr>)"

definition user_step :: "int \<Rightarrow> sig_event \<Rightarrow> user_state \<Rightarrow> user_state" where
  "user_step stats_poll_count ev st =
     (let r = write_stats_to_file (ev_fopen ev) (ev_stats ev) in
      case ev_sig ev of
        SIGINT \<Rightarrow> emit_file r st\<lparr>us_ret := stats_result r, us_quit := True\<rparr>
      | SIGTERM \<Rightarrow> emit_file r st\<lparr>us_ret := stats_result r, us_quit := True\<rparr>
      | SIGALRM \<Rightarrow>
          let st1 = st\<lparr>us_lines := us_lines st @ [write_stat_line (ev_now ev) (ev_line_stats ev)],
                        us_polls := us_polls st + 1\<rparr> in
          if us_polls st1 < stats_poll_count then st1\<lparr>us_alarms := us_alarms st1 + 1\<rparr>
          else emit_file r st1\<lparr>us_ret := us_ret st1 OR stats_result r, us_quit := True\<rparr>
      | SIGUSR1 \<Rightarrow> emit_file r st\<lparr>us_ret := stats_result r, us_quit := stats_result r \<noteq> 0\<rparr>
      | Other_signal \<Rightarrow> st)"

fun user_loop :: "int \<Rightarrow> sig_event list \<Rightarrow> user_state \<Rightarrow> user_state" where
  "user_loop c [] st = st"
| "user_loop c (ev # evs) st = (if us_quit st then st else user_loop c evs (user_step c ev st))"

text \<open>The state in which \<^verbatim>\<open>main\<close> enters the loop: the first alarm is set when polling was asked for.\<close>

definition user_start :: "int \<Rightarrow> int \<Rightarrow> user_state" where
  "user_start stats_poll_count stats_poll_interval =
     \<lparr>us_ret = 0, us_quit = False, us_polls = 0,
      us_alarms = (if stats_poll_count > 0 \<and> stats_poll_interval > 0 then 1 else 0),
      us_lines = [], us_files = []\<rparr>"

section \<open>Facts\<close>

text \<open>The counters of all processors, summed without a bound.\<close>

definition total :: "(bmc_stats \<Rightarrow> u32) \<Rightarrow> bmc_stats list \<Rightarrow> nat" where
  "total f ss = sum_list (map (\<lambda>s. unat (f s)) ss)"

definition counters :: "(bmc_stats \<Rightarrow> u32) list" where
  "counters = [get_recv_count, set_recv_count, get_resp_count, hit_misprediction, hit_count, miss_count,
     update_count, invalidation_count]"

lemma aggregate_counter:
  assumes "\<And>a s. f (add_stats a s) = f a + f s"
  shows "f (aggregate_stats a ss) = f a + of_nat (total f ss)"
  by (induction ss arbitrary: a) (simp_all add: total_def assms add.assoc)

lemma aggregate_counters:
  assumes "f \<in> set counters"
  shows "f (aggregate_stats zero_stats ss) = of_nat (total f ss)"
proof -
  have "f (add_stats a s) = f a + f s" for a s using assms by (auto simp: counters_def add_stats_def)
  then have "f (aggregate_stats zero_stats ss) = f zero_stats + of_nat (total f ss)" by (rule aggregate_counter)
  moreover have "f zero_stats = 0" using assms by (auto simp: counters_def zero_stats_def)
  ultimately show ?thesis by simp
qed

lemma unat_aggregate:
  "f \<in> set counters \<Longrightarrow> unat (f (aggregate_stats zero_stats ss)) = total f ss mod 2 ^ 32"
  by (simp add: aggregate_counters unat_of_nat take_bit_eq_mod)

text \<open>
  C13.  What the program prints.  The statistics file has one line per counter and the line of a poll one
  number per counter behind the time; each number is the sum of the counter over all processors modulo two to the power
  of thirty-two, so exact as long as no sum overflows.  The line labelled \<^verbatim>\<open>get_key_count\<close> shows the
  wrong predictions: there is no counter of keys.  Nothing is written when the file cannot be opened.
\<close>

theorem printed_stats_exact:
  "write_stats_to_file fopen_ok ss =
     (if fopen_ok then Some (concat (map
        (\<lambda>(label, f). bytes ''STAT '' @ bytes label @ [chr_sp] @ decimal (total f ss mod 2 ^ 32) @ [chr_nl])
        [(''get_recv_count'', get_recv_count), (''set_recv_count'', set_recv_count), (''get_resp_count'', get_resp_count),
         (''get_key_count'', hit_misprediction), (''hit_count'', hit_count), (''miss_count'', miss_count),
         (''update_count'', update_count), (''invalidation_count'', invalidation_count)]))
      else None) \<and>
   write_stat_line now ss = decimal (unat now) @ concat (map (\<lambda>f. asc CHR '','' # decimal (total f ss mod 2 ^ 32))
     [get_recv_count, set_recv_count, get_resp_count, hit_misprediction, hit_count, miss_count,
      update_count, invalidation_count]) @ [chr_nl]"
proof -
  note n = unat_aggregate [of get_recv_count ss] unat_aggregate [of set_recv_count ss] unat_aggregate [of get_resp_count ss]
    unat_aggregate [of hit_misprediction ss] unat_aggregate [of hit_count ss] unat_aggregate [of miss_count ss]
    unat_aggregate [of update_count ss] unat_aggregate [of invalidation_count ss]
  from n [unfolded counters_def, simplified] show ?thesis
    unfolding write_stats_to_file_def write_stat_line_def stat_line_def Let_def by (simp del: bytes_simps)
qed

section \<open>When the loop ends\<close>

text \<open>The signals that end the loop when \<open>n\<close> alarms came before.\<close>

definition ends_loop :: "int \<Rightarrow> nat \<Rightarrow> sig_event \<Rightarrow> bool" where
  "ends_loop c n ev \<longleftrightarrow>
     (case ev_sig ev of
        SIGINT \<Rightarrow> True
      | SIGTERM \<Rightarrow> True
      | SIGALRM \<Rightarrow> c \<le> int n + 1
      | SIGUSR1 \<Rightarrow> \<not> ev_fopen ev
      | Other_signal \<Rightarrow> False)"

definition alarms :: "sig_event list \<Rightarrow> sig_event list" where
  "alarms evs = filter (\<lambda>ev. ev_sig ev = SIGALRM) evs"

definition file_of :: "sig_event \<Rightarrow> u8 list list" where
  "file_of ev = (case write_stats_to_file (ev_fopen ev) (ev_stats ev) of None \<Rightarrow> [] | Some f \<Rightarrow> [f])"

definition line_of :: "sig_event \<Rightarrow> u8 list" where
  "line_of ev = write_stat_line (ev_now ev) (ev_line_stats ev)"

fun running :: "int \<Rightarrow> nat \<Rightarrow> sig_event list \<Rightarrow> bool" where
  "running c n [] \<longleftrightarrow> True"
| "running c n (ev # evs) \<longleftrightarrow> \<not> ends_loop c n ev \<and> running c (n + length (alarms [ev])) evs"

lemma alarms_simps [simp]: "alarms [] = []" "alarms (ev # evs) = (if ev_sig ev = SIGALRM then ev # alarms evs else alarms evs)"
  by (simp_all add: alarms_def)

lemma not_running: "\<not> running c n evs \<longleftrightarrow> (\<exists>as ev bs. evs = as @ ev # bs \<and> ends_loop c (n + length (alarms as)) ev)"
proof (induction evs arbitrary: n)
  case (Cons e es)
  have "(\<exists>as ev bs. e # es = as @ ev # bs \<and> P as ev) \<longleftrightarrow> P [] e \<or> (\<exists>as ev bs. es = as @ ev # bs \<and> P (e # as) ev)" for P
    by (auto simp: Cons_eq_append_conv)
  then show ?case using Cons [of "n + length (alarms [e])"] by (auto simp: add.assoc)
qed simp

lemma first_end:
  assumes "evs = as @ ev # bs" and "ends_loop c (length (alarms as)) ev"
  shows "\<exists>as ev bs. evs = as @ ev # bs \<and> ends_loop c (length (alarms as)) ev \<and> running c 0 as"
  using assms
proof (induction as arbitrary: ev bs rule: length_induct)
  case (1 as)
  show ?case
  proof (cases "running c 0 as")
    case False
    then obtain xs e ys where "as = xs @ e # ys" "ends_loop c (length (alarms xs)) e" by (auto simp: not_running)
    then show ?thesis using 1 by auto
  qed (use 1 in blast)
qed

lemma stats_result_simps [simp]:
  "stats_result (write_stats_to_file b ss) = (if b then 0 else -1)"
  by (simp add: stats_result_def write_stats_to_file_def Let_def)

lemma emit_file_files: "us_files (emit_file (write_stats_to_file (ev_fopen ev) (ev_stats ev)) st) = us_files st @ file_of ev"
  "us_quit (emit_file r st) = us_quit st" "us_lines (emit_file r st) = us_lines st" "us_polls (emit_file r st) = us_polls st"
  "us_ret (emit_file r st) = us_ret st" "us_alarms (emit_file r st) = us_alarms st"
  by (simp_all add: emit_file_def file_of_def split: option.split)

text \<open>One step, for a loop that runs and has counted \<open>n\<close> alarms.\<close>

lemma user_step_running:
  assumes "\<not> us_quit st" and "us_polls st = int n" and "us_ret st = 0" and "st' = user_step c ev st"
  shows "us_quit st' = ends_loop c n ev" and "us_polls st' = int (n + length (alarms [ev]))"
    and "us_lines st' = us_lines st @ map line_of (alarms [ev])"
    and "us_files st' = us_files st @ (if ev_sig ev = SIGUSR1 \<or> ends_loop c n ev then file_of ev else [])"
    and "us_ret st' = (if ends_loop c n ev \<and> \<not> ev_fopen ev then -1 else 0)"
    and "us_alarms st' = us_alarms st + (if ends_loop c n ev then 0 else length (alarms [ev]))"
  using assms
  by (cases "ev_sig ev"; simp add: user_step_def ends_loop_def line_of_def emit_file_files Let_def)+

lemma user_loop_running:
  assumes "running c n evs" and "\<not> us_quit st" and "us_polls st = int n" and "us_ret st = 0" and "st' = user_loop c evs st"
  shows "\<not> us_quit st' \<and> us_polls st' = int (n + length (alarms evs)) \<and> us_ret st' = 0 \<and>
    us_alarms st' = us_alarms st + length (alarms evs) \<and> us_lines st' = us_lines st @ map line_of (alarms evs) \<and>
    us_files st' = us_files st @ concat (map file_of (filter (\<lambda>ev. ev_sig ev = SIGUSR1) evs))"
  using assms
proof (induction evs arbitrary: n st)
  case (Cons ev evs)
  note step = user_step_running [OF Cons.prems(2-4) refl, of c ev]
  from Cons.IH [of "n + length (alarms [ev])" "user_step c ev st"] step Cons.prems show ?case by auto
qed simp

lemma user_loop_append: "user_loop c (as @ bs) st = user_loop c bs (user_loop c as st)"
proof (induction as arbitrary: st)
  case (Cons a as)
  show ?case
  proof (cases "us_quit st")
    case True
    then have "user_loop c bs st = st" by (cases bs) simp_all
    with True show ?thesis by simp
  qed (simp add: Cons)
qed simp

lemma user_loop_first_end:
  assumes "running c 0 as" and "ends_loop c (length (alarms as)) ev" and "st = user_loop c (as @ ev # bs) (user_start c i)"
  shows "us_quit st \<and> us_lines st = map line_of (alarms (as @ [ev])) \<and>
    us_files st = concat (map file_of (filter (\<lambda>ev. ev_sig ev = SIGUSR1) as)) @ file_of ev \<and>
    us_ret st = (if ev_fopen ev then 0 else -1) \<and> us_alarms st = us_alarms (user_start c i) + length (alarms as)"
proof -
  let ?a = "user_loop c as (user_start c i)"
  have a: "\<not> us_quit ?a \<and> us_polls ?a = int (length (alarms as)) \<and> us_ret ?a = 0 \<and>
      us_alarms ?a = us_alarms (user_start c i) + length (alarms as) \<and> us_lines ?a = map line_of (alarms as) \<and>
      us_files ?a = concat (map file_of (filter (\<lambda>ev. ev_sig ev = SIGUSR1) as))"
    using user_loop_running [OF assms(1), of "user_start c i"] by (simp add: user_start_def)
  note step = user_step_running [of ?a "length (alarms as)", OF _ _ _ refl, of c ev]
  have "user_loop c bs (user_step c ev ?a) = user_step c ev ?a" using step(1) a assms(2) by (cases bs) simp_all
  then have "st = user_step c ev ?a" using a assms(3) by (simp add: user_loop_append)
  then show ?thesis using step a assms(2) by (simp add: alarms_def)
qed

text \<open>
  C14.  When the signal loop ends.  It has ended exactly when one of the delivered signals was SIGINT or SIGTERM, a SIGUSR1 for which
  the statistics file could not be opened, or the alarm that completes the requested number \<open>c\<close> of polls.  With
  the first such signal the program has written one line per alarm so far, a statistics file for every SIGUSR1 and one
  for the signal itself, its result says whether that last file could be opened, and the alarm was set again after
  every alarm before it; later signals change nothing.
\<close>

theorem polling_ends:
  assumes "st = user_loop c evs (user_start c i)"
  shows "(us_quit st \<longleftrightarrow> (\<exists>as ev bs. evs = as @ ev # bs \<and> ends_loop c (length (alarms as)) ev)) \<and>
    (\<forall>as ev bs. evs = as @ ev # bs \<and> running c 0 as \<and> ends_loop c (length (alarms as)) ev \<longrightarrow>
       us_lines st = map line_of (alarms (as @ [ev])) \<and>
       us_files st = concat (map file_of (filter (\<lambda>ev. ev_sig ev = SIGUSR1) as)) @ file_of ev \<and>
       us_ret st = (if ev_fopen ev then 0 else -1) \<and> us_alarms st = us_alarms (user_start c i) + length (alarms as))"
proof (intro conjI allI impI iffI)
  assume "us_quit st"
  then have "\<not> running c 0 evs"
    using user_loop_running [of c 0 evs "user_start c i"] assms by (auto simp: user_start_def)
  then show "\<exists>as ev bs. evs = as @ ev # bs \<and> ends_loop c (length (alarms as)) ev" by (simp add: not_running)
next
  assume "\<exists>as ev bs. evs = as @ ev # bs \<and> ends_loop c (length (alarms as)) ev"
  then obtain as ev bs where "evs = as @ ev # bs" "ends_loop c (length (alarms as)) ev" "running c 0 as"
    using first_end [of evs _ _ _ c] by blast
  then show "us_quit st" using user_loop_first_end [of c as ev st bs i] assms by simp
qed (use user_loop_first_end [of c _ _ st _ i] assms in auto)

theorem polling_ends_witness:
  "us_quit (user_loop 5 [\<lparr>ev_sig = SIGALRM, ev_now = 7, ev_line_stats = [], ev_stats = [], ev_fopen = True\<rparr>,
      \<lparr>ev_sig = SIGTERM, ev_now = 9, ev_line_stats = [], ev_stats = [zero_stats], ev_fopen = False\<rparr>] (user_start 5 1)) \<and>
   us_ret (user_loop 5 [\<lparr>ev_sig = SIGALRM, ev_now = 7, ev_line_stats = [], ev_stats = [], ev_fopen = True\<rparr>,
      \<lparr>ev_sig = SIGTERM, ev_now = 9, ev_line_stats = [], ev_stats = [zero_stats], ev_fopen = False\<rparr>] (user_start 5 1)) = -1"
proof -
  let ?a = "\<lparr>ev_sig = SIGALRM, ev_now = 7, ev_line_stats = [], ev_stats = [], ev_fopen = True\<rparr>"
  let ?t = "\<lparr>ev_sig = SIGTERM, ev_now = 9, ev_line_stats = [], ev_stats = [zero_stats], ev_fopen = False\<rparr>"
  note P = polling_ends [of "user_loop 5 [?a, ?t] (user_start 5 1)" 5 "[?a, ?t]" 1, OF refl]
  have e: "[?a, ?t] = [?a] @ ?t # []" "running 5 0 [?a]" "ends_loop 5 (length (alarms [?a])) ?t"
    by (simp_all add: ends_loop_def)
  have "us_quit (user_loop 5 [?a, ?t] (user_start 5 1))" unfolding P [THEN conjunct1] using e(1,3) by blast
  moreover have "us_ret (user_loop 5 [?a, ?t] (user_start 5 1)) = (if ev_fopen ?t then 0 else -1)"
    using P [THEN conjunct2, rule_format, OF conjI [OF e(1) conjI [OF e(2,3)]]] by (elim conjE)
  ultimately show ?thesis by simp
qed

end
