(* ===== verification/Byte_Queue.thy ===== *)
theory Byte_Queue
  imports Bmc_Prelude
begin

text \<open>
  The contract of a bounded byte queue, and what a client may conclude from it: over any sequence of
  offers and polls the bytes that were taken out, followed by those still inside, are the bytes inside
  at the start followed by the accepted offers, in order.
\<close>

datatype queue_op = Offer "u8 list" | Poll nat

text \<open>A run of operations: the bytes accepted, the bytes taken out, the final queue.\<close>

fun queue_run ::
  "('s \<Rightarrow> u8 list \<Rightarrow> 's option) \<Rightarrow> ('s \<Rightarrow> nat \<Rightarrow> (u8 list \<times> 's) option) \<Rightarrow>
   queue_op list \<Rightarrow> 's \<Rightarrow> u8 list \<times> u8 list \<times> 's" where
  "queue_run offer poll [] s = ([], [], s)"
| "queue_run offer poll (Offer d # ops) s =
     (case offer s d of
        None \<Rightarrow> queue_run offer poll ops s
      | Some s' \<Rightarrow> (case queue_run offer poll ops s' of (a, r, t) \<Rightarrow> (d @ a, r, t)))"
| "queue_run offer poll (Poll n # ops) s =
     (case poll s n of
        None \<Rightarrow> queue_run offer poll ops s
      | Some (x, s') \<Rightarrow> (case queue_run offer poll ops s' of (a, r, t) \<Rightarrow> (a, x @ r, t)))"

locale byte_queue =
  fixes contents :: "'s \<Rightarrow> u8 list"
    and offer :: "'s \<Rightarrow> u8 list \<Rightarrow> 's option"
    and poll :: "'s \<Rightarrow> nat \<Rightarrow> (u8 list \<times> 's) option"
    and invar :: "'s \<Rightarrow> bool"
  assumes offer_invar: "invar s \<Longrightarrow> offer s d = Some s' \<Longrightarrow> invar s'"
    and offer_contents: "invar s \<Longrightarrow> offer s d = Some s' \<Longrightarrow> contents s' = contents s @ d"
    and poll_invar: "invar s \<Longrightarrow> poll s n = Some (x, s') \<Longrightarrow> invar s'"
    and poll_contents: "invar s \<Longrightarrow> poll s n = Some (x, s') \<Longrightarrow> contents s = x @ contents s'"
begin

lemma fifo:
  assumes "invar s" and "queue_run offer poll ops s = (a, r, t)"
  shows "invar t \<and> contents s @ a = r @ contents t"
  using assms
proof (induction ops arbitrary: s a r t)
  case Nil
  then show ?case by simp
next
  case (Cons op ops)
  show ?case
  proof (cases op)
    case (Offer d)
    show ?thesis
    proof (cases "offer s d")
      case None
      with Cons Offer show ?thesis by simp
    next
      case (Some s')
      obtain a' r' t' where q: "queue_run offer poll ops s' = (a', r', t')" by (cases "queue_run offer poll ops s'")
      have "invar t' \<and> contents s' @ a' = r' @ contents t'"
        using Cons.IH [OF offer_invar [OF Cons.prems(1) Some] q] .
      with q Some Offer Cons.prems offer_contents [OF Cons.prems(1) Some] show ?thesis by auto
    qed
  next
    case (Poll n)
    show ?thesis
    proof (cases "poll s n")
      case None
      with Cons Poll show ?thesis by simp
    next
      case (Some p)
      obtain x s' where p: "p = (x, s')" by (cases p)
      note some = Some [unfolded p]
      obtain a' r' t' where q: "queue_run offer poll ops s' = (a', r', t')" by (cases "queue_run offer poll ops s'")
      have "invar t' \<and> contents s' @ a' = r' @ contents t'"
        using Cons.IH [OF poll_invar [OF Cons.prems(1) some] q] .
      with q some Poll Cons.prems poll_contents [OF Cons.prems(1) some] show ?thesis by auto
    qed
  qed
qed

end

end
