(* ===== verification/Bipbuffer.thy ===== *)
theory Bipbuffer
  imports Byte_Queue
begin

text \<open>
  The bipartite buffer (\<^verbatim>\<open>src/memcached-sr/bipbuffer.c\<close>): a circular buffer that hands out
  contiguous regions.  Region A lies between \<open>a_start\<close> and \<open>a_end\<close>, region B, when in use, between
  the start of the memory and \<open>b_end\<close>.  Pointers into the memory are offsets.  The buffer is shown to
  be a byte queue for clients that poll no more than region A holds; \<open>bipbuf_poll\<close> itself does not
  check that.
\<close>

record bipbuf =
  bb_size :: u64
  a_start :: u32
  a_end :: u32
  b_end :: u32
  b_inuse :: int
  bb_data :: "u8 list"

text \<open>The size of the structure without its data is 24 bytes.\<close>

definition bipbuf_sizeof :: "u32 \<Rightarrow> u64" where
  "bipbuf_sizeof sz = 24 + ucast sz"

text \<open>Functions of result type int convert their unsigned result.\<close>

definition bipbuf_unused :: "bipbuf \<Rightarrow> int" where
  "bipbuf_unused me =
     (if b_inuse me = 1 then sint (a_start me - b_end me)
      else sint (ucast (bb_size me - ucast (a_end me)) :: u32))"

definition bipbuf_size :: "bipbuf \<Rightarrow> int" where
  "bipbuf_size me = sint (ucast (bb_size me) :: u32)"

definition bipbuf_used :: "bipbuf \<Rightarrow> int" where
  "bipbuf_used me = sint ((a_end me - a_start me) + b_end me)"

definition bipbuf_init :: "bipbuf \<Rightarrow> u32 \<Rightarrow> bipbuf" where
  "bipbuf_init me sz = me\<lparr>a_start := 0, a_end := 0, b_end := 0, bb_size := ucast sz, b_inuse := 0\<rparr>"

text \<open>The memory \<^verbatim>\<open>malloc\<close> returns is the first argument: \<open>None\<close> when there is none.\<close>

definition bipbuf_new :: "u8 list option \<Rightarrow> u32 \<Rightarrow> bipbuf option" where
  "bipbuf_new mem sz =
     (case mem of
        None \<Rightarrow> None
      | Some d \<Rightarrow> Some (bipbuf_init \<lparr>bb_size = 0, a_start = 0, a_end = 0, b_end = 0, b_inuse = 0, bb_data = d\<rparr> sz))"

definition bipbuf_is_empty :: "bipbuf \<Rightarrow> bool" where
  "bipbuf_is_empty me \<longleftrightarrow> a_start me = a_end me"

definition check_for_switch_to_b :: "bipbuf \<Rightarrow> bipbuf" where
  "check_for_switch_to_b me =
     (if bb_size me - ucast (a_end me) < ucast (a_start me - b_end me) then me\<lparr>b_inuse := 1\<rparr> else me)"

definition bipbuf_request :: "bipbuf \<Rightarrow> int \<Rightarrow> nat option" where
  "bipbuf_request me sz =
     (if bipbuf_unused me < sz then None
      else if b_inuse me = 1 then Some (unat (b_end me))
      else Some (unat (a_end me)))"

definition bipbuf_push :: "bipbuf \<Rightarrow> int \<Rightarrow> int \<times> bipbuf" where
  "bipbuf_push me sz =
     (if bipbuf_unused me < sz then (0, me)
      else
        let me1 = (if b_inuse me = 1 then me\<lparr>b_end := b_end me + of_int sz\<rparr>
                   else me\<lparr>a_end := a_end me + of_int sz\<rparr>)
        in (sz, check_for_switch_to_b me1))"

definition bipbuf_offer :: "bipbuf \<Rightarrow> u8 list \<Rightarrow> int \<Rightarrow> int \<times> bipbuf" where
  "bipbuf_offer me data sz =
     (if bipbuf_unused me < sz then (0, me)
      else
        let me1 = (if b_inuse me = 1
                   then me\<lparr>bb_data := memcpy_at (bb_data me) (unat (b_end me)) (take (nat sz) data),
                           b_end := b_end me + of_int sz\<rparr>
                   else me\<lparr>bb_data := memcpy_at (bb_data me) (unat (a_end me)) (take (nat sz) data),
                           a_end := a_end me + of_int sz\<rparr>)
        in (sz, check_for_switch_to_b me1))"

definition bipbuf_peek :: "bipbuf \<Rightarrow> u32 \<Rightarrow> nat option" where
  "bipbuf_peek me sz =
     (if bb_size me < ucast (a_start me + sz) then None
      else if bipbuf_is_empty me then None
      else Some (unat (a_start me)))"

text \<open>The offset of region A and its size.\<close>

definition bipbuf_peek_all :: "bipbuf \<Rightarrow> (nat \<times> u32) option" where
  "bipbuf_peek_all me =
     (if bipbuf_is_empty me then None else Some (unat (a_start me), a_end me - a_start me))"

definition bipbuf_poll :: "bipbuf \<Rightarrow> u32 \<Rightarrow> nat option \<times> bipbuf" where
  "bipbuf_poll me sz =
     (if bipbuf_is_empty me then (None, me)
      else if bb_size me < ucast (a_start me + sz) then (None, me)
      else
        let e = unat (a_start me);
            me1 = me\<lparr>a_start := a_start me + sz\<rparr>;
            me2 = (if a_start me1 = a_end me1 then
                     if b_inuse me1 = 1
                     then me1\<lparr>a_start := 0, a_end := b_end me1, b_end := 0, b_inuse := 0\<rparr>
                     else me1\<lparr>a_start := 0, a_end := 0\<rparr>
                   else me1)
        in (Some e, check_for_switch_to_b me2))"

section \<open>The invariant and the bytes a buffer holds\<close>

definition bip_wf :: "bipbuf \<Rightarrow> bool" where
  "bip_wf me \<longleftrightarrow> unat (bb_size me) < 2147483648 \<and> length (bb_data me) = unat (bb_size me) \<and>
     unat (a_start me) \<le> unat (a_end me) \<and> unat (a_end me) \<le> unat (bb_size me) \<and>
     (b_inuse me = 0 \<and> b_end me = 0 \<or> b_inuse me = 1 \<and> unat (b_end me) \<le> unat (a_start me)) \<and>
     (a_start me = a_end me \<longrightarrow> a_start me = 0 \<and> b_inuse me = 0)"

definition bip_contents :: "bipbuf \<Rightarrow> u8 list" where
  "bip_contents me =
     segment (unat (a_start me)) (unat (a_end me) - unat (a_start me)) (bb_data me) @
     take (unat (b_end me)) (bb_data me)"

section \<open>Facts\<close>

lemma bipbuf_unused_nat:
  assumes "bip_wf me"
  shows "bipbuf_unused me =
    int (if b_inuse me = 1 then unat (a_start me) - unat (b_end me) else unat (bb_size me) - unat (a_end me))"
proof (cases "b_inuse me = 1")
  case True
  then have "unat (a_start me - b_end me) = unat (a_start me) - unat (b_end me)"
    using assms by (intro unat_sub_le) (simp add: bip_wf_def)
  then show ?thesis using assms True sint_small_u32 [of "a_start me - b_end me"] by (auto simp: bipbuf_unused_def bip_wf_def)
next
  case False
  have "unat (bb_size me - ucast (a_end me)) = unat (bb_size me) - unat (a_end me)"
    using assms unat_sub_le [of "ucast (a_end me) :: u64" "bb_size me"] by (simp add: bip_wf_def)
  moreover from this have "unat (ucast (bb_size me - ucast (a_end me)) :: u32) = unat (bb_size me - ucast (a_end me))"
    using assms unfolding bip_wf_def by (intro unat_ucast_u32) linarith
  ultimately have "sint (ucast (bb_size me - ucast (a_end me)) :: u32) = int (unat (bb_size me) - unat (a_end me))"
    using assms sint_small_u32 [of "ucast (bb_size me - ucast (a_end me))"] unfolding bip_wf_def by linarith
  with False show ?thesis by (simp only: bipbuf_unused_def if_False)
qed

lemma check_for_switch_wf:
  assumes "bip_wf me"
  shows "bip_wf (check_for_switch_to_b me)" and "bip_contents (check_for_switch_to_b me) = bip_contents me"
    and "bb_data (check_for_switch_to_b me) = bb_data me" and "bb_size (check_for_switch_to_b me) = bb_size me"
proof -
  have "unat (bb_size me - ucast (a_end me)) = unat (bb_size me) - unat (a_end me)"
    "unat (a_start me - b_end me) = unat (a_start me) - unat (b_end me)"
    using assms unat_sub_le [of "ucast (a_end me) :: u64" "bb_size me"] unat_sub_le [of "b_end me" "a_start me"]
    by (auto simp: bip_wf_def)
  then have sw: "check_for_switch_to_b me =
    (if unat (bb_size me) - unat (a_end me) < unat (a_start me) - unat (b_end me) then me\<lparr>b_inuse := 1\<rparr> else me)"
    by (simp add: check_for_switch_to_b_def word_less_nat_alt)
  show "bip_wf (check_for_switch_to_b me)" using assms unfolding sw by (auto simp: bip_wf_def)
  show "bip_contents (check_for_switch_to_b me) = bip_contents me" "bb_data (check_for_switch_to_b me) = bb_data me"
    "bb_size (check_for_switch_to_b me) = bb_size me"
    unfolding sw by (simp_all add: bip_contents_def)
qed

lemma unat_advance:
  "unat w + nat n < 2 ^ 32 \<Longrightarrow> 0 \<le> n \<Longrightarrow> unat (w + of_int n :: u32) = unat w + nat n"
  using unat_of_nat_u32 [of "nat n"] by (simp add: unat_word_ariths)

lemma bipbuf_offer_accepts:
  assumes "bip_wf me" and "int (length d) \<le> bipbuf_unused me"
  shows "\<exists>me'. bipbuf_offer me d (int (length d)) = (int (length d), me') \<and> bip_wf me' \<and>
    bip_contents me' = bip_contents me @ d \<and> bb_size me' = bb_size me"
proof -
  note un = assms(2) [unfolded bipbuf_unused_nat [OF assms(1)]]
  let ?n = "length d"
  have "\<exists>me1. bipbuf_offer me d (int ?n) = (int ?n, check_for_switch_to_b me1) \<and> bip_wf me1 \<and>
    bip_contents me1 = bip_contents me @ d \<and> bb_size me1 = bb_size me"
  proof (cases "b_inuse me = 1")
    case True
    let ?me = "me\<lparr>bb_data := memcpy_at (bb_data me) (unat (b_end me)) d, b_end := b_end me + of_int (int ?n)\<rparr>"
    have le: "unat (b_end me) + ?n \<le> unat (a_start me)" "unat (a_start me) \<le> unat (a_end me)"
      "unat (a_end me) \<le> length (bb_data me)" "unat (b_end me) \<le> unat (a_start me)"
      using un True assms(1) by (auto simp: bip_wf_def)
    then have b: "unat (b_end me + of_int (int ?n)) = unat (b_end me) + ?n"
      using unat_advance [of "b_end me" "int ?n"] assms(1) by (simp add: bip_wf_def)
    have "bip_contents ?me = bip_contents me @ d"
      using le b by (simp add: bip_contents_def segment_memcpy_at_other) (simp add: memcpy_at_def)
    moreover have "bip_wf ?me" using assms(1) True le b by (auto simp: bip_wf_def)
    ultimately show ?thesis
      using True assms(2) by (intro exI [of _ ?me]) (simp add: bipbuf_offer_def Let_def)
  next
    case False
    let ?me = "me\<lparr>bb_data := memcpy_at (bb_data me) (unat (a_end me)) d, a_end := a_end me + of_int (int ?n)\<rparr>"
    have le: "unat (a_end me) + ?n \<le> length (bb_data me)" "unat (a_start me) \<le> unat (a_end me)" "b_end me = 0"
      "b_inuse me = 0"
      using un False assms(1) by (auto simp: bip_wf_def)
    then have a: "unat (a_end me + of_int (int ?n)) = unat (a_end me) + ?n"
      using unat_advance [of "a_end me" "int ?n"] assms(1) by (simp add: bip_wf_def)
    have "segment (unat (a_start me)) (unat (a_end me) + ?n - unat (a_start me)) (memcpy_at (bb_data me) (unat (a_end me)) d) =
        segment (unat (a_start me)) (unat (a_end me) - unat (a_start me)) (bb_data me) @ d"
    proof -
      have "unat (a_end me) + ?n - unat (a_start me) = (unat (a_end me) - unat (a_start me)) + ?n" using le by simp
      moreover have "segment (unat (a_end me)) ?n (memcpy_at (bb_data me) (unat (a_end me)) d) = d" using le by simp
      ultimately show ?thesis
        using le by (simp only: segment_append) (simp add: segment_memcpy_at_other)
    qed
    then have "bip_contents ?me = bip_contents me @ d" using le a by (simp add: bip_contents_def)
    moreover have "bip_wf ?me"
      using assms(1) le a by (auto simp: bip_wf_def word_unat_eq_iff)
    ultimately show ?thesis
      using False assms(2) by (intro exI [of _ ?me]) (simp add: bipbuf_offer_def Let_def)
  qed
  then show ?thesis using check_for_switch_wf by metis
qed

lemma bipbuf_poll_takes:
  assumes "bip_wf me" and "unat n \<le> unat (a_end me) - unat (a_start me)" and "a_start me \<noteq> a_end me"
  shows "\<exists>me'. bipbuf_poll me n = (Some (unat (a_start me)), me') \<and> bip_wf me' \<and> bb_data me' = bb_data me \<and>
    bip_contents me = segment (unat (a_start me)) (unat n) (bb_data me) @ bip_contents me' \<and> bb_size me' = bb_size me"
proof -
  let ?s = "unat (a_start me)" and ?e = "unat (a_end me)" and ?n = "unat n"
  have le: "?s + ?n \<le> ?e" "?s < ?e" "?e \<le> length (bb_data me)" "?e < 2147483648"
    using assms by (auto simp: bip_wf_def word_unat_eq_iff)
  have s: "unat (a_start me + n) = ?s + ?n" using le by (simp add: unat_word_ariths)
  have ok: "\<not> bb_size me < ucast (a_start me + n)"
    using assms(1) le s by (simp add: word_less_nat_alt bip_wf_def)
  have seg: "segment ?s (?e - ?s) (bb_data me) = segment ?s ?n (bb_data me) @ segment (?s + ?n) (?e - (?s + ?n)) (bb_data me)"
    using segment_append [of ?s ?n "?e - (?s + ?n)" "bb_data me"] le by simp
  define me2 where "me2 = (if a_start me + n = a_end me then
      if b_inuse me = 1 then me\<lparr>a_start := 0, a_end := b_end me, b_end := 0, b_inuse := 0\<rparr>
      else me\<lparr>a_start := 0, a_end := 0\<rparr>
    else me\<lparr>a_start := a_start me + n\<rparr>)"
  have poll: "bipbuf_poll me n = (Some ?s, check_for_switch_to_b me2)"
    using assms(3) ok by (simp add: bipbuf_poll_def bipbuf_is_empty_def me2_def Let_def)
  have eq: "a_start me + n = a_end me \<longleftrightarrow> ?s + ?n = ?e" using s by (simp add: word_unat_eq_iff)
  have wf2: "bip_wf me2"
    using assms(1,3) s le eq by (auto simp: me2_def bip_wf_def)
  have "bip_contents me = segment ?s ?n (bb_data me) @ bip_contents me2"
  proof (cases "?s + ?n = ?e")
    case True
    have "segment (?s + ?n) (?e - (?s + ?n)) (bb_data me) = []" using True by (simp add: segment_def)
    then show ?thesis
      using True eq seg assms(1) by (auto simp: bip_contents_def me2_def bip_wf_def)
  next
    case False
    with eq seg s show ?thesis by (simp add: bip_contents_def me2_def)
  qed
  moreover have "bb_data me2 = bb_data me" "bb_size me2 = bb_size me" by (simp_all add: me2_def)
  ultimately show ?thesis using poll check_for_switch_wf [OF wf2] by simp
qed

lemma bipbuf_new_wf:
  assumes "length d = unat n" and "unat n < 2147483648"
  shows "\<exists>me. bipbuf_new (Some d) n = Some me \<and> bip_wf me \<and> bip_contents me = [] \<and> unat (bb_size me) = unat n"
  using assms by (simp add: bipbuf_new_def bipbuf_init_def bip_wf_def bip_contents_def segment_def)

lemma bip_contents_empty: "bip_wf me \<Longrightarrow> bip_contents me = [] \<longleftrightarrow> bipbuf_is_empty me"
  by (auto simp: bip_wf_def bip_contents_def bipbuf_is_empty_def segment_def word_unat_eq_iff)

section \<open>The buffer as a byte queue\<close>

text \<open>
  A client's view: offering a block, and taking bytes out of region A only, which is what the
  callers do with the size \<^verbatim>\<open>bipbuf_peek_all\<close> gave them.
\<close>

definition bip_put :: "bipbuf \<Rightarrow> u8 list \<Rightarrow> bipbuf option" where
  "bip_put me d = (case bipbuf_offer me d (int (length d)) of (r, me') \<Rightarrow>
     if r = int (length d) then Some me' else None)"

definition bip_take :: "bipbuf \<Rightarrow> nat \<Rightarrow> (u8 list \<times> bipbuf) option" where
  "bip_take me n =
     (case bipbuf_peek_all me of
        None \<Rightarrow> None
      | Some (off, len) \<Rightarrow>
          if n \<le> unat len then
            case bipbuf_poll me (of_nat n) of
              (None, me') \<Rightarrow> None
            | (Some p, me') \<Rightarrow> Some (segment p n (bb_data me'), me')
          else None)"

lemma bip_put_Some:
  assumes "bip_wf me" and "bip_put me d = Some me'"
  shows "bip_wf me' \<and> bip_contents me' = bip_contents me @ d"
proof (cases "int (length d) \<le> bipbuf_unused me")
  case True
  then show ?thesis using bipbuf_offer_accepts [OF assms(1) True] assms(2) by (auto simp: bip_put_def split: if_splits)
next
  case False
  then have "length d \<noteq> 0" using bipbuf_unused_nat [OF assms(1)] by auto
  with False assms(2) show ?thesis by (simp add: bip_put_def bipbuf_offer_def)
qed

lemma bip_take_Some:
  assumes "bip_wf me" and "bip_take me n = Some (x, me')"
  shows "bip_wf me' \<and> bip_contents me = x @ bip_contents me'"
proof -
  have ne: "a_start me \<noteq> a_end me" and le: "n \<le> unat (a_end me - a_start me)"
    using assms(2) by (auto simp: bip_take_def bipbuf_peek_all_def bipbuf_is_empty_def split: if_splits)
  have sub: "unat (a_end me - a_start me) = unat (a_end me) - unat (a_start me)"
    using assms(1) by (intro unat_sub_le) (simp add: bip_wf_def)
  have "n < 4294967296" using le unat_u32_less [of "a_end me - a_start me"] by linarith
  then have n: "unat (of_nat n :: u32) = n" by simp
  obtain me2 where p: "bipbuf_poll me (of_nat n) = (Some (unat (a_start me)), me2)" "bip_wf me2"
    "bb_data me2 = bb_data me" "bip_contents me = segment (unat (a_start me)) n (bb_data me) @ bip_contents me2"
    using bipbuf_poll_takes [OF assms(1) _ ne, of "of_nat n"] le n sub by auto
  with assms(2) ne le show ?thesis by (simp add: bip_take_def bipbuf_peek_all_def bipbuf_is_empty_def)
qed

interpretation bip: byte_queue bip_contents bip_put bip_take bip_wf
  by unfold_locales (use bip_put_Some bip_take_Some in blast)+

text \<open>
  C24.  First in, first out.  Over any sequence of offers and polls the bytes polled, followed by the
  bytes still in the buffer, are the bytes it held at the start followed by the accepted offers: nothing
  is lost, reordered or duplicated when region B is opened or replaces region A.
\<close>

theorem bipbuf_fifo:
  assumes "bip_wf s" and "queue_run bip_put bip_take ops s = (a, r, t)"
  shows "bip_wf t \<and> bip_contents s @ a = r @ bip_contents t"
  using assms by (rule bip.fifo)

definition sample_bipbuf :: bipbuf where
  "sample_bipbuf = \<lparr>bb_size = 4, a_start = 0, a_end = 0, b_end = 0, b_inuse = 0, bb_data = [0, 0, 0, 0]\<rparr>"

theorem bipbuf_fifo_witness:
  "\<exists>t. queue_run bip_put bip_take [Offer [1, 2, 3], Poll 2, Offer [4, 5], Poll 1, Offer [6]] sample_bipbuf =
      ([1, 2, 3, 4, 5, 6], [1, 2, 3], t) \<and> bip_contents t = [4, 5, 6]"
proof -
  have wf: "bip_wf sample_bipbuf" by (simp add: sample_bipbuf_def bip_wf_def)
  obtain t where q: "queue_run bip_put bip_take [Offer [1, 2, 3], Poll 2, Offer [4, 5], Poll 1, Offer [6]] sample_bipbuf =
      ([1, 2, 3, 4, 5, 6], [1, 2, 3], t)"
    by (simp add: sample_bipbuf_def bip_put_def bip_take_def bipbuf_offer_def bipbuf_poll_def bipbuf_unused_def
        bipbuf_peek_all_def check_for_switch_to_b_def bipbuf_is_empty_def memcpy_at_def segment_def Let_def)
  moreover have "bip_contents sample_bipbuf = []" by (simp add: sample_bipbuf_def bip_contents_def)
  ultimately show ?thesis using bipbuf_fifo [OF wf q] by auto
qed

text \<open>
  C25.  Offering.  A block is accepted exactly when it fits the unused space, then it is appended to
  the contents; a refused block changes nothing; and a buffer that was emptied accepts any block up to
  its size, so space is never lost.
\<close>

theorem bipbuf_offer_spec:
  assumes "bip_wf me"
  shows "(if int (length d) \<le> bipbuf_unused me
      then \<exists>me'. bipbuf_offer me d (int (length d)) = (int (length d), me') \<and> bip_wf me' \<and>
        bip_contents me' = bip_contents me @ d
      else bipbuf_offer me d (int (length d)) = (0, me)) \<and>
    (bip_contents me = [] \<longrightarrow> bipbuf_unused me = int (unat (bb_size me)))"
proof -
  have "bipbuf_unused me = int (unat (bb_size me))" if "bip_contents me = []"
    using that assms bipbuf_unused_nat [OF assms] bip_contents_empty [OF assms]
    by (simp add: bipbuf_is_empty_def bip_wf_def)
  moreover have "bipbuf_offer me d (int (length d)) = (0, me)" if "\<not> int (length d) \<le> bipbuf_unused me"
    using that by (simp add: bipbuf_offer_def)
  ultimately show ?thesis using bipbuf_offer_accepts [OF assms] by auto
qed

theorem bipbuf_offer_spec_witness:
  "\<exists>me'. bipbuf_offer sample_bipbuf [1, 2, 3] 3 = (3, me') \<and> bip_contents me' = [1, 2, 3]"
proof -
  have wf: "bip_wf sample_bipbuf" and c: "bip_contents sample_bipbuf = []"
    by (simp_all add: sample_bipbuf_def bip_wf_def bip_contents_def segment_def)
  have "bipbuf_unused sample_bipbuf = 4"
    using bipbuf_offer_spec [OF wf, of "[]"] c by (simp add: sample_bipbuf_def)
  then show ?thesis using bipbuf_offer_spec [OF wf, of "[1, 2, 3]"] c by auto
qed

text \<open>
  C26.  Offering a block is the same as requesting space, writing the block where the request
  points and pushing its size.
\<close>

theorem bipbuf_request_push:
  assumes "bip_wf me" and "bipbuf_request me (int (length d)) = Some off"
  shows "bipbuf_push (me\<lparr>bb_data := memcpy_at (bb_data me) off d\<rparr>) (int (length d)) = bipbuf_offer me d (int (length d)) \<and>
    off + length d \<le> length (bb_data me)"
proof -
  have fits: "int (length d) \<le> bipbuf_unused me"
    using assms(2) by (auto simp: bipbuf_request_def split: if_splits)
  moreover have "bipbuf_unused (me\<lparr>bb_data := f\<rparr>) = bipbuf_unused me" for f by (simp add: bipbuf_unused_def)
  ultimately have "bipbuf_push (me\<lparr>bb_data := memcpy_at (bb_data me) off d\<rparr>) (int (length d)) = bipbuf_offer me d (int (length d))"
    using assms(2) by (auto simp: bipbuf_push_def bipbuf_offer_def bipbuf_request_def Let_def)
  moreover have "off + length d \<le> length (bb_data me)"
    using assms fits [unfolded bipbuf_unused_nat [OF assms(1)]]
    by (auto simp: bipbuf_request_def bip_wf_def split: if_splits)
  ultimately show ?thesis ..
qed

theorem bipbuf_request_push_witness:
  "bipbuf_push (sample_bipbuf\<lparr>bb_data := [7, 0, 0, 0]\<rparr>) 1 = bipbuf_offer sample_bipbuf [7] 1"
proof -
  have wf: "bip_wf sample_bipbuf" by (simp add: sample_bipbuf_def bip_wf_def)
  have "bipbuf_request sample_bipbuf (int (length [7 :: u8])) = Some 0"
    by (simp add: bipbuf_request_def bipbuf_unused_nat [OF wf]) (simp add: sample_bipbuf_def)
  from bipbuf_request_push [OF wf this] show ?thesis by (simp add: sample_bipbuf_def memcpy_at_def)
qed

text \<open>
  C27.  Polling more than region A holds.  The guard of \<^verbatim>\<open>bipbuf_poll\<close> compares with the size of
  the buffer, not with the data in it.  Polling more bytes than region A holds succeeds as long as they lie inside the
  buffer: bytes that were never offered are handed out, the start of region A is left behind its end, and
  the next \<^verbatim>\<open>bipbuf_peek_all\<close> announces more bytes than the buffer has.
\<close>

theorem bipbuf_poll_overrun:
  assumes "bip_wf me" and "a_start me \<noteq> a_end me" and "unat (a_end me) < unat (a_start me) + unat n"
    and "unat (a_start me) + unat n \<le> unat (bb_size me)"
  shows "\<exists>me' len. bipbuf_poll me n = (Some (unat (a_start me)), me') \<and>
    unat (a_start me') = unat (a_start me) + unat n \<and> a_end me' = a_end me \<and> \<not> bip_wf me' \<and>
    bipbuf_peek_all me' = Some (unat (a_start me'), len) \<and> unat (bb_size me') < unat len"
proof -
  let ?me = "me\<lparr>a_start := a_start me + n\<rparr>"
  let ?me' = "check_for_switch_to_b ?me"
  have size: "unat (bb_size me) < 2147483648" using assms(1) by (simp add: bip_wf_def)
  have s: "unat (a_start me + n) = unat (a_start me) + unat n" using assms(4) size by (simp add: unat_word_ariths)
  then have ne: "a_start me + n \<noteq> a_end me" using assms(3) by (auto simp: word_unat_eq_iff)
  have "\<not> bb_size me < ucast (a_start me + n)" using assms(4) s size by (simp add: word_less_nat_alt)
  then have poll: "bipbuf_poll me n = (Some (unat (a_start me)), ?me')"
    using assms(2) ne by (simp add: bipbuf_poll_def bipbuf_is_empty_def Let_def)
  have me': "a_start ?me' = a_start me + n" "a_end ?me' = a_end me" "bb_size ?me' = bb_size me"
    by (simp_all add: check_for_switch_to_b_def)
  moreover have "\<not> bip_wf ?me'" using me' s assms(3) by (auto simp: bip_wf_def)
  moreover have "bipbuf_peek_all ?me' = Some (unat (a_start ?me'), a_end me - (a_start me + n))"
    using me' ne by (simp add: bipbuf_peek_all_def bipbuf_is_empty_def)
  moreover have "unat (bb_size me) < unat (a_end me - (a_start me + n))"
  proof -
    have "unat (a_end me - (a_start me + n)) = 4294967296 + unat (a_end me) - (unat (a_start me) + unat n)"
      using s assms(3) by (simp add: unat_sub_if_size word_size)
    then show ?thesis using assms(4) size by linarith
  qed
  ultimately show ?thesis using poll s by auto
qed

theorem bipbuf_poll_overrun_witness:
  "\<exists>me me' len. bipbuf_offer sample_bipbuf [7] 1 = (1, me) \<and> bipbuf_poll me 3 = (Some 0, me') \<and>
    bipbuf_peek_all me' = Some (3, len) \<and> 4 < unat len"
proof -
  let ?me = "sample_bipbuf\<lparr>bb_data := [7, 0, 0, 0], a_end := 1\<rparr>"
  have o: "bipbuf_offer sample_bipbuf [7] 1 = (1, ?me)"
    by (simp add: sample_bipbuf_def bipbuf_offer_def bipbuf_unused_def check_for_switch_to_b_def memcpy_at_def Let_def)
  have "bip_wf ?me" by (simp add: sample_bipbuf_def bip_wf_def)
  from bipbuf_poll_overrun [OF this, of 3] obtain me' len where
    "bipbuf_poll ?me 3 = (Some 0, me')" "bipbuf_peek_all me' = Some (3, len)" "unat (bb_size me') < unat len"
    by (auto simp: sample_bipbuf_def)
  moreover from this(1) have "bb_size me' = 4"
    by (auto simp: bipbuf_poll_def check_for_switch_to_b_def sample_bipbuf_def bipbuf_is_empty_def Let_def split: if_splits)
  ultimately show ?thesis using o by auto
qed

end
