(* ===== verification/Key_Index.thy ===== *)
theory Key_Index
  imports Main
begin

text \<open>
  The contract of the index from keys to items that the item store relies on: find, insert of an
  item whose key is not present, delete of a present key, and background maintenance that must not be
  visible.  The client's lemma: over any legal sequence of operations the index is the map from keys to
  items that the sequence describes.
\<close>

datatype ('a, 'k, 'm) index_op = Insert 'a | Delete 'k | Maintain 'm

text \<open>The map a sequence of operations describes.\<close>

fun map_run :: "('a \<Rightarrow> 'k) \<Rightarrow> ('a, 'k, 'm) index_op list \<Rightarrow> ('k \<rightharpoonup> 'a) \<Rightarrow> ('k \<rightharpoonup> 'a)" where
  "map_run key [] f = f"
| "map_run key (Insert a # ops) f = map_run key ops (f(key a \<mapsto> a))"
| "map_run key (Delete k # ops) f = map_run key ops (f(k := None))"
| "map_run key (Maintain m # ops) f = map_run key ops f"

text \<open>Legal sequences: an inserted key is new, a deleted one present.\<close>

fun legal_ops :: "('a \<Rightarrow> 'k) \<Rightarrow> ('a, 'k, 'm) index_op list \<Rightarrow> ('k \<rightharpoonup> 'a) \<Rightarrow> bool" where
  "legal_ops key [] f \<longleftrightarrow> True"
| "legal_ops key (Insert a # ops) f \<longleftrightarrow> f (key a) = None \<and> legal_ops key ops (f(key a \<mapsto> a))"
| "legal_ops key (Delete k # ops) f \<longleftrightarrow> f k \<noteq> None \<and> legal_ops key ops (f(k := None))"
| "legal_ops key (Maintain m # ops) f \<longleftrightarrow> legal_ops key ops f"

fun index_step ::
  "('s \<Rightarrow> 'a \<Rightarrow> 's) \<Rightarrow> ('s \<Rightarrow> 'k \<Rightarrow> 's) \<Rightarrow> ('s \<Rightarrow> 'm \<Rightarrow> 's) \<Rightarrow> ('a, 'k, 'm) index_op \<Rightarrow> 's \<Rightarrow> 's" where
  "index_step ins del mnt (Insert a) s = ins s a"
| "index_step ins del mnt (Delete k) s = del s k"
| "index_step ins del mnt (Maintain m) s = mnt s m"

locale key_index =
  fixes find :: "'s \<Rightarrow> 'k \<rightharpoonup> 'a"
    and ins :: "'s \<Rightarrow> 'a \<Rightarrow> 's"
    and del :: "'s \<Rightarrow> 'k \<Rightarrow> 's"
    and mnt :: "'s \<Rightarrow> 'm \<Rightarrow> 's"
    and key_of :: "'s \<Rightarrow> 'a \<Rightarrow> 'k"
    and invar :: "'s \<Rightarrow> bool"
  assumes ins_invar: "invar s \<Longrightarrow> find s (key_of s a) = None \<Longrightarrow> invar (ins s a)"
    and del_invar: "invar s \<Longrightarrow> find s k \<noteq> None \<Longrightarrow> invar (del s k)"
    and mnt_invar: "invar s \<Longrightarrow> invar (mnt s m)"
    and find_ins: "invar s \<Longrightarrow> find s (key_of s a) = None \<Longrightarrow> find (ins s a) = (find s)(key_of s a \<mapsto> a)"
    and find_del: "invar s \<Longrightarrow> find s k \<noteq> None \<Longrightarrow> find (del s k) = (find s)(k := None)"
    and find_mnt: "invar s \<Longrightarrow> find (mnt s m) = find s"
    and key_ins: "invar s \<Longrightarrow> key_of (ins s a) = key_of s"
    and key_del: "invar s \<Longrightarrow> key_of (del s k) = key_of s"
    and key_mnt: "invar s \<Longrightarrow> key_of (mnt s m) = key_of s"
begin

lemma run_refines_map:
  assumes "invar s" and "legal_ops (key_of s) ops (find s)"
  shows "invar (fold (index_step ins del mnt) ops s) \<and>
    find (fold (index_step ins del mnt) ops s) = map_run (key_of s) ops (find s)"
  using assms
proof (induction ops arbitrary: s)
  case Nil
  then show ?case by simp
next
  case (Cons op ops)
  show ?case
  proof (cases op)
    case (Insert a)
    with Cons.prems have "find s (key_of s a) = None" by simp
    with Cons.prems(1) have inv: "invar (ins s a)" and eqs: "find (ins s a) = (find s)(key_of s a \<mapsto> a)" "key_of (ins s a) = key_of s"
      by (auto intro: ins_invar find_ins key_ins)
    have "legal_ops (key_of (ins s a)) ops (find (ins s a))" unfolding eqs using Cons.prems(2) Insert by (simp add: fun_upd_def)
    from Cons.IH [OF inv this] show ?thesis unfolding eqs using Insert by (simp add: fun_upd_def)
  next
    case (Delete k)
    with Cons.prems have "find s k \<noteq> None" by simp
    with Cons.prems(1) have inv: "invar (del s k)" and eqs: "find (del s k) = (find s)(k := None)" "key_of (del s k) = key_of s"
      by (auto intro: del_invar find_del key_del)
    have "legal_ops (key_of (del s k)) ops (find (del s k))" unfolding eqs using Cons.prems(2) Delete by (simp add: fun_upd_def)
    from Cons.IH [OF inv this] show ?thesis unfolding eqs using Delete by (simp add: fun_upd_def)
  next
    case (Maintain m)
    with Cons.IH [of "mnt s m"] Cons.prems show ?thesis by (simp add: mnt_invar find_mnt key_mnt)
  qed
qed

end

end
