(* ===== verification/Assoc.thy ===== *)
theory Assoc
  imports Key_Index Bmc_Prelude
begin

text \<open>
  The hash table of the item store (\<^verbatim>\<open>src/memcached-sr/assoc.c\<close>): chained buckets linked
  through the items' \<^verbatim>\<open>h_next\<close> pointers, and the expansion to twice the size that a maintenance
  thread carries out bucket by bucket while the table is in use.  The items are an explicit store from
  addresses to items; \<open>None\<close> is the null pointer.  The hash function is a function pointer of the program
  and a field of the state.  Walking a chain is a partial function: that it ends is proved from the
  invariant that the chains are acyclic.  Locks and the thread itself are not modelled; the outcome
  of \<^verbatim>\<open>item_trylock\<close> and of \<^verbatim>\<open>calloc\<close> is an argument.
\<close>

type_synonym addr = nat

record hitem =
  hkey :: "u8 list"
  h_next :: "addr option"

record assoc =
  hash_fn :: "u8 list \<Rightarrow> u32"
  items :: "addr \<Rightarrow> hitem"
  hashpower :: nat
  primary_hashtable :: "addr option list"
  old_hashtable :: "addr option list"
  expanding :: bool
  started_expanding :: bool
  expand_bucket :: u32
  hash_power_level :: nat
  hash_bytes :: u64
  hash_is_expanding :: bool

abbreviation (input) HASHPOWER_DEFAULT :: nat where "HASHPOWER_DEFAULT \<equiv> 16"

abbreviation (input) HASHPOWER_MAX :: nat where "HASHPOWER_MAX \<equiv> 32"

definition hashsize :: "nat \<Rightarrow> u32" where
  "hashsize n = push_bit n 1"

definition hashmask :: "nat \<Rightarrow> u32" where
  "hashmask n = hashsize n - 1"

text \<open>The result is \<open>None\<close> when \<^verbatim>\<open>calloc\<close> fails, in which case the program exits.\<close>

definition assoc_init :: "bool \<Rightarrow> nat \<Rightarrow> assoc \<Rightarrow> assoc option" where
  "assoc_init calloc_ok hashtable_init s =
     (let s1 = (if hashtable_init \<noteq> 0 then s\<lparr>hashpower := hashtable_init\<rparr> else s) in
      if \<not> calloc_ok then None
      else Some (s1\<lparr>primary_hashtable := replicate (unat (hashsize (hashpower s1))) None,
                    hash_power_level := hashpower s1,
                    hash_bytes := ucast (hashsize (hashpower s1)) * 8\<rparr>))"

section \<open>Places in the table\<close>

text \<open>The pointer cells the code takes addresses of: a bucket of either table, or an item's link.\<close>

datatype cell = Old_bucket nat | Primary_bucket nat | Link addr

definition read_cell :: "assoc \<Rightarrow> cell \<Rightarrow> addr option" where
  "read_cell s c =
     (case c of
        Old_bucket b \<Rightarrow> old_hashtable s ! b
      | Primary_bucket b \<Rightarrow> primary_hashtable s ! b
      | Link a \<Rightarrow> h_next (items s a))"

definition write_cell :: "assoc \<Rightarrow> cell \<Rightarrow> addr option \<Rightarrow> assoc" where
  "write_cell s c p =
     (case c of
        Old_bucket b \<Rightarrow> s\<lparr>old_hashtable := (old_hashtable s)[b := p]\<rparr>
      | Primary_bucket b \<Rightarrow> s\<lparr>primary_hashtable := (primary_hashtable s)[b := p]\<rparr>
      | Link a \<Rightarrow> s\<lparr>items := (items s)(a := (items s a)\<lparr>h_next := p\<rparr>)\<rparr>)"

text \<open>The choice of bucket, common to find, insert and delete.\<close>

definition bucket_of :: "assoc \<Rightarrow> u32 \<Rightarrow> cell" where
  "bucket_of s hv =
     (if expanding s \<and> hv AND hashmask (hashpower s - 1) \<ge> expand_bucket s
      then Old_bucket (unat (hv AND hashmask (hashpower s - 1)))
      else Primary_bucket (unat (hv AND hashmask (hashpower s))))"

section \<open>Operations\<close>

partial_function (option) find_loop :: "(addr \<Rightarrow> hitem) \<Rightarrow> u8 list \<Rightarrow> addr option \<Rightarrow> addr option option" where
  "find_loop h key it =
     (case it of
        None \<Rightarrow> Some None
      | Some a \<Rightarrow> if hkey (h a) = key then Some (Some a) else find_loop h key (h_next (h a)))"

definition assoc_find :: "assoc \<Rightarrow> u8 list \<Rightarrow> u32 \<Rightarrow> addr option option" where
  "assoc_find s key hv = find_loop (items s) key (read_cell s (bucket_of s hv))"

partial_function (option) before_loop :: "assoc \<Rightarrow> u8 list \<Rightarrow> cell \<Rightarrow> cell option" where
  "before_loop s key pos =
     (case read_cell s pos of
        None \<Rightarrow> Some pos
      | Some a \<Rightarrow> if hkey (items s a) = key then Some pos else before_loop s key (Link a))"

definition hashitem_before :: "assoc \<Rightarrow> u8 list \<Rightarrow> u32 \<Rightarrow> cell option" where
  "hashitem_before s key hv = before_loop s key (bucket_of s hv)"

definition assoc_expand :: "bool \<Rightarrow> assoc \<Rightarrow> assoc" where
  "assoc_expand calloc_ok s =
     (let s1 = s\<lparr>old_hashtable := primary_hashtable s\<rparr> in
      if calloc_ok then
        let hp = hashpower s + 1 in
        s1\<lparr>primary_hashtable := replicate (unat (hashsize (hashpower s + 1))) None,
           hashpower := hp, expanding := True, expand_bucket := 0,
           hash_power_level := hp, hash_bytes := hash_bytes s1 + ucast (hashsize hp) * 8,
           hash_is_expanding := True\<rparr>
      else s1\<lparr>primary_hashtable := old_hashtable s1\<rparr>)"

definition assoc_start_expand :: "u64 \<Rightarrow> assoc \<Rightarrow> assoc" where
  "assoc_start_expand curr_items s =
     (if started_expanding s then s
      else if curr_items > ucast ((hashsize (hashpower s) * 3) div 2) \<and> hashpower s < HASHPOWER_MAX
      then s\<lparr>started_expanding := True\<rparr>
      else s)"

definition assoc_insert :: "assoc \<Rightarrow> addr \<Rightarrow> u32 \<Rightarrow> assoc" where
  "assoc_insert s it hv =
     (let c = bucket_of s hv;
          s1 = write_cell s (Link it) (read_cell s c)
      in write_cell s1 c (Some it))"

text \<open>The outer \<open>None\<close> is a chain that does not end, the inner one the failed assertion.\<close>

definition assoc_delete :: "assoc \<Rightarrow> u8 list \<Rightarrow> u32 \<Rightarrow> assoc option option" where
  "assoc_delete s key hv =
     (case hashitem_before s key hv of
        None \<Rightarrow> None
      | Some before \<Rightarrow>
          (case read_cell s before of
             None \<Rightarrow> Some None
           | Some a \<Rightarrow>
               let nxt = h_next (items s a);
                   s1 = write_cell s (Link a) None
               in Some (Some (write_cell s1 before nxt))))"

text \<open>The maintenance thread: the items of one bucket are moved to the new table.\<close>

partial_function (option) move_loop :: "assoc \<Rightarrow> addr option \<Rightarrow> assoc option" where
  "move_loop s it =
     (case it of
        None \<Rightarrow> Some s
      | Some a \<Rightarrow>
          let nxt = h_next (items s a);
              bucket = Primary_bucket (unat (hash_fn s (hkey (items s a)) AND hashmask (hashpower s)));
              s1 = write_cell s (Link a) (read_cell s bucket)
          in move_loop (write_cell s1 bucket (Some a)) nxt)"

definition move_bucket :: "assoc \<Rightarrow> assoc option" where
  "move_bucket s =
     (case move_loop s (old_hashtable s ! unat (expand_bucket s)) of
        None \<Rightarrow> None
      | Some s1 \<Rightarrow>
          let s2 = s1\<lparr>old_hashtable := (old_hashtable s1)[unat (expand_bucket s1) := None],
                      expand_bucket := expand_bucket s1 + 1\<rparr> in
          Some (if expand_bucket s2 = hashsize (hashpower s2 - 1)
                then s2\<lparr>expanding := False, old_hashtable := [],
                        hash_bytes := hash_bytes s2 - ucast (hashsize (hashpower s2 - 1)) * 8,
                        hash_is_expanding := False\<rparr>
                else s2))"

text \<open>The loop of one round: \<open>locks\<close> are the outcomes of \<^verbatim>\<open>item_trylock\<close>, one per iteration allowed.\<close>

fun bulk_move :: "bool list \<Rightarrow> assoc \<Rightarrow> assoc option" where
  "bulk_move [] s = Some s"
| "bulk_move (lock # locks) s =
     (if \<not> expanding s then Some s
      else if lock then (case move_bucket s of None \<Rightarrow> None | Some s1 \<Rightarrow> bulk_move locks s1)
      else bulk_move locks s)"

text \<open>One round; \<open>run\<close> is the flag the thread finds when it wakes up.\<close>

definition maintenance_round :: "bool list \<Rightarrow> bool \<Rightarrow> bool \<Rightarrow> assoc \<Rightarrow> assoc option" where
  "maintenance_round locks run calloc_ok s =
     (case bulk_move locks s of
        None \<Rightarrow> None
      | Some s1 \<Rightarrow>
          if expanding s1 then Some s1
          else
            let s2 = s1\<lparr>started_expanding := False\<rparr> in
            Some (if run then assoc_expand calloc_ok s2 else s2))"

section \<open>Sizes and masks\<close>

lemma unat_two_power_u32: "n < 32 \<Longrightarrow> unat (2 ^ n :: u32) = 2 ^ n"
proof -
  assume "n < 32"
  then have "(2 :: nat) ^ n < 2 ^ 32" by (intro power_strict_increasing) simp_all
  then have "unat (of_nat (2 ^ n) :: u32) = 2 ^ n" by (intro unat_of_nat_u32) simp
  then show ?thesis by simp
qed

lemma unat_push_bit_one: "n < 32 \<Longrightarrow> unat (push_bit n 1 :: u32) = 2 ^ n"
  using unat_two_power_u32 [of n] by (simp add: push_bit_eq_mult)

lemma unat_hashsize: "n < 32 \<Longrightarrow> unat (hashsize n) = 2 ^ n"
  using unat_push_bit_one [of n] by (simp add: hashsize_def)

lemma unat_hashmask: "n < 32 \<Longrightarrow> unat (w AND hashmask n) = unat w mod 2 ^ n"
proof -
  assume "n < 32"
  have "hashmask n = mask n" by (simp add: hashmask_def hashsize_def mask_eq_exp_minus_1 push_bit_eq_mult)
  then have "w AND hashmask n = take_bit n w" by (simp add: take_bit_eq_mask)
  then show ?thesis by (simp add: take_bit_eq_mod unat_mod \<open>n < 32\<close> unat_two_power_u32)
qed

section \<open>Chains\<close>

fun lseg :: "(addr \<Rightarrow> hitem) \<Rightarrow> addr option \<Rightarrow> addr list \<Rightarrow> addr option \<Rightarrow> bool" where
  "lseg h p [] q \<longleftrightarrow> p = q"
| "lseg h p (a # as) q \<longleftrightarrow> p = Some a \<and> lseg h (h_next (h a)) as q"

abbreviation chain :: "(addr \<Rightarrow> hitem) \<Rightarrow> addr option \<Rightarrow> addr list \<Rightarrow> bool" where
  "chain h p as \<equiv> lseg h p as None"

lemma lseg_append: "lseg h p (as @ bs) q \<longleftrightarrow> (\<exists>r. lseg h p as r \<and> lseg h r bs q)"
  by (induction as arbitrary: p) auto

lemma lseg_upd [simp]: "a \<notin> set as \<Longrightarrow> lseg (h(a := v)) p as q = lseg h p as q"
  by (induction as arbitrary: p) auto

lemma lseg_cong: "(\<And>a. a \<in> set as \<Longrightarrow> h a = g a) \<Longrightarrow> lseg h p as q = lseg g p as q"
  by (induction as arbitrary: p) auto

lemma find_loop_chain:
  assumes "chain h p as"
  shows "find_loop h key p = Some (find (\<lambda>a. hkey (h a) = key) as)"
  using assms
proof (induction as arbitrary: p)
  case Nil
  then show ?case by (subst find_loop.simps) simp
next
  case (Cons a as)
  then show ?case by (subst find_loop.simps) auto
qed

text \<open>Where the walk for a key stops: before the first item with the key, or at the end.\<close>

lemma before_loop_chain:
  assumes "chain (items s) (read_cell s c) as"
  shows "\<exists>bs cs. as = bs @ cs \<and> (\<forall>b\<in>set bs. hkey (items s b) \<noteq> key) \<and> (cs = [] \<or> hkey (items s (hd cs)) = key) \<and>
    before_loop s key c = Some (if bs = [] then c else Link (last bs))"
  using assms
proof (induction as arbitrary: c)
  case Nil
  then show ?case by (subst before_loop.simps) simp
next
  case (Cons a as)
  have rd: "read_cell s c = Some a" using Cons.prems by simp
  show ?case
  proof (cases "hkey (items s a) = key")
    case True
    then show ?thesis using rd by (intro exI [of _ "[]"] exI [of _ "a # as"]) (subst before_loop.simps, simp)
  next
    case False
    have "chain (items s) (read_cell s (Link a)) as" using Cons.prems by (simp add: read_cell_def)
    from Cons.IH [OF this] obtain bs cs where IH: "as = bs @ cs" "\<forall>b\<in>set bs. hkey (items s b) \<noteq> key"
      "cs = [] \<or> hkey (items s (hd cs)) = key"
      "before_loop s key (Link a) = Some (if bs = [] then Link a else Link (last bs))" by blast
    with False rd show ?thesis
      by (intro exI [of _ "a # bs"] exI [of _ cs]) (subst before_loop.simps, auto)
  qed
qed

section \<open>The invariant\<close>

definition shape :: "assoc \<Rightarrow> bool" where
  "shape s \<longleftrightarrow> hashpower s < 32 \<and> length (primary_hashtable s) = 2 ^ hashpower s \<and>
     (expanding s \<longrightarrow> 0 < hashpower s \<and> length (old_hashtable s) = 2 ^ (hashpower s - 1) \<and>
        unat (expand_bucket s) < 2 ^ (hashpower s - 1))"

fun bucket_exists :: "assoc \<Rightarrow> cell \<Rightarrow> bool" where
  "bucket_exists s (Old_bucket b) \<longleftrightarrow> expanding s \<and> b < length (old_hashtable s)"
| "bucket_exists s (Primary_bucket b) \<longleftrightarrow> b < length (primary_hashtable s)"
| "bucket_exists s (Link a) \<longleftrightarrow> False"

abbreviation item_bucket :: "assoc \<Rightarrow> addr \<Rightarrow> cell" where
  "item_bucket s a \<equiv> bucket_of s (hash_fn s (hkey (items s a)))"

text \<open>
  \<open>C\<close> gives the items of each bucket: they are chained in this order, each is in the bucket its key
  selects, and no two have the same key.
\<close>

definition table_inv :: "assoc \<Rightarrow> (cell \<Rightarrow> addr list) \<Rightarrow> bool" where
  "table_inv s C \<longleftrightarrow> shape s \<and>
     (\<forall>c. bucket_exists s c \<longrightarrow> chain (items s) (read_cell s c) (C c) \<and>
        (\<forall>a\<in>set (C c). item_bucket s a = c) \<and> distinct (map (\<lambda>a. hkey (items s a)) (C c)))"

definition assoc_wf :: "assoc \<Rightarrow> bool" where
  "assoc_wf s \<longleftrightarrow> (\<exists>C. table_inv s C)"

lemma bucket_of_exists:
  assumes "shape s"
  shows "bucket_exists s (bucket_of s hv)"
  using assms unat_hashmask [of "hashpower s" hv] unat_hashmask [of "hashpower s - 1" hv]
  by (auto simp: bucket_of_def shape_def)

lemma bucket_exists_not_link: "bucket_exists s c \<Longrightarrow> c \<noteq> Link a"
  by auto

lemma write_cell_simps [simp]:
  "hash_fn (write_cell s c p) = hash_fn s" "hashpower (write_cell s c p) = hashpower s"
  "expanding (write_cell s c p) = expanding s" "expand_bucket (write_cell s c p) = expand_bucket s"
  "length (primary_hashtable (write_cell s c p)) = length (primary_hashtable s)"
  "length (old_hashtable (write_cell s c p)) = length (old_hashtable s)"
  "hkey (items (write_cell s c p) a) = hkey (items s a)"
  "started_expanding (write_cell s c p) = started_expanding s"
  by (simp_all add: write_cell_def split: cell.split)

lemma items_write_bucket [simp]: "bucket_exists s c \<Longrightarrow> items (write_cell s c p) = items s"
  by (cases c) (simp_all add: write_cell_def)

lemma items_write_link [simp]:
  "items (write_cell s (Link a) p) = (items s)(a := (items s a)\<lparr>h_next := p\<rparr>)"
  by (simp add: write_cell_def)

lemma bucket_of_write [simp]: "bucket_of (write_cell s c p) hv = bucket_of s hv"
  by (simp add: bucket_of_def)

lemma bucket_exists_write [simp]: "bucket_exists (write_cell s c p) c' = bucket_exists s c'"
  by (cases c') simp_all

lemma shape_write [simp]: "shape (write_cell s c p) = shape s"
  by (simp add: shape_def)

lemma read_write_same [simp]: "bucket_exists s c \<Longrightarrow> read_cell (write_cell s c p) c = p"
  by (cases c) (simp_all add: read_cell_def write_cell_def)

lemma read_write_other [simp]: "c \<noteq> c' \<Longrightarrow> bucket_exists s c' \<Longrightarrow> read_cell (write_cell s c p) c' = read_cell s c'"
  by (cases c; cases c') (simp_all add: read_cell_def write_cell_def)

lemma read_write_link [simp]: "bucket_exists s c \<Longrightarrow> read_cell (write_cell s (Link a) p) c = read_cell s c"
  by (cases c) (simp_all add: read_cell_def write_cell_def)

section \<open>The items of the table\<close>

definition members :: "assoc \<Rightarrow> (cell \<Rightarrow> addr list) \<Rightarrow> addr set" where
  "members s C = {a. \<exists>c. bucket_exists s c \<and> a \<in> set (C c)}"

definition index_find :: "assoc \<Rightarrow> u8 list \<Rightarrow> addr option" where
  "index_find s k = (case assoc_find s k (hash_fn s k) of None \<Rightarrow> None | Some r \<Rightarrow> r)"

lemma find_unique:
  assumes "distinct (map f as)"
  shows "find (\<lambda>a. f a = k) as = Some a \<longleftrightarrow> a \<in> set as \<and> f a = k"
  using assms by (induction as) (auto simp: image_iff)

lemma table_invD:
  assumes "table_inv s C" and "bucket_exists s c"
  shows "chain (items s) (read_cell s c) (C c)" and "\<And>a. a \<in> set (C c) \<Longrightarrow> item_bucket s a = c"
    and "distinct (map (\<lambda>a. hkey (items s a)) (C c))"
  using assms by (simp_all add: table_inv_def)

lemma table_inv_shape: "table_inv s C \<Longrightarrow> shape s"
  by (simp add: table_inv_def)

lemma assoc_find_table:
  assumes "table_inv s C"
  shows "assoc_find s k (hash_fn s k) = Some (find (\<lambda>a. hkey (items s a) = k) (C (bucket_of s (hash_fn s k))))"
  using table_invD(1) [OF assms bucket_of_exists [OF table_inv_shape [OF assms]]]
  by (simp add: assoc_find_def find_loop_chain)

lemma index_find_iff:
  assumes "table_inv s C"
  shows "index_find s k = Some a \<longleftrightarrow> a \<in> members s C \<and> hkey (items s a) = k"
proof -
  let ?c = "bucket_of s (hash_fn s k)"
  have ex: "bucket_exists s ?c" using bucket_of_exists [OF table_inv_shape [OF assms]] .
  have "index_find s k = Some a \<longleftrightarrow> a \<in> set (C ?c) \<and> hkey (items s a) = k"
    using table_invD(3) [OF assms ex] by (simp add: index_find_def assoc_find_table [OF assms] find_unique)
  moreover have "a \<in> set (C ?c)" if mem: "a \<in> members s C" and key: "hkey (items s a) = k"
  proof -
    obtain c where c: "bucket_exists s c" "a \<in> set (C c)" using mem by (auto simp: members_def)
    then show ?thesis using table_invD(2) [OF assms c] key by simp
  qed
  ultimately show ?thesis using ex by (auto simp: members_def)
qed

lemma index_find_None:
  assumes "table_inv s C"
  shows "index_find s k = None \<longleftrightarrow> (\<forall>a\<in>members s C. hkey (items s a) \<noteq> k)"
  using index_find_iff [OF assms, of k] by (metis option.exhaust option.distinct(1))

text \<open>Two states with the same items find the same.\<close>

lemma index_find_cong:
  assumes "table_inv s C" and "table_inv s' C'" and "members s' C' = members s C"
    and "\<And>a. hkey (items s' a) = hkey (items s a)"
  shows "index_find s' = index_find s"
proof
  fix k
  have "index_find s' k = Some a \<longleftrightarrow> index_find s k = Some a" for a
    using assms by (simp add: index_find_iff)
  then show "index_find s' k = index_find s k" by (metis option.exhaust)
qed

section \<open>Insert\<close>

lemma insert_table:
  assumes inv: "table_inv s C" and new: "index_find s (hkey (items s a)) = None"
    and s': "s' = assoc_insert s a (hash_fn s (hkey (items s a)))"
  shows "table_inv s' (C(item_bucket s a := a # C (item_bucket s a)))"
    and "members s' (C(item_bucket s a := a # C (item_bucket s a))) = insert a (members s C)"
    and "hkey (items s' x) = hkey (items s x)" and "hash_fn s' = hash_fn s"
proof -
  let ?c = "item_bucket s a" and ?k = "hkey (items s a)"
  let ?s1 = "write_cell s (Link a) (read_cell s ?c)"
  have eq: "s' = write_cell ?s1 ?c (Some a)" using s' by (simp add: assoc_insert_def Let_def)
  have ex: "bucket_exists s ?c" using bucket_of_exists [OF table_inv_shape [OF inv]] .
  have fresh: "a \<notin> set (C c)" if "bucket_exists s c" for c
    using new that inv by (auto simp: index_find_None members_def)
  have keys: "?k \<notin> (\<lambda>x. hkey (items s x)) ` set (C ?c)"
    using new ex inv by (auto simp: index_find_None members_def)
  show "hkey (items s' x) = hkey (items s x)" "hash_fn s' = hash_fn s" by (simp_all add: eq)
  have hk: "hkey (items s' x) = hkey (items s x)" for x by (simp add: eq)
  have it: "items s' = (items s)(a := (items s a)\<lparr>h_next := read_cell s ?c\<rparr>)" using ex by (simp add: eq)
  have "chain (items s') (read_cell s' c) ((C(?c := a # C ?c)) c) \<and>
      (\<forall>x\<in>set ((C(?c := a # C ?c)) c). item_bucket s' x = c) \<and>
      distinct (map (\<lambda>x. hkey (items s' x)) ((C(?c := a # C ?c)) c))" if c: "bucket_exists s c" for c
  proof (cases "c = ?c")
    case True
    have "read_cell s' ?c = Some a" using ex by (simp add: eq)
    moreover have "item_bucket s' x = item_bucket s x" for x by (simp add: eq)
    moreover have "chain (items s') (read_cell s ?c) (C ?c)" using table_invD(1) [OF inv ex] fresh [OF ex] by (simp add: it)
    moreover have "h_next (items s' a) = read_cell s ?c" by (simp add: it)
    ultimately show ?thesis using True table_invD(2,3) [OF inv ex] keys by (simp add: hk)
  next
    case False
    have "read_cell s' c = read_cell s c" using False c by (simp add: eq)
    moreover have "item_bucket s' x = item_bucket s x" for x by (simp add: eq)
    moreover have "chain (items s') (read_cell s c) (C c)" using table_invD(1) [OF inv c] fresh [OF c] by (simp add: it)
    ultimately show ?thesis using False table_invD(2,3) [OF inv c] by (simp add: hk)
  qed
  then show "table_inv s' (C(?c := a # C ?c))"
    using table_inv_shape [OF inv] by (simp add: table_inv_def eq)
  show "members s' (C(?c := a # C ?c)) = insert a (members s C)"
    using ex by (auto simp: members_def eq) metis
qed

section \<open>Delete\<close>

text \<open>Unlinking the item \<open>a\<close> behind the items \<open>bs\<close> of a chain.\<close>

lemma chain_unlink:
  assumes "lseg h p (bs @ [l]) (Some a)" and "chain h (h_next (h a)) ds"
    and "distinct (bs @ l # a # ds)" and "h' = h(a := (h a)\<lparr>h_next := None\<rparr>)"
  shows "chain (h'(l := (h' l)\<lparr>h_next := h_next (h a)\<rparr>)) p (bs @ [l] @ ds)"
proof -
  let ?g = "h'(l := (h' l)\<lparr>h_next := h_next (h a)\<rparr>)"
  have ds: "chain ?g (h_next (h a)) ds" using assms(2,3,4) by simp
  obtain r where r: "lseg h p bs r" "r = Some l" using assms(1) by (auto simp: lseg_append)
  have "lseg ?g p bs (Some l)" using r assms(3,4) by simp
  moreover have "h_next (?g l) = h_next (h a)" by simp
  ultimately show ?thesis using ds by (auto simp: lseg_append)
qed

lemma delete_table:
  assumes inv: "table_inv s C" and found: "index_find s k = Some a"
  shows "\<exists>s'. assoc_delete s k (hash_fn s k) = Some (Some s') \<and>
    table_inv s' (C(bucket_of s (hash_fn s k) := removeAll a (C (bucket_of s (hash_fn s k))))) \<and>
    members s' (C(bucket_of s (hash_fn s k) := removeAll a (C (bucket_of s (hash_fn s k))))) = members s C - {a} \<and>
    (\<forall>x. hkey (items s' x) = hkey (items s x)) \<and> hash_fn s' = hash_fn s"
proof -
  let ?c = "bucket_of s (hash_fn s k)"
  let ?C = "C(?c := removeAll a (C ?c))"
  have ex: "bucket_exists s ?c" using bucket_of_exists [OF table_inv_shape [OF inv]] .
  have ch: "chain (items s) (read_cell s ?c) (C ?c)" using table_invD(1) [OF inv ex] .
  obtain bs cs where w: "C ?c = bs @ cs" "\<forall>b\<in>set bs. hkey (items s b) \<noteq> k" "cs = [] \<or> hkey (items s (hd cs)) = k"
    and before: "before_loop s k ?c = Some (if bs = [] then ?c else Link (last bs))"
    using before_loop_chain [OF ch] by blast
  have a: "hkey (items s a) = k" "a \<in> set (C ?c)"
    using found table_invD(3) [OF inv ex]
    by (simp_all add: index_find_def assoc_find_table [OF inv] find_unique)
  then have "cs \<noteq> []" using w by auto
  have dk: "distinct (map (\<lambda>x. hkey (items s x)) (bs @ cs))" using table_invD(3) [OF inv ex] w(1) by simp
  obtain ds where cs: "cs = a # ds"
  proof -
    obtain a' ds where cs: "cs = a' # ds" using \<open>cs \<noteq> []\<close> by (cases cs) auto
    then have "hkey (items s a') = k" using w(3) by simp
    then have "a' = a" using a w(1,2) cs dk by (auto simp: image_iff)
    with cs that show thesis by simp
  qed
  have dist: "distinct (bs @ a # ds)" using dk unfolding cs distinct_map by blast
  have rem: "removeAll a (C ?c) = bs @ ds" using dist w(1) cs by (simp add: removeAll_id)
  let ?before = "if bs = [] then ?c else Link (last bs)"
  let ?s1 = "write_cell s (Link a) None"
  let ?s' = "write_cell ?s1 ?before (h_next (items s a))"
  obtain r where seg: "lseg (items s) (read_cell s ?c) bs r" "r = Some a" "chain (items s) (h_next (items s a)) ds"
    using ch w(1) cs by (auto simp: lseg_append)
  have rd: "read_cell s ?before = Some a"
    using seg by (cases bs rule: rev_cases) (auto simp: lseg_append read_cell_def)
  have del: "assoc_delete s k (hash_fn s k) = Some (Some ?s')"
    using before rd by (simp add: assoc_delete_def hashitem_before_def Let_def)
  have new: "chain (items ?s') (read_cell ?s' ?c) (bs @ ds)"
  proof (cases bs rule: rev_cases)
    case Nil
    then show ?thesis using seg dist ex by simp
  next
    case (snoc bs' l)
    have "chain ((items ?s1)(l := (items ?s1 l)\<lparr>h_next := h_next (items s a)\<rparr>)) (read_cell s ?c) (bs' @ [l] @ ds)"
      using seg dist unfolding snoc by (intro chain_unlink [of _ _ _ _ a]) (simp_all add: fun_eq_iff)
    then show ?thesis using snoc ex by simp
  qed
  have other: "chain (items ?s') (read_cell ?s' c) (C c)" if c: "bucket_exists s c" "c \<noteq> ?c" for c
  proof -
    have "x \<notin> set (C c)" if "x \<in> set (C ?c)" for x
      using table_invD(2) [OF inv c(1), of x] table_invD(2) [OF inv ex that] c(2) by auto
    then have "a \<notin> set (C c)" "bs \<noteq> [] \<Longrightarrow> last bs \<notin> set (C c)" using w(1) cs by auto
    then show ?thesis using table_invD(1) [OF inv c(1)] c ex by (cases "bs = []") simp_all
  qed
  have "table_inv ?s' ?C"
    unfolding table_inv_def
  proof (intro conjI allI impI)
    show "shape ?s'" using table_inv_shape [OF inv] by simp
    fix c assume "bucket_exists ?s' c"
    then have c: "bucket_exists s c" by simp
    show "chain (items ?s') (read_cell ?s' c) (?C c)" using new other [OF c] rem by (cases "c = ?c") simp_all
    show "\<forall>x\<in>set (?C c). item_bucket ?s' x = c" using table_invD(2) [OF inv c] by auto
    show "distinct (map (\<lambda>x. hkey (items ?s' x)) (?C c))"
      using table_invD(3) [OF inv c] by (cases "c = ?c") (simp_all add: removeAll_filter_not_eq distinct_map_filter del: items_write_link items_write_bucket)
  qed
  moreover have "members ?s' ?C = members s C - {a}"
  proof -
    have "a \<notin> set (C c)" if "bucket_exists s c" "c \<noteq> ?c" for c
      using table_invD(2) [OF inv that(1), of a] table_invD(2) [OF inv ex a(2)] that(2) by auto
    then show ?thesis using ex by (auto simp: members_def) metis
  qed
  ultimately show ?thesis using del by auto
qed

section \<open>Expansion\<close>

lemma expand_table:
  assumes inv: "table_inv s C" and "\<not> expanding s" and "hashpower s < 31"
  shows "\<exists>C'. table_inv (assoc_expand ok s) C' \<and> members (assoc_expand ok s) C' = members s C"
    and "items (assoc_expand ok s) = items s" and "hash_fn (assoc_expand ok s) = hash_fn s"
proof -
  let ?s = "assoc_expand ok s"
  show it: "items ?s = items s" "hash_fn ?s = hash_fn s" by (simp_all add: assoc_expand_def Let_def)
  have sh: "length (primary_hashtable s) = 2 ^ hashpower s" using table_inv_shape [OF inv] by (simp add: shape_def)
  show "\<exists>C'. table_inv ?s C' \<and> members ?s C' = members s C"
  proof (cases ok)
    case False
    have "bucket_exists ?s c = bucket_exists s c" for c
      using assms(2) False by (cases c) (simp_all add: assoc_expand_def)
    moreover have "read_cell ?s c = read_cell s c" if "bucket_exists s c" for c
      using that assms(2) False by (cases c) (simp_all add: assoc_expand_def read_cell_def)
    moreover have "bucket_of ?s hv = bucket_of s hv" for hv
      using assms(2) False by (simp add: assoc_expand_def bucket_of_def)
    moreover have "shape ?s" using table_inv_shape [OF inv] assms(2) False by (simp add: shape_def assoc_expand_def)
    ultimately have "table_inv ?s C \<and> members ?s C = members s C"
      using inv it by (simp add: table_inv_def members_def)
    then show ?thesis by blast
  next
    case True
    define C' where "C' = (\<lambda>c. case c of Old_bucket b \<Rightarrow> C (Primary_bucket b) | _ \<Rightarrow> [])"
    have s: "hashpower ?s = hashpower s + 1" "expanding ?s" "expand_bucket ?s = 0"
      "old_hashtable ?s = primary_hashtable s" "primary_hashtable ?s = replicate (2 ^ (hashpower s + 1)) None"
      using True assms(3) by (simp_all add: assoc_expand_def Let_def unat_hashsize)
    have b: "bucket_of ?s hv = Old_bucket (unat (hv AND hashmask (hashpower s)))" for hv
      using s by (simp add: bucket_of_def)
    have b0: "bucket_of s hv = Primary_bucket (unat (hv AND hashmask (hashpower s)))" for hv
      using assms(2) by (simp add: bucket_of_def)
    have "shape ?s" using s sh assms(3) by (simp add: shape_def)
    moreover have "chain (items ?s) (read_cell ?s c) (C' c) \<and> (\<forall>a\<in>set (C' c). item_bucket ?s a = c) \<and>
        distinct (map (\<lambda>a. hkey (items ?s a)) (C' c))" if ex: "bucket_exists ?s c" for c
    proof (cases c)
      case (Old_bucket n)
      then have ex': "bucket_exists s (Primary_bucket n)" using ex s by simp
      have "item_bucket ?s a = c" if "a \<in> set (C' c)" for a
        using table_invD(2) [OF inv ex', of a] that Old_bucket unfolding it b b0 by (simp add: C'_def)
      then show ?thesis
        using table_invD(1,3) [OF inv ex'] Old_bucket s it by (simp add: C'_def read_cell_def)
    next
      case (Primary_bucket n)
      then show ?thesis using ex s by (simp add: C'_def read_cell_def)
    next
      case (Link x)
      then show ?thesis using ex by simp
    qed
    ultimately have "table_inv ?s C'" by (simp add: table_inv_def)
    moreover have "members ?s C' = members s C"
    proof -
      have "(\<exists>c. bucket_exists ?s c \<and> a \<in> set (C' c)) \<longleftrightarrow> (\<exists>n. bucket_exists s (Primary_bucket n) \<and> a \<in> set (C (Primary_bucket n)))" for a
        using s by (auto simp: C'_def split: cell.splits) (metis bucket_exists.simps(1) cell.simps(10))
      moreover have "bucket_exists s c \<Longrightarrow> \<exists>n. c = Primary_bucket n" for c using assms(2) by (cases c) simp_all
      ultimately show ?thesis unfolding members_def by blast
    qed
    ultimately show ?thesis by blast
  qed
qed

text \<open>Moving the items \<open>as\<close> to the front of the chains \<open>D\<close> of the new table.\<close>

definition new_bucket :: "assoc \<Rightarrow> addr \<Rightarrow> nat" where
  "new_bucket s a = unat (hash_fn s (hkey (items s a)) AND hashmask (hashpower s))"

definition same_but_chains :: "assoc \<Rightarrow> assoc \<Rightarrow> bool" where
  "same_but_chains s s' \<longleftrightarrow> hash_fn s' = hash_fn s \<and> hashpower s' = hashpower s \<and> expanding s' = expanding s \<and>
     expand_bucket s' = expand_bucket s \<and> old_hashtable s' = old_hashtable s \<and>
     length (primary_hashtable s') = length (primary_hashtable s) \<and> (\<forall>x. hkey (items s' x) = hkey (items s x))"

lemma same_but_chains_trans: "same_but_chains s t \<Longrightarrow> same_but_chains t u \<Longrightarrow> same_but_chains s u"
  by (simp add: same_but_chains_def)

lemma move_loop_chains:
  assumes "chain (items s) it as" and "distinct as" and "shape s"
    and "\<And>b. b < length (primary_hashtable s) \<Longrightarrow> chain (items s) (primary_hashtable s ! b) (D b)"
    and "\<And>b. b < length (primary_hashtable s) \<Longrightarrow> set as \<inter> set (D b) = {}"
  shows "\<exists>s'. move_loop s it = Some s' \<and> same_but_chains s s' \<and> (\<forall>x. x \<notin> set as \<longrightarrow> items s' x = items s x) \<and>
    (\<forall>b < length (primary_hashtable s).
       chain (items s') (primary_hashtable s' ! b) (rev (filter (\<lambda>a. new_bucket s a = b) as) @ D b))"
  using assms
proof (induction as arbitrary: s it D)
  case Nil
  then show ?case by (subst move_loop.simps) (simp add: same_but_chains_def)
next
  case (Cons a as)
  let ?b = "new_bucket s a"
  let ?s1 = "write_cell s (Link a) (primary_hashtable s ! ?b)"
  let ?s2 = "write_cell ?s1 (Primary_bucket ?b) (Some a)"
  let ?D = "D(?b := a # D ?b)"
  have it: "it = Some a" "chain (items s) (h_next (items s a)) as" using Cons.prems(1) by simp_all
  have blt: "?b < length (primary_hashtable s)"
    using Cons.prems(3) by (simp add: new_bucket_def shape_def unat_hashmask)
  have items2: "items ?s2 = (items s)(a := (items s a)\<lparr>h_next := primary_hashtable s ! ?b\<rparr>)"
    by (simp add: write_cell_def)
  have prim2: "primary_hashtable ?s2 = (primary_hashtable s)[?b := Some a]" by (simp add: write_cell_def)
  have same: "same_but_chains s ?s2" by (simp add: same_but_chains_def) (simp add: write_cell_def)
  have nb: "new_bucket ?s2 x = new_bucket s x" for x by (simp add: new_bucket_def)
  have step: "move_loop s it = move_loop ?s2 (h_next (items s a))"
    by (subst move_loop.simps) (simp add: it read_cell_def new_bucket_def Let_def)
  have "\<exists>s'. move_loop ?s2 (h_next (items s a)) = Some s' \<and> same_but_chains ?s2 s' \<and>
    (\<forall>x. x \<notin> set as \<longrightarrow> items s' x = items ?s2 x) \<and>
    (\<forall>b < length (primary_hashtable ?s2).
       chain (items s') (primary_hashtable s' ! b) (rev (filter (\<lambda>a. new_bucket ?s2 a = b) as) @ ?D b))"
  proof (rule Cons.IH)
    show "chain (items ?s2) (h_next (items s a)) as" using it Cons.prems(2) by (simp add: items2)
    show "distinct as" "shape ?s2" using Cons.prems(2,3) by simp_all
    fix b assume "b < length (primary_hashtable ?s2)"
    then have b: "b < length (primary_hashtable s)" by simp
    have "a \<notin> set (D b)" using Cons.prems(5) [OF b] by simp
    then show "chain (items ?s2) (primary_hashtable ?s2 ! b) (?D b)"
      using Cons.prems(4) [OF b] blt b unfolding items2 prim2 by (cases "b = ?b") simp_all
    show "set as \<inter> set (?D b) = {}" using Cons.prems(2) Cons.prems(5) [OF b] by auto
  qed
  then obtain s' where s': "move_loop ?s2 (h_next (items s a)) = Some s'" "same_but_chains ?s2 s'"
    "\<And>x. x \<notin> set as \<Longrightarrow> items s' x = items ?s2 x"
    "\<And>b. b < length (primary_hashtable s) \<Longrightarrow>
      chain (items s') (primary_hashtable s' ! b) (rev (filter (\<lambda>a. new_bucket s a = b) as) @ ?D b)"
    unfolding nb by auto
  have "items s' x = items s x" if "x \<notin> set (a # as)" for x using that s'(3) [of x] by (simp add: items2)
  moreover have "chain (items s') (primary_hashtable s' ! b) (rev (filter (\<lambda>a. new_bucket s a = b) (a # as)) @ D b)"
    if "b < length (primary_hashtable s)" for b
    using s'(4) [OF that] by (cases "b = ?b") simp_all
  ultimately show ?case using step s'(1) same_but_chains_trans [OF same s'(2)] by auto
qed

text \<open>The buckets of a table that is being expanded, in terms of the hash value.\<close>

lemma bucket_of_nat:
  assumes "shape s" and "expanding s"
  shows "bucket_of s hv =
    (if unat hv mod 2 ^ (hashpower s - 1) \<ge> unat (expand_bucket s)
     then Old_bucket (unat hv mod 2 ^ (hashpower s - 1)) else Primary_bucket (unat hv mod 2 ^ hashpower s))"
proof -
  have "hashpower s - 1 < 32" using assms(1) by (auto simp: shape_def)
  from unat_hashmask [OF this, of hv] show ?thesis
    using assms by (simp add: bucket_of_def shape_def word_le_nat_alt unat_hashmask)
qed

lemma bucket_of_done:
  "shape s \<Longrightarrow> \<not> expanding s \<Longrightarrow> bucket_of s hv = Primary_bucket (unat hv mod 2 ^ hashpower s)"
  by (simp add: bucket_of_def shape_def unat_hashmask)

text \<open>The state after the items of the current bucket were moved.\<close>

definition bucket_done :: "assoc \<Rightarrow> assoc" where
  "bucket_done s1 =
     (let s2 = s1\<lparr>old_hashtable := (old_hashtable s1)[unat (expand_bucket s1) := None],
                  expand_bucket := expand_bucket s1 + 1\<rparr> in
      if expand_bucket s2 = hashsize (hashpower s2 - 1)
      then s2\<lparr>expanding := False, old_hashtable := [],
              hash_bytes := hash_bytes s2 - ucast (hashsize (hashpower s2 - 1)) * 8, hash_is_expanding := False\<rparr>
      else s2)"

lemma bucket_done_simps:
  assumes "shape s1" and "expanding s1" and "e = unat (expand_bucket s1)"
  shows "hash_fn (bucket_done s1) = hash_fn s1" and "items (bucket_done s1) = items s1"
    and "hashpower (bucket_done s1) = hashpower s1" and "primary_hashtable (bucket_done s1) = primary_hashtable s1"
    and "expanding (bucket_done s1) \<longleftrightarrow> e + 1 < 2 ^ (hashpower s1 - 1)"
    and "unat (expand_bucket (bucket_done s1)) = e + 1"
    and "expanding (bucket_done s1) \<Longrightarrow> old_hashtable (bucket_done s1) = (old_hashtable s1)[e := None]"
proof -
  have e: "e < 2 ^ (hashpower s1 - 1)" "hashpower s1 - 1 < 32" using assms by (auto simp: shape_def)
  have "(2 :: nat) ^ (hashpower s1 - 1) \<le> 2 ^ 31" using assms(1) by (intro power_increasing) (auto simp: shape_def)
  then have e1: "unat (expand_bucket s1 + 1) = e + 1" using e(1) assms(3) by (subst unat_add_one_u32) simp_all
  have last: "expand_bucket s1 + 1 = hashsize (hashpower s1 - 1) \<longleftrightarrow> e + 1 = 2 ^ (hashpower s1 - 1)"
    using e1 unat_hashsize [OF e(2)] by (simp add: word_unat_eq_iff)
  show "hash_fn (bucket_done s1) = hash_fn s1" "items (bucket_done s1) = items s1"
    "hashpower (bucket_done s1) = hashpower s1" "primary_hashtable (bucket_done s1) = primary_hashtable s1"
    "expanding (bucket_done s1) \<longleftrightarrow> e + 1 < 2 ^ (hashpower s1 - 1)"
    "unat (expand_bucket (bucket_done s1)) = e + 1"
    using last e e1 assms(2) by (auto simp: bucket_done_def Let_def)
  show "old_hashtable (bucket_done s1) = (old_hashtable s1)[e := None]" if "expanding (bucket_done s1)"
    using that assms(3) by (auto simp: bucket_done_def Let_def split: if_splits)
qed

lemma shape_bucket_done:
  assumes "shape s1" and "expanding s1"
  shows "shape (bucket_done s1)"
  using assms bucket_done_simps [OF assms refl] by (auto simp: shape_def)

text \<open>An item's bucket after its old bucket was moved.\<close>

lemma bucket_of_bucket_done:
  assumes "shape s" and "expanding s"
  shows "bucket_of (bucket_done s) hv =
    (if bucket_of s hv = Old_bucket (unat (expand_bucket s)) then Primary_bucket (unat hv mod 2 ^ hashpower s)
     else bucket_of s hv)"
proof -
  let ?e = "unat (expand_bucket s)" and ?h = "unat hv mod 2 ^ (hashpower s - 1)"
  note d = bucket_done_simps [OF assms refl] and sh = shape_bucket_done [OF assms]
  have h: "?h < 2 ^ (hashpower s - 1)" by simp
  show ?thesis
  proof (cases "?e + 1 < 2 ^ (hashpower s - 1)")
    case True
    then have "expanding (bucket_done s)" using d(5) by simp
    from bucket_of_nat [OF sh this] show ?thesis
      using d bucket_of_nat [OF assms, of hv] by auto
  next
    case False
    then have "\<not> expanding (bucket_done s)" using d(5) by simp
    moreover have "?e < 2 ^ (hashpower s - 1)" using assms by (simp add: shape_def)
    then have "?e \<le> ?h \<longleftrightarrow> ?e = ?h" using False h by linarith
    ultimately show ?thesis
      using d bucket_of_done [OF sh, of hv] bucket_of_nat [OF assms, of hv] by auto
  qed
qed

lemma move_bucket_table:
  assumes inv: "table_inv s C" and exp: "expanding s"
  shows "\<exists>s' C'. move_bucket s = Some s' \<and> table_inv s' C' \<and> members s' C' = members s C \<and>
    (\<forall>x. hkey (items s' x) = hkey (items s x)) \<and> hash_fn s' = hash_fn s \<and> hashpower s' = hashpower s \<and>
    (if expanding s' then unat (expand_bucket s') = unat (expand_bucket s) + 1
     else unat (expand_bucket s) + 1 = 2 ^ (hashpower s - 1))"
proof -
  let ?e = "unat (expand_bucket s)"
  let ?as = "C (Old_bucket ?e)"
  have sh: "shape s" using table_inv_shape [OF inv] .
  then have ex: "bucket_exists s (Old_bucket ?e)" using exp by (simp add: shape_def)
  have disj: "set ?as \<inter> set (C c) = {}" if "bucket_exists s c" "c \<noteq> Old_bucket ?e" for c
    using table_invD(2) [OF inv ex] table_invD(2) [OF inv that(1)] that(2) by fastforce
  have das: "distinct ?as" using table_invD(3) [OF inv ex] unfolding distinct_map by blast
  have oc: "chain (items s) (old_hashtable s ! ?e) ?as" using table_invD(1) [OF inv ex] by (simp add: read_cell_def)
  have pc: "chain (items s) (primary_hashtable s ! b) (C (Primary_bucket b))" if "b < length (primary_hashtable s)" for b
    using table_invD(1) [OF inv, of "Primary_bucket b"] that by (simp add: read_cell_def)
  obtain s1 where mv: "move_loop s (old_hashtable s ! ?e) = Some s1" and same: "same_but_chains s s1"
    and keep: "\<And>x. x \<notin> set ?as \<Longrightarrow> items s1 x = items s x"
    and prim: "\<And>b. b < length (primary_hashtable s) \<Longrightarrow>
      chain (items s1) (primary_hashtable s1 ! b) (rev (filter (\<lambda>a. new_bucket s a = b) ?as) @ C (Primary_bucket b))"
    using move_loop_chains [OF oc das sh pc] disj by auto
  note sm = same [unfolded same_but_chains_def]
  let ?s' = "bucket_done s1"
  define C' where "C' = (\<lambda>c. case c of Old_bucket b \<Rightarrow> if b = ?e then [] else C (Old_bucket b)
     | Primary_bucket b \<Rightarrow> rev (filter (\<lambda>a. new_bucket s a = b) ?as) @ C (Primary_bucket b) | Link a \<Rightarrow> [])"
  have sh1: "shape s1" "expanding s1" using sh exp sm by (simp_all add: shape_def)
  note d = bucket_done_simps [OF sh1 refl]
  have bo1: "bucket_of s1 hv = bucket_of s hv" for hv using sm by (simp add: bucket_of_def)
  have bo: "bucket_of ?s' hv = (if bucket_of s hv = Old_bucket ?e then Primary_bucket (unat hv mod 2 ^ hashpower s) else bucket_of s hv)" for hv
    using bucket_of_bucket_done [OF sh1, of hv] sm bo1 by simp
  have ib: "item_bucket ?s' a = (if item_bucket s a = Old_bucket ?e then Primary_bucket (new_bucket s a) else item_bucket s a)" for a
    using bo sm d(1,2) sh by (simp add: new_bucket_def shape_def unat_hashmask)
  have hk: "hkey (items ?s' x) = hkey (items s x)" for x using sm d(2) by simp
  have bex: "bucket_exists s c" if "bucket_exists ?s' c" for c
    using that d sm exp by (cases c) auto
  have "chain (items ?s') (read_cell ?s' c) (C' c) \<and> (\<forall>a\<in>set (C' c). item_bucket ?s' a = c) \<and>
      distinct (map (\<lambda>a. hkey (items ?s' a)) (C' c))" if c': "bucket_exists ?s' c" for c
  proof (cases c)
    case (Old_bucket b)
    have c: "bucket_exists s (Old_bucket b)" using bex [OF c'] Old_bucket by simp
    have old: "old_hashtable ?s' = (old_hashtable s)[?e := None]" using c' Old_bucket d(7) sm by simp
    show ?thesis
    proof (cases "b = ?e")
      case True
      then show ?thesis using Old_bucket c old by (simp add: C'_def read_cell_def)
    next
      case False
      then have "set ?as \<inter> set (C (Old_bucket b)) = {}" using disj [OF c] by simp
      then have "chain (items s1) p (C (Old_bucket b)) = chain (items s) p (C (Old_bucket b))" for p
        using keep by (intro lseg_cong) auto
      then show ?thesis
        using table_invD [OF inv c] Old_bucket False old d(2) ib hk by (simp add: C'_def read_cell_def)
    qed
  next
    case (Primary_bucket b)
    have c: "bucket_exists s (Primary_bucket b)" using bex [OF c'] Primary_bucket by simp
    have "item_bucket ?s' a = c" if "a \<in> set (C' c)" for a
      using that table_invD(2) [OF inv ex, of a] table_invD(2) [OF inv c, of a] Primary_bucket ib by (auto simp: C'_def)
    moreover have "distinct (map (\<lambda>a. hkey (items s a)) (C' c))"
    proof -
      have "hkey (items s x) \<noteq> hkey (items s y)" if "x \<in> set ?as" "y \<in> set (C (Primary_bucket b))" for x y
        using table_invD(2) [OF inv ex that(1)] table_invD(2) [OF inv c that(2)] by auto
      then show ?thesis
        using table_invD(3) [OF inv ex] table_invD(3) [OF inv c] Primary_bucket
        by (auto simp: C'_def rev_map [symmetric] distinct_map_filter)
    qed
    ultimately show ?thesis using prim c Primary_bucket d(2,4) hk sm by (simp add: C'_def read_cell_def)
  next
    case (Link a)
    then show ?thesis using c' by simp
  qed
  then have inv': "table_inv ?s' C'" using shape_bucket_done [OF sh1] by (simp add: table_inv_def)
  have "members ?s' C' = members s C"
  proof (intro equalityI subsetI)
    fix a assume "a \<in> members s C"
    then obtain c where c: "bucket_exists s c" "a \<in> set (C c)" by (auto simp: members_def)
    have "a \<in> set (C' (item_bucket ?s' a))"
      using table_invD(2) [OF inv c] c ib [of a] by (cases c) (auto simp: C'_def)
    moreover have "bucket_exists ?s' (item_bucket ?s' a)" using bucket_of_exists [OF shape_bucket_done [OF sh1]] .
    ultimately show "a \<in> members ?s' C'" by (auto simp: members_def)
  next
    fix a assume "a \<in> members ?s' C'"
    then obtain c where c: "bucket_exists ?s' c" "a \<in> set (C' c)" by (auto simp: members_def)
    have "a \<in> set ?as \<or> a \<in> set (C c)" using c(2) by (cases c) (auto simp: C'_def split: if_splits)
    then show "a \<in> members s C" using ex bex [OF c(1)] unfolding members_def by blast
  qed
  moreover have "move_bucket s = Some ?s'" using mv by (simp add: move_bucket_def bucket_done_def Let_def)
  moreover have "if expanding ?s' then unat (expand_bucket ?s') = ?e + 1 else ?e + 1 = 2 ^ (hashpower s - 1)"
    using d(5,6) sm sh exp by (auto simp: shape_def)
  moreover have "hash_fn ?s' = hash_fn s" "hashpower ?s' = hashpower s" using d(1,3) sm by simp_all
  ultimately show ?thesis using inv' hk by (intro exI [of _ ?s'] exI [of _ C'] conjI) blast+
qed

section \<open>The table as an index\<close>

text \<open>
  The operations as the item store uses them: the hash value is that of the key.  Rounds of the
  maintenance thread may start an expansion while the number of buckets is still representable.
\<close>

definition index_insert :: "assoc \<Rightarrow> addr \<Rightarrow> assoc" where
  "index_insert s a = assoc_insert s a (hash_fn s (hkey (items s a)))"

definition index_delete :: "assoc \<Rightarrow> u8 list \<Rightarrow> assoc" where
  "index_delete s k = (case assoc_delete s k (hash_fn s k) of Some (Some s') \<Rightarrow> s' | _ \<Rightarrow> s)"

definition index_maintain :: "assoc \<Rightarrow> bool list \<times> bool \<times> bool \<Rightarrow> assoc" where
  "index_maintain s m =
     (case m of (locks, run, calloc_ok) \<Rightarrow>
        case maintenance_round locks (run \<and> hashpower s < 31) calloc_ok s of Some s' \<Rightarrow> s' | None \<Rightarrow> s)"

definition index_key :: "assoc \<Rightarrow> addr \<Rightarrow> u8 list" where
  "index_key s a = hkey (items s a)"

text \<open>Two states hold the same index.\<close>

definition same_index :: "assoc \<Rightarrow> assoc \<Rightarrow> bool" where
  "same_index s s' \<longleftrightarrow> index_find s' = index_find s \<and> index_key s' = index_key s"

lemma same_indexI:
  assumes "table_inv s C" and "table_inv s' C'" and "members s' C' = members s C"
    and "\<And>x. hkey (items s' x) = hkey (items s x)"
  shows "same_index s s'"
  using index_find_cong [OF assms] assms(4) by (simp add: same_index_def index_key_def fun_eq_iff)

lemma same_index_trans: "same_index s t \<Longrightarrow> same_index t u \<Longrightarrow> same_index s u"
  by (simp add: same_index_def)

lemma move_bucket_index:
  assumes "assoc_wf s" and "expanding s"
  obtains s' where "move_bucket s = Some s'" and "assoc_wf s'" and "same_index s s'" and "hashpower s' = hashpower s"
    and "if expanding s' then unat (expand_bucket s') = unat (expand_bucket s) + 1
      else unat (expand_bucket s) + 1 = 2 ^ (hashpower s - 1)"
proof -
  obtain C where C: "table_inv s C" using assms(1) by (auto simp: assoc_wf_def)
  from move_bucket_table [OF this assms(2)] obtain s' C' where s': "move_bucket s = Some s'" "table_inv s' C'"
    "members s' C' = members s C" "\<And>x. hkey (items s' x) = hkey (items s x)" "hashpower s' = hashpower s"
    "if expanding s' then unat (expand_bucket s') = unat (expand_bucket s) + 1
      else unat (expand_bucket s) + 1 = 2 ^ (hashpower s - 1)" by blast
  show thesis using that [OF s'(1) _ same_indexI [OF C s'(2-4)] s'(5,6)] s'(2) by (auto simp: assoc_wf_def)
qed

lemma bulk_move_index:
  assumes "assoc_wf s"
  shows "\<exists>s'. bulk_move locks s = Some s' \<and> assoc_wf s' \<and> same_index s s' \<and> hashpower s' = hashpower s"
  using assms
proof (induction locks arbitrary: s)
  case Nil
  then show ?case by (simp add: same_index_def)
next
  case (Cons lock locks)
  show ?case
  proof (cases "expanding s \<and> lock")
    case True
    obtain s1 where "move_bucket s = Some s1" "assoc_wf s1" "same_index s s1" "hashpower s1 = hashpower s"
      using move_bucket_index [OF Cons.prems] True by auto
    with Cons.IH [of s1] True show ?thesis by (auto intro: same_index_trans)
  next
    case False
    then show ?thesis using Cons by (auto simp: same_index_def)
  qed
qed

lemma maintenance_index:
  assumes "assoc_wf s"
  shows "\<exists>s'. maintenance_round locks (run \<and> hashpower s < 31) ok s = Some s' \<and> assoc_wf s' \<and> same_index s s'"
proof -
  obtain s1 where s1: "bulk_move locks s = Some s1" "assoc_wf s1" "same_index s s1" "hashpower s1 = hashpower s"
    using bulk_move_index [OF assms] by blast
  let ?s2 = "s1\<lparr>started_expanding := False\<rparr>"
  obtain C where C: "table_inv s1 C" using s1(2) by (auto simp: assoc_wf_def)
  have "bucket_exists ?s2 c = bucket_exists s1 c" "read_cell ?s2 c = read_cell s1 c" for c
    by (cases c; simp add: read_cell_def)+
  moreover have "bucket_of ?s2 hv = bucket_of s1 hv" for hv by (simp add: bucket_of_def)
  ultimately have C2: "table_inv ?s2 C" "members ?s2 C = members s1 C"
    using C by (simp_all add: table_inv_def shape_def members_def)
  have i2: "same_index s ?s2" using same_index_trans [OF s1(3) same_indexI [OF C C2]] by simp
  show ?thesis
  proof (cases "\<not> expanding s1 \<and> run \<and> hashpower s < 31")
    case True
    then have "\<not> expanding ?s2" "hashpower ?s2 < 31" using s1(4) by simp_all
    from expand_table [OF C2(1) this, of ok] obtain C' where
      C': "table_inv (assoc_expand ok ?s2) C'" "members (assoc_expand ok ?s2) C' = members ?s2 C"
      "items (assoc_expand ok ?s2) = items ?s2" by blast
    have "same_index s (assoc_expand ok ?s2)"
      using same_index_trans [OF i2 same_indexI [OF C2(1) C'(1,2)]] C'(3) by simp
    then show ?thesis
      using True s1(1) C'(1) by (auto simp: maintenance_round_def assoc_wf_def Let_def)
  next
    case False
    then show ?thesis
      using s1 i2 C2(1) by (auto simp: maintenance_round_def assoc_wf_def Let_def)
  qed
qed

lemma index_insert_index:
  assumes "assoc_wf s" and "index_find s (index_key s a) = None"
  shows "assoc_wf (index_insert s a) \<and> index_find (index_insert s a) = (index_find s)(index_key s a \<mapsto> a) \<and>
    index_key (index_insert s a) = index_key s"
proof -
  obtain C where C: "table_inv s C" using assms(1) by (auto simp: assoc_wf_def)
  note ins = insert_table [OF C _ refl, of a, folded index_insert_def]
  have none: "index_find s (hkey (items s a)) = None" using assms(2) by (simp add: index_key_def)
  note tab = ins(1,2) [OF none] and hk = ins(3) [OF none]
  have "index_find (index_insert s a) k = ((index_find s)(index_key s a \<mapsto> a)) k" for k
  proof -
    have new: "index_find (index_insert s a) k = Some x \<longleftrightarrow> x \<in> insert a (members s C) \<and> hkey (items s x) = k" for x
      using index_find_iff [OF tab(1)] tab(2) hk by simp
    show ?thesis
    proof (cases "k = index_key s a")
      case True
      then have "index_find (index_insert s a) k = Some a" using new by (simp add: index_key_def)
      then show ?thesis using True by simp
    next
      case False
      then have "index_find (index_insert s a) k = Some x \<longleftrightarrow> index_find s k = Some x" for x
        using new index_find_iff [OF C] by (auto simp: index_key_def)
      then show ?thesis using False by (metis fun_upd_other option.exhaust)
    qed
  qed
  then show ?thesis using tab(1) hk by (auto simp: assoc_wf_def index_key_def fun_eq_iff)
qed

lemma index_delete_index:
  assumes "assoc_wf s" and "index_find s k \<noteq> None"
  shows "assoc_wf (index_delete s k) \<and> index_find (index_delete s k) = (index_find s)(k := None) \<and>
    index_key (index_delete s k) = index_key s"
proof -
  obtain C where C: "table_inv s C" using assms(1) by (auto simp: assoc_wf_def)
  obtain a where a: "index_find s k = Some a" using assms(2) by blast
  obtain s' C' where s': "assoc_delete s k (hash_fn s k) = Some (Some s')" "table_inv s' C'" "members s' C' = members s C - {a}"
    "\<And>x. hkey (items s' x) = hkey (items s x)"
    using delete_table [OF C a] by blast
  have eq: "index_delete s k = s'" using s'(1) by (simp add: index_delete_def)
  have ak: "a \<in> members s C" "hkey (items s a) = k" using index_find_iff [OF C] a by simp_all
  have uniq: "x = a" if "x \<in> members s C" "hkey (items s x) = k" for x
    using index_find_iff [OF C, of k x] a that by simp
  have "index_find s' j = ((index_find s)(k := None)) j" for j
  proof -
    have "index_find s' j = Some x \<longleftrightarrow> ((index_find s)(k := None)) j = Some x" for x
    proof (cases "j = k")
      case True
      then show ?thesis using index_find_iff [OF s'(2), of j x] s'(3,4) uniq [of x] by fastforce
    next
      case False
      then show ?thesis using index_find_iff [OF s'(2), of j x] index_find_iff [OF C, of j x] s'(3,4) ak(2) by auto
    qed
    then show ?thesis by (metis option.exhaust)
  qed
  then show ?thesis using s'(2,4) eq by (auto simp: assoc_wf_def index_key_def fun_eq_iff)
qed

lemma index_maintain_index:
  assumes "assoc_wf s"
  shows "assoc_wf (index_maintain s m) \<and> same_index s (index_maintain s m)"
  using maintenance_index [OF assms, of "fst m" "fst (snd m)" "snd (snd m)"]
  by (auto simp: index_maintain_def split: prod.splits)

interpretation tab: key_index index_find index_insert index_delete index_maintain index_key assoc_wf
proof unfold_locales
  fix s a assume "assoc_wf s" "index_find s (index_key s a) = None"
  note i = index_insert_index [OF this]
  show "assoc_wf (index_insert s a)" using i by simp
  show "index_find (index_insert s a) = (index_find s)(index_key s a \<mapsto> a)" using i by (auto simp: fun_eq_iff)
next
  fix s k assume "assoc_wf s" "index_find s k \<noteq> None"
  note d = index_delete_index [OF this]
  show "assoc_wf (index_delete s k)" using d by simp
  show "index_find (index_delete s k) = (index_find s)(k := None)" using d by (auto simp: fun_eq_iff)
next
  fix s m assume "assoc_wf s"
  note m = index_maintain_index [OF this, of m]
  show "assoc_wf (index_maintain s m)" "index_find (index_maintain s m) = index_find s"
    "index_key (index_maintain s m) = index_key s"
    using m by (auto simp: same_index_def)
next
  fix s a assume "assoc_wf s"
  show "index_key (index_insert s a) = index_key s"
    by (simp add: index_key_def index_insert_def assoc_insert_def Let_def fun_eq_iff del: items_write_link)
next
  fix s k assume "assoc_wf s"
  show "index_key (index_delete s k) = index_key s"
    by (simp add: index_key_def index_delete_def assoc_delete_def Let_def fun_eq_iff del: items_write_link split: option.split)
qed

section \<open>The properties of the table\<close>

text \<open>
  C22.  The hash table is a map.  Over any legal sequence of inserts, deletes and rounds of the
  maintenance thread, whatever the outcomes of its locks and allocations and however far an expansion
  has come, every lookup ends and finds exactly the item the sequence put there.
\<close>

theorem assoc_is_map:
  assumes "assoc_wf s" and "legal_ops (index_key s) ops (index_find s)"
    and "t = fold (index_step index_insert index_delete index_maintain) ops s"
  shows "assoc_find t k (hash_fn t k) = Some (map_run (index_key s) ops (index_find s) k)"
proof -
  have run: "assoc_wf t" "index_find t = map_run (index_key s) ops (index_find s)"
    using tab.run_refines_map [OF assms(1,2)] assms(3) by simp_all
  obtain C where "table_inv t C" using run(1) by (auto simp: assoc_wf_def)
  then have "assoc_find t k (hash_fn t k) = Some (index_find t k)" by (simp add: index_find_def assoc_find_table)
  then show ?thesis by (simp add: run(2))
qed

definition sample_assoc :: assoc where
  "sample_assoc = \<lparr>hash_fn = (\<lambda>k. of_nat (length k)),
     items = (\<lambda>a. \<lparr>hkey = (if a = 1 then bytes ''a'' else bytes ''bb''), h_next = None\<rparr>),
     hashpower = 1, primary_hashtable = [None, None], old_hashtable = [], expanding = False,
     started_expanding = False, expand_bucket = 0, hash_power_level = 1, hash_bytes = 16, hash_is_expanding = False\<rparr>"

lemma sample_assoc_inv: "table_inv sample_assoc (\<lambda>c. [])"
proof -
  have "read_cell sample_assoc c = None" if "bucket_exists sample_assoc c" for c
    using that by (cases c) (auto simp: sample_assoc_def read_cell_def nth_Cons' numeral_2_eq_2 less_Suc_eq)
  then show ?thesis by (simp add: table_inv_def) (simp add: shape_def sample_assoc_def)
qed

lemma sample_assoc_empty: "index_find sample_assoc k = None"
  using index_find_None [OF sample_assoc_inv] by (simp add: members_def)

theorem assoc_is_map_witness:
  "assoc_find (fold (index_step index_insert index_delete index_maintain)
      [Insert 1, Maintain ([], True, True), Insert 2, Maintain ([True], False, True)] sample_assoc)
    (bytes ''bb'') (hash_fn (fold (index_step index_insert index_delete index_maintain)
      [Insert 1, Maintain ([], True, True), Insert 2, Maintain ([True], False, True)] sample_assoc) (bytes ''bb'')) = Some (Some 2)"
proof -
  let ?ops = "[Insert 1, Maintain ([], True, True), Insert 2, Maintain ([True], False, True)]
    :: (addr, u8 list, bool list \<times> bool \<times> bool) index_op list"
  have k: "index_key sample_assoc 1 = bytes ''a''" "index_key sample_assoc 2 = bytes ''bb''"
    by (simp_all add: index_key_def sample_assoc_def)
  have "legal_ops (index_key sample_assoc) ?ops (index_find sample_assoc)"
    by (simp add: k k [unfolded One_nat_def] sample_assoc_empty bytes_def)
  moreover have "assoc_wf sample_assoc" using sample_assoc_inv by (auto simp: assoc_wf_def)
  ultimately show ?thesis using assoc_is_map [OF _ _ refl, of sample_assoc ?ops "bytes ''bb''"] k k [unfolded One_nat_def] by simp
qed

text \<open>
  C23.  Expansion ends.  Once the maintenance thread has obtained the item lock for as many iterations as
  there are buckets left in the old table, the expansion is over, and every lookup finds what it found
  before.
\<close>

theorem expansion_finishes:
  assumes "assoc_wf s" and "expanding s" and "length locks = 2 ^ (hashpower s - 1) - unat (expand_bucket s)"
    and "list_all id locks"
  shows "\<exists>s'. bulk_move locks s = Some s' \<and> \<not> expanding s' \<and> index_find s' = index_find s"
  using assms
proof (induction locks arbitrary: s)
  case Nil
  then show ?case using Nil.prems by (auto simp: assoc_wf_def table_inv_def shape_def)
next
  case (Cons lock locks)
  obtain s1 where s1: "move_bucket s = Some s1" "assoc_wf s1" "same_index s s1" "hashpower s1 = hashpower s"
    and prog: "if expanding s1 then unat (expand_bucket s1) = unat (expand_bucket s) + 1
      else unat (expand_bucket s) + 1 = 2 ^ (hashpower s - 1)"
    using move_bucket_index [OF Cons.prems(1,2)] by blast
  have step: "bulk_move (lock # locks) s = bulk_move locks s1" using Cons.prems(2,4) s1(1) by simp
  show ?case
  proof (cases "expanding s1")
    case True
    with prog have "length locks = 2 ^ (hashpower s1 - 1) - unat (expand_bucket s1)"
      using Cons.prems(3) s1(4) by simp
    from Cons.IH [OF s1(2) True this] Cons.prems(4) show ?thesis
      unfolding step using s1(3) by (auto simp: same_index_def)
  next
    case False
    with prog have "unat (expand_bucket s) + 1 = 2 ^ (hashpower s - 1)" by simp
    with Cons.prems(3) have "length (lock # locks) = 1" by linarith
    then have "locks = []" by simp
    then show ?thesis unfolding step using False s1(3) by (simp add: same_index_def)
  qed
qed

theorem expansion_finishes_witness:
  "\<exists>s'. bulk_move [True, True] (assoc_expand True sample_assoc) = Some s' \<and> \<not> expanding s'"
proof -
  have s: "expanding (assoc_expand True sample_assoc)" "hashpower (assoc_expand True sample_assoc) = 2"
    "expand_bucket (assoc_expand True sample_assoc) = 0"
    by (simp_all add: assoc_expand_def sample_assoc_def Let_def)
  have "\<not> expanding sample_assoc" "hashpower sample_assoc < 31" by (simp_all add: sample_assoc_def)
  then have "assoc_wf (assoc_expand True sample_assoc)"
    using expand_table(1) [OF sample_assoc_inv, of True] unfolding assoc_wf_def by blast
  moreover have "length [True, True] = 2 ^ (hashpower (assoc_expand True sample_assoc) - 1) -
      unat (expand_bucket (assoc_expand True sample_assoc))"
    unfolding s by simp
  moreover have "list_all id [True, True]" by simp
  ultimately show ?thesis using expansion_finishes [OF _ s(1)] by blast
qed

end
