(* ===== verification/Util.thy ===== *)
theory Util
  imports Itoa
begin

text \<open>
  The helpers of \<^verbatim>\<open>src/memcached-sr/util.c\<close>: URI encoding, the checked conversions of strings to numbers, the
  bounded string copy and the 64-bit byte swap.

  A C string is the list of the bytes before its terminator, so reading it past the end gives the
  terminator.  The conversions \<^verbatim>\<open>strtoull\<close> and \<^verbatim>\<open>strtoll\<close> of the C library are written out for the
  \<^verbatim>\<open>C\<close> locale: they return the value, the offset \<^verbatim>\<open>endptr\<close> stands at (0 when nothing was converted) and
  whether \<^verbatim>\<open>errno\<close> was set to \<^verbatim>\<open>ERANGE\<close>.  \<^verbatim>\<open>unsigned long\<close> has 64 bits.
\<close>

abbreviation (input) chr_minus :: u8 where "chr_minus \<equiv> 45"

abbreviation (input) chr_plus :: u8 where "chr_plus \<equiv> 43"

section \<open>URI encoding\<close>

definition isalnum :: "nat \<Rightarrow> bool" where
  "isalnum x = (48 \<le> x \<and> x \<le> 57 \<or> 65 \<le> x \<and> x \<le> 90 \<or> 97 \<le> x \<and> x \<le> 122)"

definition hex_digit :: "nat \<Rightarrow> u8" where
  "hex_digit n = (if n < 10 then 48 + of_nat n else 55 + of_nat n)"

text \<open>The table \<^verbatim>\<open>uriencode_map\<close> as the initialisation fills it.\<close>

definition uriencode_init :: "u8 list option list" where
  "uriencode_init = map (\<lambda>x.
     if isalnum x \<or> x = 45 \<or> x = 46 \<or> x = 95 \<or> x = 126 then None
     else Some [asc CHR ''%'', hex_digit (x div 16), hex_digit (x mod 16)]) [0..<256]"

fun uriencode_loop :: "u8 list \<Rightarrow> u8 list \<Rightarrow> nat \<Rightarrow> nat \<Rightarrow> bool \<times> u8 list" where
  "uriencode_loop [] dst d dstlen = (True, memcpy_at dst d [0])"
| "uriencode_loop (c # src) dst d dstlen =
     (if d + 4 > dstlen then (False, dst)
      else case uriencode_init ! unat c of
        Some e \<Rightarrow> uriencode_loop src (memcpy_at dst d e) (d + 3) dstlen
      | None \<Rightarrow> uriencode_loop src (memcpy_at dst d [c]) (d + 1) dstlen)"

definition uriencode :: "u8 list \<Rightarrow> u8 list \<Rightarrow> nat \<Rightarrow> bool \<times> u8 list" where
  "uriencode src dst dstlen = uriencode_loop src dst 0 dstlen"

section \<open>Strings to numbers\<close>

definition xisspace :: "u8 \<Rightarrow> bool" where
  "xisspace c = (c \<in> {32, 9, 10, 11, 12, 13})"

definition char_at :: "u8 list \<Rightarrow> nat \<Rightarrow> u8" where
  "char_at s i = (if i < length s then s ! i else 0)"

text \<open>The value of a character as a digit; 36 when it is none.\<close>

definition digit_val :: "u8 \<Rightarrow> nat" where
  "digit_val c = (let x = unat c in
     if 48 \<le> x \<and> x \<le> 57 then x - 48
     else if 65 \<le> x \<and> x \<le> 90 then x - 55
     else if 97 \<le> x \<and> x \<le> 122 then x - 87 else 36)"

definition digits_val :: "nat \<Rightarrow> u8 list \<Rightarrow> nat" where
  "digits_val base ds = foldl (\<lambda>n c. n * base + digit_val c) 0 ds"

text \<open>The sign, the digits and the end offset that the library's conversions recognise.\<close>

definition strto_scan :: "nat \<Rightarrow> u8 list \<Rightarrow> bool \<times> u8 list \<times> nat" where
  "strto_scan base s =
     (let t = dropWhile xisspace s;
          neg = (t \<noteq> [] \<and> hd t = chr_minus);
          t1 = (if t \<noteq> [] \<and> hd t \<in> {chr_plus, chr_minus} then tl t else t);
          t2 = (if base = 16 \<and> take 1 t1 = [48] \<and> char_at t1 1 \<in> {asc CHR ''x'', asc CHR ''X''} \<and>
                   digit_val (char_at t1 2) < 16 then drop 2 t1 else t1);
          ds = takeWhile (\<lambda>c. digit_val c < base) t2
      in (neg, ds, if ds = [] then 0 else length s - (length t2 - length ds)))"

definition strtoull :: "nat \<Rightarrow> u8 list \<Rightarrow> u64 \<times> nat \<times> bool" where
  "strtoull base s =
     (let (neg, ds, endptr) = strto_scan base s; n = digits_val base ds in
      if n > 18446744073709551615 then (- 1, endptr, True)
      else (if neg then - of_nat n else of_nat n, endptr, False))"

definition strtoll :: "nat \<Rightarrow> u8 list \<Rightarrow> u64 \<times> nat \<times> bool" where
  "strtoll base s =
     (let (neg, ds, endptr) = strto_scan base s; n = digits_val base ds in
      if neg \<and> n > 9223372036854775808 then (9223372036854775808, endptr, True)
      else if \<not> neg \<and> n > 9223372036854775807 then (9223372036854775807, endptr, True)
      else (if neg then - of_nat n else of_nat n, endptr, False))"

text \<open>The checks every conversion makes before it looks at the value.\<close>

definition token_ends :: "u8 list \<Rightarrow> nat \<Rightarrow> bool" where
  "token_ends str endptr \<longleftrightarrow> xisspace (char_at str endptr) \<or> (char_at str endptr = 0 \<and> endptr \<noteq> 0)"

definition safe_strtoull :: "u8 list \<Rightarrow> bool \<times> u64" where
  "safe_strtoull str =
     (let (ull, endptr, erange) = strtoull 10 str in
      if erange \<or> endptr = 0 then (False, 0)
      else if token_ends str endptr then
        (if ull <s 0 \<and> chr_minus \<in> set str then (False, 0) else (True, ull))
      else (False, 0))"

definition safe_strtoull_hex :: "u8 list \<Rightarrow> bool \<times> u64" where
  "safe_strtoull_hex str =
     (let (ull, endptr, erange) = strtoull 16 str in
      if erange \<or> endptr = 0 then (False, 0)
      else if token_ends str endptr then
        (if ull <s 0 \<and> chr_minus \<in> set str then (False, 0) else (True, ull))
      else (False, 0))"

definition safe_strtoll :: "u8 list \<Rightarrow> bool \<times> u64" where
  "safe_strtoll str =
     (let (ll, endptr, erange) = strtoll 10 str in
      if erange \<or> endptr = 0 then (False, 0)
      else if token_ends str endptr then (True, ll)
      else (False, 0))"

definition safe_strtoul :: "u8 list \<Rightarrow> bool \<times> u32" where
  "safe_strtoul str =
     (let (l, endptr, erange) = strtoull 10 str in
      if erange \<or> endptr = 0 then (False, 0)
      else if token_ends str endptr then
        (if l <s 0 \<and> chr_minus \<in> set str then (False, 0) else (True, ucast l))
      else (False, 0))"

definition safe_strtol :: "u8 list \<Rightarrow> bool \<times> u32" where
  "safe_strtol str =
     (let (l, endptr, erange) = strtoll 10 str in
      if erange \<or> endptr = 0 then (False, 0)
      else if token_ends str endptr then (True, ucast l)
      else (False, 0))"

section \<open>Bounded copy and byte order\<close>

text \<open>
  The source is memory, not a string: a read past its end is an error (\<open>None\<close>).  \<open>safe_strcpy_loop\<close>
  returns the final \<^verbatim>\<open>x\<close> with the destination.
\<close>

function safe_strcpy_loop :: "nat \<Rightarrow> u8 list \<Rightarrow> u8 list \<Rightarrow> nat \<Rightarrow> (nat \<times> u8 list) option" where
  "safe_strcpy_loop x dst src dstmax =
     (if x < dstmax - 1 then
        (if x < length src then
           (if src ! x \<noteq> 0 then safe_strcpy_loop (x + 1) (dst[x := src ! x]) src dstmax else Some (x, dst))
         else None)
      else Some (x, dst))"
  by auto
termination by (relation "measure (\<lambda>(x, dst, src, dstmax). dstmax - x)") auto

declare safe_strcpy_loop.simps [simp del]

definition safe_strcpy :: "u8 list \<Rightarrow> u8 list \<Rightarrow> nat \<Rightarrow> (bool \<times> u8 list) option" where
  "safe_strcpy dst src dstmax =
     (case safe_strcpy_loop 0 dst src dstmax of
        None \<Rightarrow> None
      | Some (x, dst) \<Rightarrow> if x < length src then Some (src ! x = 0, dst[x := 0]) else None)"

fun swap_loop :: "nat \<Rightarrow> u64 \<Rightarrow> u64 \<Rightarrow> u64" where
  "swap_loop 0 rv x = rv"
| "swap_loop (Suc n) rv x = swap_loop n (push_bit 8 rv OR (x AND 255)) (drop_bit 8 x)"

definition mc_swap64 :: "u64 \<Rightarrow> u64" where
  "mc_swap64 x = swap_loop 8 0 x"

definition ntohll :: "u64 \<Rightarrow> u64" where "ntohll v = mc_swap64 v"

definition htonll :: "u64 \<Rightarrow> u64" where "htonll v = mc_swap64 v"

section \<open>Reading decimal text\<close>

lemma unat_digit: "n < 10 \<Longrightarrow> unat (digit n) = 48 + n"
  by (simp add: digit_def unat_word_ariths unat_of_nat)

lemma digit_val_digit: "n < 10 \<Longrightarrow> digit_val (digit n) = n"
  by (simp add: digit_val_def unat_digit)

lemma decimal_not_Nil [simp]: "decimal n \<noteq> []"
  by (subst decimal.simps) simp

lemma decimal_digits: "c \<in> set (decimal n) \<Longrightarrow> \<exists>d<10. c = digit d"
proof (induction n rule: decimal.induct)
  case (1 n)
  have last: "\<exists>d<10. digit (n mod 10) = digit d" by (rule exI [of _ "n mod 10"]) simp
  show ?case
  proof (cases "n < 10")
    case True
    then show ?thesis using 1(2) by (subst (asm) decimal.simps) auto
  next
    case False
    then have "c \<in> set (decimal (n div 10)) \<or> c = digit (n mod 10)" using 1(2) by (subst (asm) decimal.simps) auto
    then show ?thesis using 1(1) [OF False] last by blast
  qed
qed

lemma digits_val_decimal: "digits_val 10 (decimal n) = n"
proof (induction n rule: decimal.induct)
  case (1 n)
  show ?case
  proof (cases "n < 10")
    case True
    then show ?thesis by (simp add: decimal.simps digits_val_def digit_val_digit)
  next
    case False
    then show ?thesis using 1 by (subst decimal.simps) (simp add: digits_val_def digit_val_digit)
  qed
qed

lemma digit_facts:
  assumes "n < 10"
  shows "\<not> xisspace (digit n)" "digit n \<noteq> chr_minus" "digit n \<noteq> chr_plus" "digit n \<noteq> 0" "digit_val (digit n) < 10"
proof -
  have "n \<in> {0, 1, 2, 3, 4, 5, 6, 7, 8, 9}" using assms by auto
  then show "\<not> xisspace (digit n)" "digit n \<noteq> chr_minus" "digit n \<noteq> chr_plus" "digit n \<noteq> 0"
    by (auto simp: xisspace_def digit_def)
  show "digit_val (digit n) < 10" using assms by (simp add: digit_val_digit)
qed

lemma decimal_chars:
  assumes "c \<in> set (decimal n)"
  shows "\<not> xisspace c" "c \<noteq> chr_minus" "c \<noteq> chr_plus" "c \<noteq> 0" "digit_val c < 10"
proof -
  obtain d where "d < 10" "c = digit d" using decimal_digits [OF assms] by blast
  then show "\<not> xisspace c" "c \<noteq> chr_minus" "c \<noteq> chr_plus" "c \<noteq> 0" "digit_val c < 10"
    using digit_facts [of d] by simp_all
qed

text \<open>A number, or a number after a minus sign, is recognised whole.\<close>

lemma strto_scan_decimal:
  "strto_scan 10 (decimal n) = (False, decimal n, length (decimal n))"
  "strto_scan 10 (chr_minus # decimal n) = (True, decimal n, Suc (length (decimal n)))"
proof -
  have hd: "hd (decimal n) \<in> set (decimal n)" by (rule hd_in_set) simp
  have tw: "takeWhile (\<lambda>c. digit_val c < 10) (decimal n) = decimal n"
    using decimal_chars(5) by (auto simp: takeWhile_eq_all_conv)
  have dw: "dropWhile xisspace (decimal n) = decimal n"
    using decimal_chars(1) [OF hd] by (cases "decimal n") auto
  show "strto_scan 10 (decimal n) = (False, decimal n, length (decimal n))"
    using decimal_chars(2,3) [OF hd] by (simp add: strto_scan_def Let_def dw tw)
  show "strto_scan 10 (chr_minus # decimal n) = (True, decimal n, Suc (length (decimal n)))"
    by (simp add: strto_scan_def Let_def tw xisspace_def)
qed

lemma token_ends_end: "s \<noteq> [] \<Longrightarrow> token_ends s (length s)"
  by (simp add: token_ends_def char_at_def)

lemma minus_not_in_decimal: "chr_minus \<notin> set (decimal n)"
  using decimal_chars(2) by blast

lemma ucast_of_nat_u64: "ucast (of_nat n :: u64) = (of_nat n :: u32)"
  by (rule bit_word_eqI) (simp add: bit_simps)

lemma safe_strtoull_decimal:
  assumes "n < 18446744073709551616"
  shows "safe_strtoull (decimal n) = (True, of_nat n)" "safe_strtoul (decimal n) = (True, of_nat n)"
  using assms minus_not_in_decimal [of n] token_ends_end [of "decimal n"]
  by (simp_all add: safe_strtoull_def safe_strtoul_def strtoull_def strto_scan_decimal digits_val_decimal ucast_of_nat_u64)

lemma safe_strtoll_decimal:
  "n < 9223372036854775808 \<Longrightarrow> safe_strtoll (decimal n) = (True, of_nat n)"
  "n \<le> 9223372036854775808 \<Longrightarrow> safe_strtoll (chr_minus # decimal n) = (True, - of_nat n)"
  using token_ends_end [of "decimal n"] token_ends_end [of "chr_minus # decimal n"]
  by (simp_all add: safe_strtoll_def strtoll_def strto_scan_decimal digits_val_decimal)

section \<open>URI encoding and its inverse\<close>

definition uri_code :: "u8 \<Rightarrow> u8 list" where
  "uri_code c = (case uriencode_init ! unat c of Some e \<Rightarrow> e | None \<Rightarrow> [c])"

text \<open>The decoder of a percent-encoded text.\<close>

fun uridecode :: "u8 list \<Rightarrow> u8 list" where
  "uridecode [] = []"
| "uridecode (c # s) =
     (if c = asc CHR ''%'' then
        (case s of a # b # s' \<Rightarrow> of_nat (16 * digit_val a + digit_val b) # uridecode s' | _ \<Rightarrow> [])
      else c # uridecode s)"

lemma uri_code_cases:
  "uriencode_init ! unat c = None \<and> c \<noteq> asc CHR ''%'' \<or>
   (\<exists>a b. uriencode_init ! unat c = Some [asc CHR ''%'', a, b] \<and> digit_val a = unat c div 16 \<and> digit_val b = unat c mod 16)"
proof -
  have hex: "digit_val (hex_digit n) = n" if "n < 16" for n
  proof (cases "n < 10")
    case True
    then show ?thesis by (simp add: digit_val_def hex_digit_def unat_word_ariths unat_of_nat)
  next
    case False
    then show ?thesis using that by (simp add: digit_val_def hex_digit_def unat_word_ariths unat_of_nat)
  qed
  have "unat c = 37 \<longleftrightarrow> c = 37" by (simp add: word_unat_eq_iff)
  moreover have "unat c div 16 < 16" using unat_u8_less [of c] by (simp add: less_mult_imp_div_less)
  ultimately show ?thesis using hex [of "unat c div 16"] hex [of "unat c mod 16"] unat_u8_less [of c]
    by (auto simp: uriencode_init_def isalnum_def)
qed

lemma length_uri_code: "0 < length (uri_code c)" "length (uri_code c) \<le> 3"
  using uri_code_cases [of c] by (auto simp: uri_code_def)

lemma length_uri_codes: "length (concat (map uri_code src)) \<le> 3 * length src"
proof (induction src)
  case (Cons c src)
  then show ?case using length_uri_code(2) [of c] by simp
qed simp

lemma uridecode_code: "uridecode (uri_code c @ s) = c # uridecode s"
proof -
  have "of_nat (16 * (unat c div 16) + unat c mod 16) = c" by simp
  then show ?thesis using uri_code_cases [of c] by (auto simp: uri_code_def simp del: of_nat_add)
qed

lemma uridecode_concat: "uridecode (concat (map uri_code src)) = src"
  by (induction src) (simp_all add: uridecode_code)

lemma uriencode_loop_code:
  "uriencode_loop (c # src) dst d n =
     (if d + 4 > n then (False, dst) else uriencode_loop src (memcpy_at dst d (uri_code c)) (d + length (uri_code c)) n)"
proof (cases "uriencode_init ! unat c")
  case None
  then show ?thesis by (simp add: uri_code_def)
next
  case (Some e)
  then have "length e = 3" using uri_code_cases [of c] by auto
  with Some show ?thesis by (simp add: uri_code_def)
qed

declare uriencode_loop.simps(2) [simp del]

text \<open>The loop asks for four free bytes before every byte of the source, however long its code is.\<close>

definition uri_fits :: "u8 list \<Rightarrow> nat \<Rightarrow> bool" where
  "uri_fits src n \<longleftrightarrow> src = [] \<or> length (concat (map uri_code (butlast src))) + 4 \<le> n"

lemma uri_fits_length: "uri_fits src n \<Longrightarrow> src \<noteq> [] \<Longrightarrow> length (concat (map uri_code src)) + 1 \<le> n"
  using length_uri_code(2) [of "last src"] append_butlast_last_id [of src]
  by (cases src rule: rev_cases) (auto simp: uri_fits_def)

lemma uri_fits_Cons:
  "uri_fits (c # src) (n - d) \<longleftrightarrow> d + 4 \<le> n \<and> uri_fits src (n - (d + length (uri_code c)))" if "d \<le> n"
  using that by (auto simp: uri_fits_def)

lemma uriencode_loop_fits:
  assumes "n \<le> length dst" and "d \<le> n"
  shows "if uri_fits src (n - d) then uriencode_loop src dst d n = (True, memcpy_at dst d (concat (map uri_code src) @ [0]))
    else \<not> fst (uriencode_loop src dst d n)"
  using assms
proof (induction src arbitrary: dst d)
  case (Cons c src)
  let ?dst = "memcpy_at dst d (uri_code c)" and ?d = "d + length (uri_code c)"
  show ?case
  proof (cases "d + 4 \<le> n")
    case False
    then show ?thesis using Cons.prems(2) by (simp add: uriencode_loop_code uri_fits_Cons)
  next
    case True
    have c: "length (uri_code c) \<le> 3" by (rule length_uri_code(2))
    then have len: "length ?dst = length dst" using Cons.prems True by (intro length_memcpy_at) simp
    have IH: "if uri_fits src (n - ?d) then uriencode_loop src ?dst ?d n = (True, memcpy_at ?dst ?d (concat (map uri_code src) @ [0]))
        else \<not> fst (uriencode_loop src ?dst ?d n)"
      using Cons.prems True c len by (intro Cons.IH) simp_all
    have "memcpy_at ?dst ?d (concat (map uri_code src) @ [0]) = memcpy_at dst d (concat (map uri_code (c # src)) @ [0])"
      if "uri_fits src (n - ?d)"
    proof -
      have "?d + length (concat (map uri_code src)) + 1 \<le> n"
        using uri_fits_length [OF that] True c by (cases "src = []") auto
      then show ?thesis using Cons.prems by (subst memcpy_at_memcpy_at_adjacent) simp_all
    qed
    then show ?thesis using IH True Cons.prems(2) by (simp add: uriencode_loop_code uri_fits_Cons split: if_splits)
  qed
qed (simp add: uri_fits_def)

section \<open>The bounded copy and the byte swap\<close>

text \<open>The string that a terminated piece of memory holds.\<close>

definition c_string :: "u8 list \<Rightarrow> u8 list" where
  "c_string m = takeWhile (\<lambda>c. c \<noteq> 0) m"

lemma c_string_less: "0 \<in> set m \<Longrightarrow> length (c_string m) < length m"
  by (induction m) (auto simp: c_string_def)

lemma c_string_nth: "x < length (c_string m) \<Longrightarrow> m ! x \<noteq> 0"
  using nth_mem [of x "c_string m"] set_takeWhileD [of "m ! x" "\<lambda>c. c \<noteq> 0" m]
  by (simp add: c_string_def takeWhile_nth)

lemma c_string_end: "length (c_string m) < length m \<Longrightarrow> m ! length (c_string m) = 0"
  unfolding c_string_def using nth_length_takeWhile by blast

lemma take_c_string: "take (length (c_string m)) m = c_string m"
  unfolding c_string_def by (rule takeWhile_eq_take [symmetric])

lemma safe_strcpy_loop_run:
  assumes "x \<le> k" and "0 \<in> set src" and "dstmax \<le> length dst" and "k = min (length (c_string src)) (dstmax - 1)"
  shows "safe_strcpy_loop x dst src dstmax = Some (k, memcpy_at dst x (segment x (k - x) src))"
  using assms
proof (induction "k - x" arbitrary: x dst)
  case 0
  then have x: "x = k" by linarith
  have "x < length src" using c_string_less [OF 0(3)] x 0(5) by simp
  moreover have "src ! x = 0" if "x < dstmax - 1"
  proof -
    have "x = length (c_string src)" using that x 0(5) by simp
    then show ?thesis using c_string_end [OF c_string_less [OF 0(3)]] by simp
  qed
  ultimately show ?case using x by (subst safe_strcpy_loop.simps) (auto simp: segment_def)
next
  case (Suc m)
  have k: "x < k" "k \<le> dstmax - 1" "k \<le> length (c_string src)" using Suc(2,6) by auto
  have x: "x < length src" using k(1,3) c_string_less [OF Suc(4)] by linarith
  have nz: "src ! x \<noteq> 0" using k by (intro c_string_nth) simp
  have "safe_strcpy_loop x dst src dstmax = safe_strcpy_loop (x + 1) (dst[x := src ! x]) src dstmax"
    using k x nz by (subst safe_strcpy_loop.simps) simp
  also have "\<dots> = Some (k, memcpy_at (dst[x := src ! x]) (x + 1) (segment (x + 1) (k - (x + 1)) src))"
    using Suc(1) [of "x + 1" "dst[x := src ! x]"] Suc(2,4,5,6) k(1) by simp
  also have "memcpy_at (dst[x := src ! x]) (x + 1) (segment (x + 1) (k - (x + 1)) src) =
      memcpy_at dst x (src ! x # segment (x + 1) (k - (x + 1)) src)"
    using k Suc(5) by (intro memcpy_at_update_Cons) auto
  also have "src ! x # segment (x + 1) (k - (x + 1)) src = segment x (k - x) src"
    using segment_Suc [OF x, of "k - (x + 1)"] k(1) Suc_diff_Suc [of x k] by simp
  finally show ?case .
qed

text \<open>A terminated source is copied up to the size of the destination, which is then terminated; the result says whether all of it was.\<close>

lemma safe_strcpy_copies:
  assumes "0 \<in> set src" and "0 < dstmax" and "dstmax \<le> length dst"
  shows "safe_strcpy dst src dstmax =
    Some (length (c_string src) < dstmax, memcpy_at dst 0 (take (dstmax - 1) (c_string src) @ [0]))"
proof -
  let ?s = "c_string src"
  let ?k = "min (length ?s) (dstmax - 1)"
  have ls: "length ?s < length src" using c_string_less [OF assms(1)] .
  have "take ?k src = take (dstmax - 1) ?s"
    using take_c_string [of src] by (metis min.commute take_take)
  moreover have "safe_strcpy_loop 0 dst src dstmax = Some (?k, memcpy_at dst 0 (take ?k src))"
    using safe_strcpy_loop_run [of 0 ?k src dstmax dst] assms by simp
  moreover have "(memcpy_at dst 0 (take (dstmax - 1) ?s))[?k := 0] = memcpy_at dst 0 (take (dstmax - 1) ?s @ [0])"
  proof -
    have "?k < length (memcpy_at dst 0 (take (dstmax - 1) ?s))" using assms(2,3) by (subst length_memcpy_at) auto
    then show ?thesis using memcpy_at_memcpy_at_adjacent [of 0 "take (dstmax - 1) ?s" "[0]" dst] assms(2,3)
      by (simp add: memcpy_at_singleton)
  qed
  moreover have "src ! ?k = 0 \<longleftrightarrow> length ?s < dstmax"
  proof (cases "length ?s < dstmax")
    case True
    then have "?k = length ?s" by simp
    then show ?thesis using True c_string_end [OF ls] by simp
  next
    case False
    then have "?k < length ?s" using assms(2) by simp
    then show ?thesis using False c_string_nth by blast
  qed
  ultimately show ?thesis using ls by (simp add: safe_strcpy_def min.strict_coboundedI1)
qed

lemma bit_255: "bit (255 :: u64) j \<longleftrightarrow> j < 8"
proof -
  have "(255 :: u64) = mask 8" by (simp add: mask_eq_exp_minus_1)
  then show ?thesis by (simp only: bit_mask_iff) auto
qed

lemma bit_swap_loop:
  assumes "n \<le> 8" and "i < 64"
  shows "bit (swap_loop n rv x) i = (if i < 8 * n then bit x (8 * (n - 1 - i div 8) + i mod 8) else bit rv (i - 8 * n))"
  using assms(1)
proof (induction n arbitrary: rv x)
  case (Suc n)
  note IH = Suc.IH [OF Suc_leD [OF Suc.prems], of "push_bit 8 rv OR (x AND 255)" "drop_bit 8 x"]
  consider "i < 8 * n" | "8 * n \<le> i" "i < 8 * n + 8" | "8 * n + 8 \<le> i" by linarith
  then show ?case
  proof cases
    case 1
    then have "i div 8 < n" by (simp add: less_mult_imp_div_less mult.commute)
    then have "8 + (8 * (n - 1 - i div 8) + i mod 8) = 8 * (n - i div 8) + i mod 8" by (cases n) auto
    then have "bit (drop_bit 8 x) (8 * (n - 1 - i div 8) + i mod 8) = bit x (8 * (n - i div 8) + i mod 8)"
      unfolding bit_drop_bit_eq o_def by (simp only:)
    then show ?thesis using 1 IH by simp
  next
    case 2
    then have "i div 8 = n" by (intro div_nat_eqI) simp_all
    then have "8 * (n - i div 8) + i mod 8 = i - 8 * n" "i - 8 * n < 8"
      using 2 by (simp_all add: modulo_nat_def)
    moreover have "bit (255 :: u64) (i - 8 * n)" using \<open>i - 8 * n < 8\<close> by (simp only: bit_255)
    ultimately show ?thesis using 2 IH assms(2) by (simp add: bit_simps)
  next
    case 3
    then have "\<not> bit (255 :: u64) (i - 8 * n)" using 3 by (simp only: bit_255)
    moreover have "8 \<le> i - 8 * n" "i - 8 * n < 64" using 3 assms(2) by linarith+
    moreover have "i - (8 * n + 8) = i - 8 * Suc n" by simp
    ultimately show ?thesis using 3 IH by (simp add: bit_simps)
  qed
qed simp

lemma bit_mc_swap64: "i < 64 \<Longrightarrow> bit (mc_swap64 x) i = bit x (8 * (7 - i div 8) + i mod 8)"
  using bit_swap_loop [of 8 i 0 x] by (simp add: mc_swap64_def)

lemma mc_swap64_involutive: "mc_swap64 (mc_swap64 x) = x"
proof (rule bit_word_eqI)
  fix i assume "i < LENGTH(64)"
  then have i: "i < 64" by simp
  define q r where "q = i div 8" and "r = i mod 8"
  have qr: "q < 8" "r < 8" "8 * q + r = i" using i by (simp_all add: q_def r_def less_mult_imp_div_less)
  have j: "8 * (7 - q) + r < 64" using qr(1,2) by linarith
  have "(8 * (7 - q) + r) div 8 = 7 - q" "(8 * (7 - q) + r) mod 8 = r" using qr(2) by simp_all
  then have "bit (mc_swap64 (mc_swap64 x)) i = bit x (8 * (7 - (7 - q)) + r)"
    using bit_mc_swap64 [OF i] bit_mc_swap64 [OF j] unfolding q_def [symmetric] r_def [symmetric] by (simp only:)
  moreover have "8 * (7 - (7 - q)) + r = i" using qr by linarith
  ultimately show "bit (mc_swap64 (mc_swap64 x)) i = bit x i" by (simp only:)
qed

section \<open>Properties\<close>

lemma c_string_memcpy:
  assumes "0 \<notin> set s" and "p + length s < length buf"
  shows "c_string (drop p (memcpy_at buf p (s @ [0]))) = s"
proof -
  have "drop p (memcpy_at buf p (s @ [0])) = s @ 0 # drop (Suc (length s + p)) buf"
    using assms(2) by (simp add: memcpy_at_def add.commute)
  then show ?thesis using assms(1) by (auto simp: c_string_def takeWhile_append)
qed

lemma decimal_no_null: "0 \<notin> set (decimal n)" "0 \<notin> set (signed_decimal i)"
  using decimal_chars(4) by (auto simp: signed_decimal_def)

lemma length_decimal_u64: "length (decimal (unat (u :: u64))) \<le> 20"
  using length_decimal_le [of "unat u" 20] less_trans [OF unat_u64_less [of u]] by simp

lemma length_signed_decimal: "length (signed_decimal (sint (u :: u64))) \<le> 21"
  using length_decimal_u64 [of u] length_decimal_u64 [of "- u"] sint_negate [of u] nat_sint_nonneg [of u]
  by (auto simp: signed_decimal_def)

lemma safe_strtoll_signed_decimal: "safe_strtoll (signed_decimal (sint (i :: u64))) = (True, i)"
proof (cases "sint i < 0")
  case True
  have "- sint i \<le> 9223372036854775808" using sint_ge [of i] by simp
  then have "nat (- sint i) \<le> 9223372036854775808" by simp
  then have "safe_strtoll (chr_minus # decimal (nat (- sint i))) = (True, - of_nat (nat (- sint i)))"
    by (rule safe_strtoll_decimal(2))
  moreover have "- of_nat (nat (- sint i)) = i" using sint_negate [OF True] by simp
  ultimately show ?thesis using True by (simp add: signed_decimal_def)
next
  case False
  have "sint i < 9223372036854775808" using sint_lt [of i] by simp
  then have "nat (sint i) < 9223372036854775808" using False by simp
  then have "safe_strtoll (decimal (nat (sint i))) = (True, of_nat (nat (sint i)))"
    by (rule safe_strtoll_decimal(1))
  moreover have "of_nat (nat (sint i)) = i" using nat_sint_nonneg [OF False] by simp
  ultimately show ?thesis using False by (simp add: signed_decimal_def)
qed

text \<open>
  C29.  What is printed reads back: the string that \<^verbatim>\<open>itoa_u64\<close> or \<^verbatim>\<open>itoa_64\<close> leaves in a buffer is accepted by
  \<^verbatim>\<open>safe_strtoull\<close> or \<^verbatim>\<open>safe_strtoll\<close> and gives back the number, for every 64-bit number.
\<close>

theorem printed_reads_back:
  assumes "p + 22 \<le> length buf"
  shows "safe_strtoull (c_string (drop p (fst (itoa_u64 u (buf, p))))) = (True, u) \<and>
    safe_strtoll (c_string (drop p (fst (itoa_64 i (buf, p))))) = (True, i)"
proof (intro conjI)
  have r: "room 21 (buf, p)" "room 22 (buf, p)" using assms by (simp_all add: room_def)
  have "c_string (drop p (fst (itoa_u64 u (buf, p)))) = decimal (unat u)"
    using c_string_memcpy [of "decimal (unat u)" p buf] decimal_no_null(1) length_decimal_u64 [of u] assms
    by (simp add: itoa_u64_wr [OF r(1)] wr0_def)
  moreover have "safe_strtoull (decimal (unat u)) = (True, u)"
    using safe_strtoull_decimal(1) [OF unat_u64_less [of u]] by simp
  ultimately show "safe_strtoull (c_string (drop p (fst (itoa_u64 u (buf, p))))) = (True, u)" by (simp only:)
  have "c_string (drop p (fst (itoa_64 i (buf, p)))) = signed_decimal (sint i)"
    using c_string_memcpy [of "signed_decimal (sint i)" p buf] decimal_no_null(2) length_signed_decimal [of i] assms
    by (simp add: itoa_64_wr [OF r(2)] wr0_def)
  then show "safe_strtoll (c_string (drop p (fst (itoa_64 i (buf, p))))) = (True, i)"
    by (simp only: safe_strtoll_signed_decimal)
qed

theorem printed_reads_back_witness:
  "safe_strtoll (c_string (drop 0 (fst (itoa_64 (- 7) (replicate 22 0, 0))))) = (True, - 7)"
  using printed_reads_back [of 0 "replicate 22 0" 7 "- 7"] by simp

text \<open>
  C30.  The sign check of \<^verbatim>\<open>safe_strtoull\<close> does not see every negative number: the text of \<open>v - 2^64\<close>
  is accepted and gives \<open>v\<close>, for every positive \<open>v\<close> below \<open>2^63\<close>.
\<close>

theorem negative_text_accepted:
  assumes "0 < v" and "v < 9223372036854775808"
  shows "safe_strtoull (bytes ''-'' @ decimal (18446744073709551616 - v)) = (True, of_nat v)"
proof -
  let ?n = "18446744073709551616 - v"
  have v: "unat (of_nat v :: u64) = v" using assms(2) by (simp add: unat_of_nat)
  have "(of_nat v + of_nat ?n :: u64) = of_nat 18446744073709551616"
    using assms by (simp only: of_nat_add [symmetric]) simp
  then have "(of_nat v :: u64) = - of_nat ?n" by (simp add: eq_neg_iff_add_eq_0)
  moreover have "0 \<le> sint (of_nat v :: u64)"
  proof -
    have "uint (of_nat v :: u64) = int v" using v by (metis uint_nat)
    then have "signed_take_bit 63 (uint (of_nat v :: u64)) = int v"
      using assms(2) signed_take_bit_int_eq_self [of 63 "int v"] by simp
    then show ?thesis by (simp add: sint_uint)
  qed
  ultimately have "\<not> - of_nat ?n <s (0 :: u64)" by (simp add: word_sless_alt)
  moreover have "\<not> 18446744073709551615 < ?n" using assms(1) by linarith
  ultimately show ?thesis
    using \<open>of_nat v = - of_nat ?n\<close> token_ends_end [of "chr_minus # decimal ?n"]
    by (simp add: safe_strtoull_def strtoull_def strto_scan_decimal digits_val_decimal Let_def)
qed

theorem negative_text_accepted_witness:
  "safe_strtoull (bytes ''-18446744073709551615'') = (True, 1)"
  using negative_text_accepted [of 1] by (simp add: decimal.simps digit_def)

text \<open>
  C31.  URI encoding is reversible.  \<^verbatim>\<open>uriencode\<close> asks for four free bytes before every character, so it succeeds
  exactly when the source is empty or the code of all characters but the last leaves four bytes of the destination (a
  text whose code with its terminator would just fit can be refused: the three characters
  \<^verbatim>\<open>abc\<close> are refused for four bytes).  When it succeeds it has written just the
  encoded text and a terminator, inside the destination, and decoding that text gives the source back.
\<close>

theorem uriencode_roundtrip:
  assumes "n \<le> length dst" and "0 < n"
  shows "if src = [] \<or> length (concat (map uri_code (butlast src))) + 4 \<le> n
    then \<exists>e. uriencode src dst n = (True, memcpy_at dst 0 (e @ [0])) \<and> uridecode e = src \<and>
      length e + 1 \<le> n \<and> length e \<le> 3 * length src
    else \<not> fst (uriencode src dst n)"
proof (cases "uri_fits src n")
  case True
  let ?e = "concat (map uri_code src)"
  have "uriencode_loop src dst 0 n = (True, memcpy_at dst 0 (?e @ [0]))"
    using uriencode_loop_fits [OF assms(1), of 0 src] True by simp
  moreover have "length ?e + 1 \<le> n" using uri_fits_length [OF True] assms(2) by (cases "src = []") auto
  ultimately have "\<exists>e. uriencode src dst n = (True, memcpy_at dst 0 (e @ [0])) \<and> uridecode e = src \<and>
      length e + 1 \<le> n \<and> length e \<le> 3 * length src"
    using length_uri_codes [of src] uridecode_concat [of src] by (intro exI [of _ ?e]) (simp add: uriencode_def)
  then show ?thesis using True by (simp add: uri_fits_def)
next
  case False
  then have "\<not> fst (uriencode src dst n)" using uriencode_loop_fits [OF assms(1), of 0 src] by (simp add: uriencode_def)
  then show ?thesis using False by (simp add: uri_fits_def)
qed

theorem uriencode_roundtrip_witness:
  "\<not> fst (uriencode (bytes ''abc'') (replicate 4 0) 4) \<and>
   (\<exists>e. uriencode (bytes ''a b'') (replicate 8 0) 8 = (True, memcpy_at (replicate 8 0) 0 (e @ [0])) \<and>
     uridecode e = bytes ''a b'' \<and> length e + 1 \<le> 8 \<and> length e \<le> 9)"
proof
  have "length (concat (map uri_code (butlast (bytes ''abc'')))) = 2" by (simp add: uri_code_def uriencode_init_def isalnum_def)
  then show "\<not> fst (uriencode (bytes ''abc'') (replicate 4 0) 4)"
    using uriencode_roundtrip [of 4 "replicate 4 0" "bytes ''abc''"] by (simp del: fst_conv)
next
  have "length (concat (map uri_code (butlast (bytes ''a b'')))) = 4" by (simp add: uri_code_def uriencode_init_def isalnum_def)
  then show "\<exists>e. uriencode (bytes ''a b'') (replicate 8 0) 8 = (True, memcpy_at (replicate 8 0) 0 (e @ [0])) \<and>
     uridecode e = bytes ''a b'' \<and> length e + 1 \<le> 8 \<and> length e \<le> 9"
    using uriencode_roundtrip [of 8 "replicate 8 0" "bytes ''a b''"] by simp
qed

end
