(* ===== verification/Crc32c.thy ===== *)
theory Crc32c
  imports Bmc_Prelude
begin

text \<open>
  The checksums of the external storage (\<^verbatim>\<open>src/memcached-sr/crc32c.c\<close>): the table-driven software version, the
  version on Intel's \<^verbatim>\<open>crc32\<close> instruction with its three-way parallel blocks and shift operators, and the
  version for aarch64.

  A buffer is its list of bytes with the address it starts at, whose low three bits decide how many
  bytes are handled alone.  The instructions are the processor's and are parameters (\<open>crc_cpu\<close>); what the
  manuals document of them is \<open>cpu_laws\<close>.  The reference all versions are compared with is \<open>crc32c_ref\<close>, the
  bit-by-bit division by the reflected polynomial.
\<close>

section \<open>The reference\<close>

abbreviation (input) POLY :: "'a::len word" where "POLY \<equiv> 0x82f63b78"

text \<open>One bit of the division; the source has this line eight times in a row.\<close>

definition crc_bit :: "'a::len word \<Rightarrow> 'a word" where
  "crc_bit crc = (if crc AND 1 \<noteq> 0 then drop_bit 1 crc XOR POLY else drop_bit 1 crc)"

definition crc_byte :: "'a::len word \<Rightarrow> u8 \<Rightarrow> 'a word" where
  "crc_byte crc b = (crc_bit ^^ 8) (crc XOR ucast b)"

definition crc32c_ref :: "u32 \<Rightarrow> u8 list \<Rightarrow> u32" where
  "crc32c_ref crc buf = foldl crc_byte (crc XOR 0xffffffff) buf XOR 0xffffffff"

section \<open>The software version\<close>

definition table0 :: "u32 list" where
  "table0 = map (\<lambda>n. crc_bit (crc_bit (crc_bit (crc_bit (crc_bit (crc_bit (crc_bit (crc_bit (of_nat n))))))))) [0..<256]"

fun table_column :: "nat \<Rightarrow> u32 \<Rightarrow> u32 list" where
  "table_column 0 crc = []"
| "table_column (Suc k) crc =
     (let crc = table0 ! unat (crc AND 255) XOR drop_bit 8 crc in crc # table_column k crc)"

definition crc32c_init_sw :: "u32 list list" where
  "crc32c_init_sw = table0 # map (\<lambda>k. map (\<lambda>n. table_column 7 (table0 ! n) ! k) [0..<256]) [0..<7]"

text \<open>The 64-bit word at an aligned address of a little-endian machine.\<close>

definition le_word :: "u8 list \<Rightarrow> u64" where
  "le_word bs = foldr (\<lambda>b w. push_bit 8 w OR ucast b) bs 0"

definition table_at :: "nat \<Rightarrow> u64 \<Rightarrow> u64" where
  "table_at k n = ucast (crc32c_init_sw ! k ! unat n)"

definition sw_byte :: "u64 \<Rightarrow> u8 \<Rightarrow> u64" where
  "sw_byte crc b = table_at 0 ((crc XOR ucast b) AND 255) XOR drop_bit 8 crc"

fun sw_head :: "nat \<Rightarrow> u64 \<Rightarrow> u8 list \<Rightarrow> u64 \<times> u8 list" where
  "sw_head addr crc [] = (crc, [])"
| "sw_head addr crc (b # bs) =
     (if addr mod 8 \<noteq> 0 then sw_head (addr + 1) (sw_byte crc b) bs else (crc, b # bs))"

definition sw_quad :: "u64 \<Rightarrow> u8 list \<Rightarrow> u64" where
  "sw_quad crc bs =
     (let crc = crc XOR le_word (take 8 bs) in
      table_at 7 (crc AND 255) XOR
      table_at 6 (drop_bit 8 crc AND 255) XOR
      table_at 5 (drop_bit 16 crc AND 255) XOR
      table_at 4 (drop_bit 24 crc AND 255) XOR
      table_at 3 (drop_bit 32 crc AND 255) XOR
      table_at 2 (drop_bit 40 crc AND 255) XOR
      table_at 1 (drop_bit 48 crc AND 255) XOR
      table_at 0 (drop_bit 56 crc))"

function sw_quads :: "u64 \<Rightarrow> u8 list \<Rightarrow> u64 \<times> u8 list" where
  "sw_quads crc bs = (if length bs \<ge> 8 then sw_quads (sw_quad crc bs) (drop 8 bs) else (crc, bs))"
  by auto
termination by (relation "measure (\<lambda>(crc, bs). length bs)") auto

declare sw_quads.simps [simp del]

definition crc32c_sw :: "nat \<Rightarrow> u32 \<Rightarrow> u8 list \<Rightarrow> u32" where
  "crc32c_sw addr crci buf =
     (let crc = ucast (crci XOR 0xffffffff);
          (crc, buf) = sw_head addr crc buf;
          (crc, buf) = sw_quads crc buf;
          crc = foldl sw_byte crc buf
      in ucast crc XOR 0xffffffff)"

section \<open>Shift operators\<close>

function gf2_matrix_loop :: "u32 list \<Rightarrow> nat \<Rightarrow> u32 \<Rightarrow> u32 \<Rightarrow> u32" where
  "gf2_matrix_loop mat i vec acc =
     (if vec = 0 then acc
      else gf2_matrix_loop mat (i + 1) (drop_bit 1 vec) (if vec AND 1 \<noteq> 0 then acc XOR mat ! i else acc))"
  by auto
termination
proof (relation "measure (\<lambda>(mat, i, vec, acc). unat vec)")
  fix vec :: u32 assume "vec \<noteq> 0"
  then have "unat vec \<noteq> 0" by (simp add: unat_eq_zero)
  then show "((mat, i + 1, drop_bit 1 vec, s), (mat, i, vec, acc)) \<in> measure (\<lambda>(mat, i, vec, acc). unat vec)"
    for mat :: "u32 list" and i and s acc :: u32
    by (simp add: drop_bit_Suc drop_bit_eq_div unat_div)
qed simp

declare gf2_matrix_loop.simps [simp del]

definition gf2_matrix_times :: "u32 list \<Rightarrow> u32 \<Rightarrow> u32" where
  "gf2_matrix_times mat vec = gf2_matrix_loop mat 0 vec 0"

definition gf2_matrix_square :: "u32 list \<Rightarrow> u32 list" where
  "gf2_matrix_square mat = map (\<lambda>n. gf2_matrix_times mat (mat ! n)) [0..<32]"

text \<open>The loop on \<^verbatim>\<open>len\<close>, entered with the operator for four zero bits; its value is what \<^verbatim>\<open>even\<close> holds in the end.\<close>

function zeros_loop :: "u32 list \<Rightarrow> nat \<Rightarrow> u32 list" where
  "zeros_loop odd_op len =
     (let even_op = gf2_matrix_square odd_op in
      if len div 2 = 0 then even_op
      else let odd_op = gf2_matrix_square even_op in
        if len div 2 div 2 = 0 then odd_op else zeros_loop odd_op (len div 2 div 2))"
  by auto
termination by (relation "measure (\<lambda>(odd_op, len). len)") auto

declare zeros_loop.simps [simp del]

definition one_zero_bit :: "u32 list" where
  "one_zero_bit = POLY # map (\<lambda>n. push_bit (n - 1) 1) [1..<32]"

definition crc32c_zeros_op :: "nat \<Rightarrow> u32 list" where
  "crc32c_zeros_op len =
     (let even_op = gf2_matrix_square one_zero_bit; odd_op = gf2_matrix_square even_op in zeros_loop odd_op len)"

definition crc32c_zeros :: "nat \<Rightarrow> u32 list list" where
  "crc32c_zeros len =
     (let op = crc32c_zeros_op len in
      map (\<lambda>k. map (\<lambda>n. gf2_matrix_times op (push_bit (8 * k) (of_nat n))) [0..<256]) [0..<4])"

definition crc32c_shift :: "u32 list list \<Rightarrow> u32 \<Rightarrow> u32" where
  "crc32c_shift zeros crc =
     zeros ! 0 ! unat (crc AND 255) XOR zeros ! 1 ! unat (drop_bit 8 crc AND 255) XOR
     zeros ! 2 ! unat (drop_bit 16 crc AND 255) XOR zeros ! 3 ! unat (drop_bit 24 crc)"

section \<open>The hardware versions\<close>

record crc_cpu =
  crc32b :: "u64 \<Rightarrow> u8 \<Rightarrow> u64"
  crc32q :: "u64 \<Rightarrow> u64 \<Rightarrow> u64"
  arm_crc32cx :: "u64 \<Rightarrow> u64 \<Rightarrow> u64"
  arm_crc32cw :: "u32 \<Rightarrow> u32 \<Rightarrow> u32"
  arm_crc32ch :: "u32 \<Rightarrow> u16 \<Rightarrow> u32"
  arm_crc32cb :: "u32 \<Rightarrow> u8 \<Rightarrow> u32"

abbreviation (input) LONG :: nat where "LONG \<equiv> 8192"

abbreviation (input) SHORT :: nat where "SHORT \<equiv> 256"

fun hw_head :: "crc_cpu \<Rightarrow> nat \<Rightarrow> u64 \<Rightarrow> u8 list \<Rightarrow> u64 \<times> u8 list" where
  "hw_head cpu addr crc [] = (crc, [])"
| "hw_head cpu addr crc (b # bs) =
     (if addr mod 8 \<noteq> 0 then hw_head cpu (addr + 1) (crc32b cpu crc b) bs else (crc, b # bs))"

text \<open>The inner loop over \<open>n\<close> groups of eight bytes, in three streams that lie \<open>blk\<close> bytes apart.\<close>

fun hw_three :: "crc_cpu \<Rightarrow> nat \<Rightarrow> nat \<Rightarrow> u64 \<times> u64 \<times> u64 \<Rightarrow> u8 list \<Rightarrow> u64 \<times> u64 \<times> u64" where
  "hw_three cpu blk 0 c bs = c"
| "hw_three cpu blk (Suc n) (crc0, crc1, crc2) bs =
     hw_three cpu blk n
       (crc32q cpu crc0 (le_word (take 8 bs)), crc32q cpu crc1 (le_word (take 8 (drop blk bs))),
        crc32q cpu crc2 (le_word (take 8 (drop (2 * blk) bs)))) (drop 8 bs)"

text \<open>The outer loop on blocks of three times \<open>blk\<close> bytes; the source has it for \<open>LONG\<close> and for \<open>SHORT\<close>, which are positive.\<close>

function hw_blocks :: "crc_cpu \<Rightarrow> nat \<Rightarrow> u32 list list \<Rightarrow> u64 \<Rightarrow> u8 list \<Rightarrow> u64 \<times> u8 list" where
  "hw_blocks cpu blk zeros crc0 bs =
     (if length bs \<ge> blk * 3 \<and> blk > 0 then
        let (crc0, crc1, crc2) = hw_three cpu blk (blk div 8) (crc0, 0, 0) bs;
            crc0 = ucast (crc32c_shift zeros (ucast crc0)) XOR crc1;
            crc0 = ucast (crc32c_shift zeros (ucast crc0)) XOR crc2
        in hw_blocks cpu blk zeros crc0 (drop (blk * 3) bs)
      else (crc0, bs))"
  by auto
termination by (relation "measure (\<lambda>(cpu, blk, zeros, crc0, bs). length bs)") auto

declare hw_blocks.simps [simp del]

function hw_quads :: "crc_cpu \<Rightarrow> u64 \<Rightarrow> u8 list \<Rightarrow> u64 \<times> u8 list" where
  "hw_quads cpu crc bs =
     (if length bs \<ge> 8 then hw_quads cpu (crc32q cpu crc (le_word (take 8 bs))) (drop 8 bs) else (crc, bs))"
  by auto
termination by (relation "measure (\<lambda>(cpu, crc, bs). length bs)") auto

declare hw_quads.simps [simp del]

definition crc32c_hw :: "crc_cpu \<Rightarrow> nat \<Rightarrow> u32 \<Rightarrow> u8 list \<Rightarrow> u32" where
  "crc32c_hw cpu addr crc buf =
     (let crc0 = ucast (crc XOR 0xffffffff);
          (crc0, buf) = hw_head cpu addr crc0 buf;
          (crc0, buf) = hw_blocks cpu LONG (crc32c_zeros LONG) crc0 buf;
          (crc0, buf) = hw_blocks cpu SHORT (crc32c_zeros SHORT) crc0 buf;
          (crc0, buf) = hw_quads cpu crc0 buf;
          crc0 = foldl (crc32b cpu) crc0 buf
      in ucast crc0 XOR 0xffffffff)"

fun arm_quads :: "crc_cpu \<Rightarrow> nat \<Rightarrow> u64 \<Rightarrow> u8 list \<Rightarrow> u64 \<times> u8 list" where
  "arm_quads cpu 0 crc bs = (crc, bs)"
| "arm_quads cpu (Suc n) crc bs = arm_quads cpu n (arm_crc32cx cpu crc (le_word (take 8 bs))) (drop 8 bs)"

definition arm_word :: "crc_cpu \<Rightarrow> u32 \<Rightarrow> u8 list \<Rightarrow> u32" where
  "arm_word cpu crc p = arm_crc32cw cpu crc (ucast (le_word (take 4 p)))"

definition arm_half :: "crc_cpu \<Rightarrow> u32 \<Rightarrow> u8 list \<Rightarrow> u32" where
  "arm_half cpu crc p = arm_crc32ch cpu crc (ucast (le_word (take 2 p)))"

text \<open>The switch on the bytes that are left, with its fall-through.\<close>

definition arm_tail :: "crc_cpu \<Rightarrow> nat \<Rightarrow> u32 \<Rightarrow> u8 list \<Rightarrow> u32" where
  "arm_tail cpu len crc p =
     (if len = 7 then arm_word cpu (arm_half cpu (arm_crc32cb cpu crc (hd p)) (drop 1 p)) (drop 3 p)
      else if len = 6 then arm_word cpu (arm_half cpu crc p) (drop 2 p)
      else if len = 4 then arm_word cpu crc p
      else if len = 3 then arm_half cpu (arm_crc32cb cpu crc (hd p)) (drop 1 p)
      else if len = 2 then arm_half cpu crc p
      else if len = 5 then arm_crc32cb cpu (arm_word cpu crc p) (hd (drop 4 p))
      else if len = 1 then arm_crc32cb cpu crc (hd p)
      else crc)"

definition crc32c_hw_aarch64 :: "crc_cpu \<Rightarrow> u32 \<Rightarrow> u8 list \<Rightarrow> u32" where
  "crc32c_hw_aarch64 cpu crc buf =
     (let (crc64bit, p) = arm_quads cpu (length buf div 8) (ucast crc) buf in
      arm_tail cpu (length buf mod 8) (ucast crc64bit) p)"

text \<open>The choice made at start-up on an Intel machine.\<close>

definition crc32c_init :: "bool \<Rightarrow> crc_cpu \<Rightarrow> nat \<Rightarrow> u32 \<Rightarrow> u8 list \<Rightarrow> u32" where
  "crc32c_init sse42 cpu = (if sse42 then crc32c_hw cpu else crc32c_sw)"

text \<open>
  The documented behaviour of the instructions: each divides its operand, least significant byte first,
  with the accumulator as initial remainder; a 64-bit destination is zero-extended.
\<close>

definition cpu_laws :: "crc_cpu \<Rightarrow> bool" where
  "cpu_laws cpu \<longleftrightarrow>
     (\<forall>crc b. crc32b cpu (ucast (crc :: u32)) b = ucast (crc_byte crc b)) \<and>
     (\<forall>crc bs. length bs = 8 \<longrightarrow> crc32q cpu (ucast (crc :: u32)) (le_word bs) = ucast (foldl crc_byte crc bs)) \<and>
     (\<forall>crc bs. length bs = 8 \<longrightarrow> arm_crc32cx cpu (ucast (crc :: u32)) (le_word bs) = ucast (foldl crc_byte crc bs)) \<and>
     (\<forall>crc bs. length bs = 4 \<longrightarrow> arm_crc32cw cpu crc (ucast (le_word bs)) = foldl crc_byte crc bs) \<and>
     (\<forall>crc bs. length bs = 2 \<longrightarrow> arm_crc32ch cpu crc (ucast (le_word bs)) = foldl crc_byte crc bs) \<and>
     (\<forall>crc b. arm_crc32cb cpu crc b = crc_byte crc b)"

section \<open>The division is linear\<close>

lemma and_one_iff: "(w :: 'a::len word) AND 1 \<noteq> 0 \<longleftrightarrow> bit w 0"
  by (simp add: and_one_eq bit_0 mod_2_eq_odd)

lemma crc_bit_alt: "crc_bit w = (if bit w 0 then drop_bit 1 w XOR POLY else drop_bit 1 w)"
  unfolding crc_bit_def by (simp only: and_one_iff)

definition linear :: "('a::len word \<Rightarrow> 'a word) \<Rightarrow> bool" where
  "linear F \<longleftrightarrow> (\<forall>a b. F (a XOR b) = F a XOR F b)"

lemma linearD: "linear F \<Longrightarrow> F (a XOR b) = F a XOR F b"
  by (simp add: linear_def)

lemma linear_0: "linear F \<Longrightarrow> F 0 = 0"
  using linearD [of F 0 0] by simp

lemma xor_swap: "((a :: 'a::len word) XOR b) XOR (c XOR d) = (a XOR c) XOR (b XOR d)"
  by (simp add: ac_simps)

lemma xor_cancel: "((a :: 'a::len word) XOR c) XOR (b XOR c) = a XOR b"
  by (rule bit_word_eqI) (auto simp: bit_xor_iff)

lemma linear_crc_bit: "linear crc_bit"
  unfolding linear_def
proof (intro allI)
  fix a b :: "'a word"
  show "crc_bit (a XOR b) = crc_bit a XOR crc_bit b"
    by (cases "bit a 0"; cases "bit b 0") (simp_all add: crc_bit_alt bit_xor_iff drop_bit_xor ac_simps xor_cancel)
qed

lemma linear_iter: "linear F \<Longrightarrow> linear (F ^^ n)"
  by (induction n) (simp_all add: linear_def)

abbreviation zeros_of :: "nat \<Rightarrow> 'a::len word \<Rightarrow> 'a word" where
  "zeros_of n \<equiv> crc_bit ^^ n"

lemma linear_zeros: "linear (zeros_of n)"
  by (rule linear_iter [OF linear_crc_bit])

lemma zeros_xor: "zeros_of n (a XOR b) = zeros_of n a XOR zeros_of n b"
  by (rule linearD [OF linear_zeros])

lemma zeros_add: "zeros_of (m + n) a = zeros_of m (zeros_of n a)"
  by (simp add: funpow_add)

text \<open>Bits above the ones that are divided off only move down.\<close>

lemma crc_bit_even: "\<not> bit v 0 \<Longrightarrow> crc_bit v = drop_bit 1 v"
  unfolding crc_bit_alt by simp

lemma zeros_push: "drop_bit n (push_bit n w) = w \<Longrightarrow> zeros_of n (push_bit n (w :: 'a::len word)) = w"
proof (induction n)
  case (Suc n)
  have bits: "bit w i \<Longrightarrow> Suc n + i < LENGTH('a)" for i
    using Suc.prems by (metis bit_drop_bit_eq bit_imp_le_length bit_push_bit_iff comp_apply not_le)
  have "bit (drop_bit 1 (push_bit (Suc n) w)) i = bit (push_bit n w) i" for i
    unfolding bit_drop_bit_eq comp_apply bit_push_bit_iff using bits [of "i - n"] by auto
  then have "crc_bit (push_bit (Suc n) w) = push_bit n w"
    by (subst crc_bit_even) (auto simp only: bit_push_bit_iff bit_eq_iff)
  moreover have "bit (drop_bit n (push_bit n w)) i = bit w i" for i
    unfolding bit_drop_bit_eq comp_apply bit_push_bit_iff using bits [of i] by auto
  then have "drop_bit n (push_bit n w) = w" by (simp only: bit_eq_iff) simp
  ultimately show ?case using Suc.IH by (simp only: funpow_Suc_right comp_apply)
qed simp

lemma push_drop_xor: "(w :: 'a::len word) = (w AND mask n) XOR push_bit n (drop_bit n w)"
  by (rule bit_word_eqI) (auto simp: bit_simps)

lemma zeros_split: "zeros_of (m + n) (w :: 'a::len word) = zeros_of (m + n) (w AND mask n) XOR zeros_of m (drop_bit n w)"
proof -
  have "drop_bit n (push_bit n (drop_bit n w)) = drop_bit n w"
    by (rule bit_word_eqI) (auto simp: bit_simps dest: bit_imp_le_length)
  then have "zeros_of n (push_bit n (drop_bit n w)) = drop_bit n w" by (rule zeros_push)
  then show ?thesis using push_drop_xor [of w n] zeros_xor zeros_add by metis
qed

lemma zeros_8: "zeros_of 8 (w :: 'a::len word) = zeros_of 8 (w AND 255) XOR drop_bit 8 w"
  using zeros_split [of 0 8 w] by (simp add: mask_eq_exp_minus_1)

lemma crc_byte_split: "crc_byte (w :: u64) b = zeros_of 8 ((w XOR ucast b) AND 255) XOR drop_bit 8 w"
proof -
  have "drop_bit 8 (w XOR ucast b) = drop_bit 8 w" by (rule bit_word_eqI) (auto simp: bit_simps dest: bit_imp_le_length)
  then show ?thesis unfolding crc_byte_def zeros_8 [of "w XOR ucast b"] by simp
qed

lemma ucast_xor: "(ucast ((a :: u32) XOR b) :: u64) = ucast a XOR ucast b"
  by (rule bit_word_eqI) (auto simp: bit_simps)

lemma ucast_crc_bit: "(ucast (crc_bit (c :: u32)) :: u64) = crc_bit (ucast c)"
proof -
  have "(ucast (drop_bit 1 c) :: u64) = drop_bit 1 (ucast c)"
    by (rule bit_word_eqI) (auto simp: bit_simps dest: bit_imp_le_length)
  moreover have "(ucast (POLY :: u32) :: u64) = POLY" by simp
  moreover have "bit (ucast c :: u64) 0 = bit c 0" by (simp add: bit_simps)
  ultimately show ?thesis by (cases "bit c 0") (simp_all only: crc_bit_alt ucast_xor if_True if_False)
qed

lemma ucast_zeros: "(ucast (zeros_of n (c :: u32)) :: u64) = zeros_of n (ucast c)"
  by (induction n) (simp_all add: ucast_crc_bit)

lemma ucast_ucast_u8: "(ucast (ucast (b :: u8) :: u32) :: u64) = ucast b"
  by (rule bit_word_eqI) (auto simp: bit_simps dest: bit_imp_le_length)

lemma ucast_crc_byte: "(ucast (crc_byte (c :: u32) b) :: u64) = crc_byte (ucast c) b"
  unfolding crc_byte_def ucast_zeros ucast_xor ucast_ucast_u8 ..

lemma ucast_crc_bytes: "(ucast (foldl crc_byte (c :: u32) bs) :: u64) = foldl crc_byte (ucast c) bs"
  by (induction bs arbitrary: c) (simp_all add: ucast_crc_byte)

lemma ucast_down: "(ucast (ucast (c :: u32) :: u64) :: u32) = c"
  by (rule bit_word_eqI) (auto simp: bit_simps)

section \<open>The tables\<close>

lemma funpow_8: "(f ^^ 8) x = f (f (f (f (f (f (f (f x)))))))"
  by (simp add: eval_nat_numeral)

lemma table0_nth: "n < 256 \<Longrightarrow> table0 ! n = zeros_of 8 (of_nat n)"
  by (simp add: table0_def funpow_8)

lemma unat_and_255: "unat ((w :: 'a::len word) AND 255) < 256"
proof -
  have "w AND 255 = take_bit 8 w" by (simp add: take_bit_eq_mask mask_eq_exp_minus_1)
  then have "unat (w AND 255) = take_bit 8 (unat w)" by (simp only: unsigned_take_bit_eq)
  then show ?thesis using take_bit_nat_less_exp [of 8 "unat w"] by (simp only:) simp
qed

lemma table0_step: "table0 ! unat (crc AND 255) XOR drop_bit 8 crc = zeros_of 8 crc"
  using zeros_8 [of crc] table0_nth [OF unat_and_255 [of crc]] by simp

lemma table_column_nth: "k < m \<Longrightarrow> table_column m crc ! k = zeros_of (8 * Suc k) crc"
proof (induction m arbitrary: crc k)
  case (Suc m)
  show ?case
  proof (cases k)
    case 0
    then show ?thesis by (simp add: table0_step Let_def)
  next
    case (Suc j)
    then have "table_column (Suc m) crc ! k = zeros_of (8 * Suc j) (zeros_of 8 crc)"
      using Suc.IH [of j] Suc.prems by (simp add: table0_step Let_def)
    also have "\<dots> = zeros_of (8 * Suc k) crc" using Suc zeros_add [of "8 * Suc j" 8 crc] by (simp add: add.commute)
    finally show ?thesis .
  qed
qed simp

lemma table_nth: "k < 8 \<Longrightarrow> n < 256 \<Longrightarrow> crc32c_init_sw ! k ! n = zeros_of (8 * Suc k) (of_nat n)"
proof (cases k)
  case 0
  then show "n < 256 \<Longrightarrow> ?thesis" by (simp add: crc32c_init_sw_def table0_nth)
next
  case (Suc j)
  assume "k < 8" "n < 256"
  then have "crc32c_init_sw ! k ! n = zeros_of (8 * Suc j) (zeros_of 8 (of_nat n))"
    using Suc table_column_nth [of j 7] by (simp add: crc32c_init_sw_def table0_nth)
  then show ?thesis using Suc zeros_add [of "8 * Suc j" 8 "of_nat n :: u32"] by (simp add: add.commute)
qed

lemma table_at_zeros: "k < 8 \<Longrightarrow> unat n < 256 \<Longrightarrow> table_at k n = zeros_of (8 * Suc k) n"
proof -
  assume "k < 8" "unat n < 256"
  moreover have "(ucast (of_nat (unat n) :: u32) :: u64) = n" using \<open>unat n < 256\<close>
    by (simp add: word_unat_eq_iff unat_ucast_u32)
  ultimately show ?thesis by (simp add: table_at_def table_nth ucast_zeros)
qed

lemma sw_byte_crc: "sw_byte = crc_byte"
  by (intro ext) (simp add: sw_byte_def crc_byte_split table_at_zeros unat_and_255)

text \<open>Dividing up to eight bytes off is dividing off the word they form.\<close>

lemma le_word_Cons: "le_word (b # bs) = push_bit 8 (le_word bs) XOR ucast b"
proof -
  have "push_bit 8 (le_word bs) OR ucast b = push_bit 8 (le_word bs) XOR ucast b"
    by (rule bit_word_eqI) (auto simp: bit_simps dest: bit_imp_le_length)
  then show ?thesis by (simp add: le_word_def)
qed

lemma le_word_bits: "bit (le_word bs) i \<Longrightarrow> i < 8 * length bs"
proof (induction bs arbitrary: i)
  case Nil
  then show ?case by (simp add: le_word_def)
next
  case (Cons b bs)
  then show ?case
    by (auto simp: le_word_Cons bit_simps dest: bit_imp_le_length) (metis Cons.IH add.commute add_less_cancel_right le_add_diff_inverse2)
qed

lemma crc_bytes_word: "length bs \<le> 8 \<Longrightarrow> foldl crc_byte w bs = zeros_of (8 * length bs) (w XOR le_word bs)"
proof (induction bs arbitrary: w)
  case Nil
  then show ?case by (simp add: le_word_def)
next
  case (Cons b bs)
  have "bit (drop_bit 8 (push_bit 8 (le_word bs))) i = bit (le_word bs) i" for i
    using le_word_bits [of bs i] Cons.prems unfolding bit_drop_bit_eq comp_apply bit_push_bit_iff by auto
  then have "drop_bit 8 (push_bit 8 (le_word bs)) = le_word bs" by (simp only: bit_eq_iff) simp
  then have push: "zeros_of 8 (push_bit 8 (le_word bs)) = le_word bs" by (rule zeros_push)
  have IH: "foldl crc_byte v bs = zeros_of (8 * length bs) (v XOR le_word bs)" for v using Cons by simp
  have "foldl crc_byte w (b # bs) = zeros_of (8 * length bs) (zeros_of 8 (w XOR ucast b) XOR le_word bs)"
    unfolding foldl.simps IH by (simp only: crc_byte_def)
  also have "zeros_of 8 (w XOR ucast b) XOR le_word bs = zeros_of 8 (w XOR le_word (b # bs))"
    unfolding le_word_Cons by (simp only: zeros_xor push ac_simps)
  finally show ?case using zeros_add [of "8 * length bs" 8 "w XOR le_word (b # bs)"] by (simp add: add.commute)
qed

lemma zeros_64_tables:
  "zeros_of 64 x =
     table_at 7 (x AND 255) XOR table_at 6 (drop_bit 8 x AND 255) XOR table_at 5 (drop_bit 16 x AND 255) XOR
     table_at 4 (drop_bit 24 x AND 255) XOR table_at 3 (drop_bit 32 x AND 255) XOR table_at 2 (drop_bit 40 x AND 255) XOR
     table_at 1 (drop_bit 48 x AND 255) XOR table_at 0 (drop_bit 56 x)"
proof -
  have step: "zeros_of (8 * Suc k) y = table_at k (y AND 255) XOR zeros_of (8 * k) (drop_bit 8 y)" if "k < 8" for k y
    using zeros_split [of "8 * k" 8 y] table_at_zeros [OF that unat_and_255 [of y]]
    by (simp add: mask_eq_exp_minus_1 add.commute)
  have "drop_bit 8 (drop_bit 56 x) = 0" by (rule bit_word_eqI) (auto simp: bit_simps dest: bit_imp_le_length)
  moreover have "drop_bit 56 x AND 255 = drop_bit 56 x"
  proof -
    have "drop_bit 56 x AND mask 8 = drop_bit 56 x" by (rule bit_word_eqI) (auto simp: bit_simps dest: bit_imp_le_length)
    then show ?thesis by (simp add: mask_eq_exp_minus_1)
  qed
  ultimately show ?thesis
    using step [of 7 x] step [of 6 "drop_bit 8 x"] step [of 5 "drop_bit 16 x"] step [of 4 "drop_bit 24 x"]
      step [of 3 "drop_bit 32 x"] step [of 2 "drop_bit 40 x"] step [of 1 "drop_bit 48 x"] step [of 0 "drop_bit 56 x"]
    by (simp add: drop_bit_drop_bit)
qed

section \<open>The software version divides\<close>

lemma sw_quad_crc: "8 \<le> length bs \<Longrightarrow> sw_quad crc bs = foldl crc_byte crc (take 8 bs)"
  using crc_bytes_word [of "take 8 bs" crc] zeros_64_tables [of "crc XOR le_word (take 8 bs)"]
  by (simp add: sw_quad_def Let_def)

lemma sw_head_crc: "sw_head addr crc bs = (crc', rest) \<Longrightarrow> foldl crc_byte crc bs = foldl crc_byte crc' rest"
  by (induction addr crc bs rule: sw_head.induct) (auto simp: sw_byte_crc split: if_splits)

lemma foldl_split: "foldl f x xs = foldl f (foldl f x (take n xs)) (drop n xs)"
  by (metis append_take_drop_id foldl_append)

lemma sw_quads_crc: "sw_quads crc bs = (crc', rest) \<Longrightarrow> foldl crc_byte crc bs = foldl crc_byte crc' rest"
proof (induction crc bs rule: sw_quads.induct)
  case (1 crc bs)
  show ?case
  proof (cases "8 \<le> length bs")
    case True
    then have "sw_quads (sw_quad crc bs) (drop 8 bs) = (crc', rest)" using 1(2) by (simp add: sw_quads.simps [of crc])
    from 1(1) [OF True this] show ?thesis using sw_quad_crc [OF True] foldl_split [of crc_byte crc bs 8] by simp
  next
    case False
    then show ?thesis using 1(2) by (simp add: sw_quads.simps [of crc])
  qed
qed

lemma crc32c_sw_ref: "crc32c_sw addr crc buf = crc32c_ref crc buf"
proof -
  let ?c = "crc XOR 0xffffffff"
  obtain c1 r1 where h: "sw_head addr (ucast ?c) buf = (c1, r1)" by (rule prod.exhaust)
  obtain c2 r2 where q: "sw_quads c1 r1 = (c2, r2)" by (rule prod.exhaust)
  have "foldl sw_byte c2 r2 = ucast (foldl crc_byte ?c buf)"
    unfolding sw_byte_crc ucast_crc_bytes sw_head_crc [OF h] sw_quads_crc [OF q] ..
  then show ?thesis by (simp add: crc32c_sw_def crc32c_ref_def h q ucast_down)
qed

section \<open>The shift operators\<close>

lemma crc_byte_xor: "crc_byte ((a :: 'a::len word) XOR b) c = zeros_of 8 a XOR crc_byte b c"
  unfolding crc_byte_def zeros_xor by (simp add: ac_simps)

lemma crc_bytes_xor: "foldl crc_byte ((a :: 'a::len word) XOR b) bs = zeros_of (8 * length bs) a XOR foldl crc_byte b bs"
proof (induction bs arbitrary: a b)
  case (Cons c bs)
  have "foldl crc_byte (a XOR b) (c # bs) = zeros_of (8 * length bs) (zeros_of 8 a) XOR foldl crc_byte (crc_byte b c) bs"
    by (simp add: crc_byte_xor Cons.IH)
  then show ?case using zeros_add [of "8 * length bs" 8 a] by (simp add: add.commute)
qed simp

lemma crc_bytes_shift: "foldl crc_byte (a :: 'a::len word) bs = zeros_of (8 * length bs) a XOR foldl crc_byte 0 bs"
  using crc_bytes_xor [of a 0 bs] by simp

text \<open>A matrix represents a linear operator by its values on the unit vectors.\<close>

definition represents :: "u32 list \<Rightarrow> (u32 \<Rightarrow> u32) \<Rightarrow> bool" where
  "represents mat F \<longleftrightarrow> length mat = 32 \<and> (\<forall>i<32. mat ! i = F (push_bit i 1)) \<and> linear F"

lemma push_bit_step:
  "push_bit i (vec :: u32) = (if bit vec 0 then push_bit i 1 else 0) XOR push_bit (i + 1) (drop_bit 1 vec)"
proof -
  have "bit (push_bit i vec) n = bit ((if bit vec 0 then push_bit i 1 else 0) XOR push_bit (i + 1) (drop_bit 1 vec)) n" for n
  proof (cases "bit vec 0")
    case True
    then show ?thesis
      by (simp only: if_True bit_xor_iff bit_push_bit_iff bit_drop_bit_eq comp_apply bit_1_iff)
        (cases n i rule: linorder_cases; auto simp: Suc_diff_Suc)
  next
    case False
    then show ?thesis
      by (simp only: if_False xor.left_neutral bit_push_bit_iff bit_drop_bit_eq comp_apply)
        (cases n i rule: linorder_cases; auto simp: Suc_diff_Suc)
  qed
  then show ?thesis by (simp only: bit_eq_iff) simp
qed

lemma gf2_matrix_loop_value:
  assumes "represents mat F" and "\<And>j. bit vec j \<Longrightarrow> i + j < 32"
  shows "gf2_matrix_loop mat i vec acc = acc XOR F (push_bit i vec)"
  using assms
proof (induction mat i vec acc rule: gf2_matrix_loop.induct)
  case (1 mat i vec acc)
  have F: "linear F" using 1(2) by (simp add: represents_def)
  show ?case
  proof (cases "vec = 0")
    case True
    then show ?thesis using linear_0 [OF F] by (subst gf2_matrix_loop.simps) simp
  next
    case False
    then obtain j where "bit vec j" by (auto simp: bit_eq_iff)
    then have i: "mat ! i = F (push_bit i 1)" using 1(2) 1(3) [of j] by (simp add: represents_def)
    let ?acc = "if vec AND 1 \<noteq> 0 then acc XOR mat ! i else acc"
    have "i + 1 + j < 32" if "bit (drop_bit 1 vec) j" for j
      using 1(3) [of "1 + j"] that unfolding bit_drop_bit_eq comp_apply by linarith
    then have "gf2_matrix_loop mat i vec acc = ?acc XOR F (push_bit (i + 1) (drop_bit 1 vec))"
      using 1(1) [OF False 1(2)] False by (subst gf2_matrix_loop.simps) simp
    also have "?acc = acc XOR F (if bit vec 0 then push_bit i 1 else 0)"
      using i linear_0 [OF F] unfolding and_one_iff by simp
    also have "(acc XOR F (if bit vec 0 then push_bit i 1 else 0)) XOR F (push_bit (i + 1) (drop_bit 1 vec)) = acc XOR F (push_bit i vec)"
      unfolding push_bit_step [of i vec] linearD [OF F] by (simp only: xor.assoc)
    finally show ?thesis .
  qed
qed

lemma gf2_matrix_times_value: "represents mat F \<Longrightarrow> gf2_matrix_times mat v = F v"
  using gf2_matrix_loop_value [of mat F v 0 0] bit_imp_le_length [of v] by (simp add: gf2_matrix_times_def)

lemma represents_square: "represents mat (zeros_of k) \<Longrightarrow> represents (gf2_matrix_square mat) (zeros_of (2 * k))"
  using gf2_matrix_times_value [of mat "zeros_of k"] linear_zeros [of "2 * k"]
  by (simp add: represents_def gf2_matrix_square_def mult_2 zeros_add)

lemma represents_one: "represents one_zero_bit (zeros_of 1)"
proof -
  have "one_zero_bit ! i = crc_bit (push_bit i 1)" if "i < 32" for i
  proof (cases i)
    case 0
    then show ?thesis by (simp add: one_zero_bit_def crc_bit_alt)
  next
    case (Suc j)
    have "bit (drop_bit 1 (push_bit (Suc j) 1 :: u32)) n = bit (push_bit j 1 :: u32) n" for n
      unfolding bit_drop_bit_eq comp_apply bit_push_bit_iff bit_1_iff using that Suc by auto
    then have "drop_bit 1 (push_bit (Suc j) 1 :: u32) = push_bit j 1" by (simp only: bit_eq_iff) simp
    then have "crc_bit (push_bit (Suc j) 1 :: u32) = push_bit j 1"
      by (subst crc_bit_even) (simp only: bit_push_bit_iff, simp, simp only:)
    moreover have "one_zero_bit ! Suc j = push_bit j 1"
      using that Suc by (simp add: one_zero_bit_def del: upt_Suc)
    ultimately show ?thesis using Suc by simp
  qed
  then show ?thesis using linear_crc_bit by (simp add: represents_def one_zero_bit_def)
qed

lemma represents_zeros_loop: "represents mat (zeros_of k) \<Longrightarrow> represents (zeros_loop mat (2 ^ m)) (zeros_of (2 * k * 2 ^ m))"
proof (induction m arbitrary: mat k rule: less_induct)
  case (less m)
  let ?even = "gf2_matrix_square mat"
  let ?odd = "gf2_matrix_square ?even"
  have even: "represents ?even (zeros_of (2 * k))" using represents_square [OF less(2)] .
  have odd: "represents ?odd (zeros_of (4 * k))" using represents_square [OF even] by (simp add: mult.assoc [symmetric])
  consider "m = 0" | "m = 1" | j where "m = Suc (Suc j)" by (metis One_nat_def not0_implies_Suc)
  then show ?case
  proof cases
    case 1
    then show ?thesis using even by (subst zeros_loop.simps) simp
  next
    case 2
    then show ?thesis using odd by (subst zeros_loop.simps) (simp add: mult.commute)
  next
    case 3
    have "represents (zeros_loop ?odd (2 ^ j)) (zeros_of (2 * (4 * k) * 2 ^ j))" using less(1) [OF _ odd] 3 by simp
    then show ?thesis using 3 by (subst zeros_loop.simps) (simp add: Let_def algebra_simps)
  qed
qed

lemma represents_zeros_op: "represents (crc32c_zeros_op (2 ^ m)) (zeros_of (8 * 2 ^ m))"
proof -
  have "represents (gf2_matrix_square (gf2_matrix_square one_zero_bit)) (zeros_of 4)"
    using represents_square [OF represents_square [OF represents_one]] by simp
  from represents_zeros_loop [OF this] show ?thesis by (simp add: crc32c_zeros_op_def)
qed

lemma crc32c_zeros_nth:
  assumes "k < 4" and "unat n < 256"
  shows "crc32c_zeros (2 ^ m) ! k ! unat n = zeros_of (8 * 2 ^ m) (push_bit (8 * k) n)"
  using assms gf2_matrix_times_value [OF represents_zeros_op] by (simp add: crc32c_zeros_def Let_def)

lemma four_bytes:
  "(w :: u32) = push_bit 0 (w AND 255) XOR push_bit 8 (drop_bit 8 w AND 255) XOR push_bit 16 (drop_bit 16 w AND 255) XOR
     push_bit 24 (drop_bit 24 w)"
proof -
  have split: "v = (v AND 255) XOR push_bit 8 (drop_bit 8 v)" for v :: u32
    using push_drop_xor [of v 8] by (simp add: mask_eq_exp_minus_1)
  have "push_bit 8 (drop_bit 8 w) = push_bit 8 (drop_bit 8 w AND 255) XOR push_bit 16 (drop_bit 16 w)"
    using arg_cong [OF split [of "drop_bit 8 w"], of "push_bit 8"]
    by (simp add: push_bit_xor push_bit_push_bit drop_bit_drop_bit)
  moreover have "push_bit 16 (drop_bit 16 w) = push_bit 16 (drop_bit 16 w AND 255) XOR push_bit 24 (drop_bit 24 w)"
    using arg_cong [OF split [of "drop_bit 16 w"], of "push_bit 16"]
    by (simp add: push_bit_xor push_bit_push_bit drop_bit_drop_bit)
  ultimately show ?thesis using split [of w] by (simp only: push_bit_0_id id_apply)
qed

lemma crc32c_shift_value: "crc32c_shift (crc32c_zeros (2 ^ m)) crc = zeros_of (8 * 2 ^ m) crc"
proof -
  have "unat (drop_bit 24 crc) < 256"
    using unat_u32_less [of crc] by (simp add: drop_bit_eq_div unat_div less_mult_imp_div_less)
  then show ?thesis
    using crc32c_zeros_nth [of 0 "crc AND 255" m] crc32c_zeros_nth [of 1 "drop_bit 8 crc AND 255" m]
      crc32c_zeros_nth [of 2 "drop_bit 16 crc AND 255" m] crc32c_zeros_nth [of 3 "drop_bit 24 crc" m]
      unat_and_255 [of crc] unat_and_255 [of "drop_bit 8 crc"] unat_and_255 [of "drop_bit 16 crc"]
      arg_cong [OF four_bytes [of crc], of "zeros_of (8 * 2 ^ m)"]
    by (simp add: crc32c_shift_def zeros_xor)
qed

section \<open>The hardware versions divide\<close>

lemma cpu_lawsD:
  assumes "cpu_laws cpu"
  shows "crc32b cpu (ucast (crc :: u32)) b = ucast (crc_byte crc b)"
    and "length bs = 8 \<Longrightarrow> crc32q cpu (ucast crc) (le_word bs) = ucast (foldl crc_byte crc bs)"
    and "length bs = 8 \<Longrightarrow> arm_crc32cx cpu (ucast crc) (le_word bs) = ucast (foldl crc_byte crc bs)"
    and "length bs = 4 \<Longrightarrow> arm_crc32cw cpu crc (ucast (le_word bs)) = foldl crc_byte crc bs"
    and "length bs = 2 \<Longrightarrow> arm_crc32ch cpu crc (ucast (le_word bs)) = foldl crc_byte crc bs"
    and "arm_crc32cb cpu crc b = crc_byte crc b"
  using assms by (simp_all add: cpu_laws_def)

text \<open>
  A stage that has read the bytes before \<open>rest\<close> leaves the remainder of the division of those bytes in
  its 64-bit register.
\<close>

definition divided :: "u32 \<Rightarrow> u8 list \<Rightarrow> u64 \<times> u8 list \<Rightarrow> bool" where
  "divided crc bs = (\<lambda>(crc', rest). \<exists>c. crc' = ucast c \<and> foldl crc_byte crc bs = foldl crc_byte c rest)"

lemma hw_head_divided: "cpu_laws cpu \<Longrightarrow> divided crc bs (hw_head cpu addr (ucast crc) bs)"
proof (induction bs arbitrary: addr crc)
  case (Cons b bs)
  then show ?case using Cons.IH [of "crc_byte crc b" "addr + 1"] by (auto simp: divided_def cpu_lawsD)
qed (auto simp: divided_def)

lemma hw_quads_divided:
  assumes "cpu_laws cpu"
  shows "divided crc bs (hw_quads cpu (ucast crc) bs)"
proof (induction "length bs" arbitrary: bs crc rule: less_induct)
  case less
  show ?case
  proof (cases "8 \<le> length bs")
    case True
    let ?c = "foldl crc_byte crc (take 8 bs)"
    have "hw_quads cpu (ucast crc) bs = hw_quads cpu (ucast ?c) (drop 8 bs)"
      using True cpu_lawsD(2) [OF assms, of "take 8 bs" crc] by (subst hw_quads.simps) simp
    moreover have "divided ?c (drop 8 bs) (hw_quads cpu (ucast ?c) (drop 8 bs))" using less True by simp
    ultimately show ?thesis using foldl_split [of crc_byte crc bs 8] by (simp add: divided_def)
  next
    case False
    then show ?thesis by (subst hw_quads.simps) (auto simp: divided_def)
  qed
qed

lemma hw_three_streams:
  assumes "cpu_laws cpu" and "2 * blk + 8 * n \<le> length bs"
  shows "hw_three cpu blk n (ucast (a :: u32), ucast (b :: u32), ucast (c :: u32)) bs =
    (ucast (foldl crc_byte a (take (8 * n) bs)), ucast (foldl crc_byte b (take (8 * n) (drop blk bs))),
     ucast (foldl crc_byte c (take (8 * n) (drop (2 * blk) bs))))"
  using assms(2)
proof (induction n arbitrary: a b c bs)
  case (Suc n)
  have split: "take (8 * Suc n) xs = take 8 xs @ take (8 * n) (drop 8 xs)" for xs :: "u8 list"
    using take_add [of 8 "8 * n" xs] by simp
  have q: "crc32q cpu (ucast x) (le_word (take 8 xs)) = ucast (foldl crc_byte x (take 8 xs))" if "8 \<le> length xs" for x :: u32 and xs
    using cpu_lawsD(2) [OF assms(1)] that by simp
  have "drop 8 (drop blk bs) = drop blk (drop 8 bs)" "drop 8 (drop (2 * blk) bs) = drop (2 * blk) (drop 8 bs)"
    by (simp_all add: add.commute)
  moreover have "2 * blk + 8 * n \<le> length (drop 8 bs)" using Suc.prems by simp
  ultimately show ?case
    using Suc.IH [of "drop 8 bs" "foldl crc_byte a (take 8 bs)" "foldl crc_byte b (take 8 (drop blk bs))"
        "foldl crc_byte c (take 8 (drop (2 * blk) bs))"] q [of bs a] q [of "drop blk bs" b] q [of "drop (2 * blk) bs" c] Suc.prems
    by (simp only: hw_three.simps split foldl_append) simp
qed simp

lemma hw_blocks_divided:
  assumes "cpu_laws cpu" and blk: "blk = 2 ^ m" "3 \<le> m"
  shows "divided crc bs (hw_blocks cpu blk (crc32c_zeros blk) (ucast crc) bs)"
proof (induction "length bs" arbitrary: bs crc rule: less_induct)
  case less
  have pos: "0 < blk" using blk(1) by simp
  obtain j where "m = 3 + j" using blk(2) le_Suc_ex by blast
  then have "blk = 8 * 2 ^ j" using blk(1) by (simp add: power_add)
  then have eight: "8 * (blk div 8) = blk" by simp
  show ?case
  proof (cases "blk * 3 \<le> length bs")
    case True
    let ?b0 = "take blk bs" and ?b1 = "take blk (drop blk bs)" and ?b2 = "take blk (drop (2 * blk) bs)"
    have len: "length ?b1 = blk" "length ?b2 = blk" using True by simp_all
    have shift: "crc32c_shift (crc32c_zeros blk) x XOR foldl crc_byte 0 ys = foldl crc_byte x ys" if "length ys = blk" for x :: u32 and ys
      using crc32c_shift_value [of m x] crc_bytes_shift [of x ys] that blk(1) by simp
    let ?c = "foldl crc_byte crc (?b0 @ ?b1 @ ?b2)"
    have three: "hw_three cpu blk (blk div 8) (ucast crc, 0, 0) bs =
        (ucast (foldl crc_byte crc ?b0), ucast (foldl crc_byte (0 :: u32) ?b1), ucast (foldl crc_byte (0 :: u32) ?b2))"
      using hw_three_streams [OF assms(1), of blk "blk div 8" bs crc 0 0] True eight by simp
    have "hw_blocks cpu blk (crc32c_zeros blk) (ucast crc) bs = hw_blocks cpu blk (crc32c_zeros blk) (ucast ?c) (drop (blk * 3) bs)"
      using True pos by (subst hw_blocks.simps) (simp add: three ucast_down ucast_xor [symmetric] shift len)
    moreover have "divided ?c (drop (blk * 3) bs) (hw_blocks cpu blk (crc32c_zeros blk) (ucast ?c) (drop (blk * 3) bs))"
      using less True pos by simp
    moreover have "?b0 @ ?b1 @ ?b2 = take (blk * 3) bs"
      using take_add [of blk "blk + blk" bs] take_add [of blk blk "drop blk bs"]
      by (simp add: mult_2 numeral_3_eq_3 add.commute)
    then have "foldl crc_byte crc bs = foldl crc_byte ?c (drop (blk * 3) bs)"
      using foldl_split [of crc_byte crc bs "blk * 3"] by simp
    ultimately show ?thesis by (simp add: divided_def)
  next
    case False
    then show ?thesis by (subst hw_blocks.simps) (auto simp: divided_def)
  qed
qed

lemma crc32b_bytes: "cpu_laws cpu \<Longrightarrow> foldl (crc32b cpu) (ucast (c :: u32)) bs = ucast (foldl crc_byte c bs)"
  by (induction bs arbitrary: c) (simp_all add: cpu_lawsD)

lemma dividedE:
  assumes "divided crc bs r"
  obtains c rest where "r = (ucast c, rest)" "foldl crc_byte crc bs = foldl crc_byte c rest"
  using assms by (cases r) (auto simp: divided_def)

lemma crc32c_hw_ref:
  assumes "cpu_laws cpu"
  shows "crc32c_hw cpu addr crc buf = crc32c_ref crc buf"
proof -
  let ?c = "crc XOR 0xffffffff"
  obtain c1 r1 where 1: "hw_head cpu addr (ucast ?c) buf = (ucast c1, r1)" "foldl crc_byte ?c buf = foldl crc_byte c1 r1"
    using dividedE [OF hw_head_divided [OF assms]] by blast
  have "divided c1 r1 (hw_blocks cpu LONG (crc32c_zeros LONG) (ucast c1) r1)"
    by (rule hw_blocks_divided [OF assms, of _ 13]) simp_all
  then obtain c2 r2 where 2: "hw_blocks cpu LONG (crc32c_zeros LONG) (ucast c1) r1 = (ucast c2, r2)"
      "foldl crc_byte c1 r1 = foldl crc_byte c2 r2"
    by (rule dividedE)
  have "divided c2 r2 (hw_blocks cpu SHORT (crc32c_zeros SHORT) (ucast c2) r2)"
    by (rule hw_blocks_divided [OF assms, of _ 8]) simp_all
  then obtain c3 r3 where 3: "hw_blocks cpu SHORT (crc32c_zeros SHORT) (ucast c2) r2 = (ucast c3, r3)"
      "foldl crc_byte c2 r2 = foldl crc_byte c3 r3"
    by (rule dividedE)
  obtain c4 r4 where 4: "hw_quads cpu (ucast c3) r3 = (ucast c4, r4)" "foldl crc_byte c3 r3 = foldl crc_byte c4 r4"
    using dividedE [OF hw_quads_divided [OF assms]] by blast
  show ?thesis
    unfolding crc32c_hw_def crc32c_ref_def Let_def 1 2 3 4 prod.case crc32b_bytes [OF assms] ucast_down ..
qed

lemma arm_quads_divided:
  assumes "cpu_laws cpu" and "8 * n \<le> length bs"
  shows "arm_quads cpu n (ucast (c :: u32)) bs = (ucast (foldl crc_byte c (take (8 * n) bs)), drop (8 * n) bs)"
  using assms(2)
proof (induction n arbitrary: c bs)
  case (Suc n)
  have "take (8 * Suc n) bs = take 8 bs @ take (8 * n) (drop 8 bs)" using take_add [of 8 "8 * n" bs] by simp
  then show ?case using Suc cpu_lawsD(3) [OF assms(1), of "take 8 bs" c] by (simp add: add.commute)
qed simp

lemma arm_tail_crc:
  assumes "cpu_laws cpu" and "length p < 8"
  shows "arm_tail cpu (length p) (c :: u32) p = foldl crc_byte c p"
proof -
  have split: "p = take n p @ drop n p" for n by simp
  have h: "arm_half cpu x q = foldl crc_byte x (take 2 q)" if "2 \<le> length q" for x :: u32 and q
    using that cpu_lawsD(5) [OF assms(1)] by (simp add: arm_half_def)
  have w: "arm_word cpu x q = foldl crc_byte x (take 4 q)" if "4 \<le> length q" for x :: u32 and q
    using that cpu_lawsD(4) [OF assms(1)] by (simp add: arm_word_def)
  consider "length p = 0" | "length p = 1" | "length p = 2" | "length p = 3" | "length p = 4" | "length p = 5" | "length p = 6" | "length p = 7"
    using assms(2) by linarith
  then show ?thesis
    by cases (auto simp: arm_tail_def h w cpu_lawsD(6) [OF assms(1)] length_Suc_conv numeral_eq_Suc)
qed

lemma crc32c_aarch64_bytes:
  assumes "cpu_laws cpu"
  shows "crc32c_hw_aarch64 cpu crc buf = foldl crc_byte crc buf"
proof -
  let ?n = "8 * (length buf div 8)"
  have "length (drop ?n buf) = length buf mod 8" by (simp add: minus_mult_div_eq_mod)
  then have "crc32c_hw_aarch64 cpu crc buf = foldl crc_byte (foldl crc_byte crc (take ?n buf)) (drop ?n buf)"
    using arm_quads_divided [OF assms, of "length buf div 8" buf crc] arm_tail_crc [OF assms, of "drop ?n buf"]
    by (simp add: crc32c_hw_aarch64_def ucast_down)
  then show ?thesis using foldl_split [of crc_byte crc buf ?n] by simp
qed

section \<open>Properties\<close>

text \<open>
  C32.  The software checksum, with its eight tables and its reads of eight bytes at a time, is the bit-by-bit
  CRC-32C of the buffer, wherever the buffer lies.
\<close>

theorem crc32c_sw_divides: "crc32c_sw addr crc buf = crc32c_ref crc buf"
  by (rule crc32c_sw_ref)

text \<open>A processor that does what the manuals say.\<close>

definition ref_cpu :: crc_cpu where
  "ref_cpu = \<lparr>crc32b = crc_byte, crc32q = (\<lambda>crc w. zeros_of 64 (crc XOR w)), arm_crc32cx = (\<lambda>crc w. zeros_of 64 (crc XOR w)),
     arm_crc32cw = (\<lambda>crc w. ucast (zeros_of 32 (ucast crc XOR ucast w :: u64))),
     arm_crc32ch = (\<lambda>crc w. ucast (zeros_of 16 (ucast crc XOR ucast w :: u64))), arm_crc32cb = crc_byte\<rparr>"

lemma le_word_ucast:
  "length bs = 4 \<Longrightarrow> (ucast (ucast (le_word bs) :: u32) :: u64) = le_word bs"
  "length bs = 2 \<Longrightarrow> (ucast (ucast (le_word bs) :: u16) :: u64) = le_word bs"
proof -
  have le: "i < 8 * length bs" if "bit (le_word bs) i" for i using le_word_bits [OF that] .
  show "length bs = 4 \<Longrightarrow> (ucast (ucast (le_word bs) :: u32) :: u64) = le_word bs"
    by (rule bit_word_eqI) (use le in \<open>auto simp: bit_simps\<close>)
  show "length bs = 2 \<Longrightarrow> (ucast (ucast (le_word bs) :: u16) :: u64) = le_word bs"
    by (rule bit_word_eqI) (use le in \<open>auto simp: bit_simps\<close>)
qed

lemma ref_cpu_laws: "cpu_laws ref_cpu"
proof -
  have w: "foldl crc_byte crc bs = ucast (zeros_of (8 * length bs) (ucast crc XOR le_word bs))" if "length bs \<le> 8" for crc :: u32 and bs
    using ucast_crc_bytes [of crc bs] crc_bytes_word [OF that, of "ucast crc"] ucast_down by metis
  have "(ucast (foldl crc_byte (crc :: u32) bs) :: u64) = zeros_of 64 (ucast crc XOR le_word bs)" if "length bs = 8" for crc bs
    using ucast_crc_bytes [of crc bs] crc_bytes_word [of bs "ucast crc"] that by simp
  then show ?thesis using w by (simp add: cpu_laws_def ref_cpu_def ucast_crc_byte le_word_ucast)
qed

lemma crc_bit_numeral:
  "crc_bit (numeral n :: u32) = (if numeral n AND 1 \<noteq> (0 :: u32) then drop_bit 1 (numeral n) XOR POLY else drop_bit 1 (numeral n))"
  "crc_bit 0 = (0 :: u32)" "crc_bit 1 = (POLY :: u32)"
  by (simp_all add: crc_bit_def)

lemma check_value: "crc32c_ref 0 (bytes ''123456789'') = 0xe3069283"
  unfolding crc32c_ref_def crc_byte_def funpow_8 by (simp add: crc_bit_numeral)

text \<open>
  C33.  Both versions that an Intel machine can choose at start-up give the same checksum, so a choice made
  anew, with another alignment of the same bytes, accepts what was stored before.  The processor's
  instruction is assumed to divide as documented.
\<close>

theorem crc32c_hw_equals_sw:
  assumes "cpu_laws cpu"
  shows "crc32c_init True cpu addr crc buf = crc32c_init False cpu addr' crc buf"
  using assms by (simp add: crc32c_init_def crc32c_hw_ref crc32c_sw_ref)

theorem crc32c_hw_equals_sw_witness: "crc32c_init True ref_cpu 3 0 (bytes ''123456789'') = 0xe3069283"
  unfolding crc32c_hw_equals_sw [OF ref_cpu_laws, of 3 0 "bytes ''123456789''" 0]
  by (simp only: crc32c_init_def if_False crc32c_sw_ref check_value)

text \<open>
  C34.  The aarch64 version does not invert the remainder: it is the checksum of the other versions started from,
  and compared with, complemented values.  A buffer checked on such a machine has another checksum
  than everywhere else.
\<close>

theorem crc32c_aarch64_inverted:
  assumes "cpu_laws cpu"
  shows "crc32c_hw_aarch64 cpu crc buf = crc32c_sw addr (crc XOR 0xffffffff) buf XOR 0xffffffff"
  using crc32c_aarch64_bytes [OF assms, of crc buf] by (simp add: crc32c_sw_ref crc32c_ref_def xor.assoc)

theorem crc32c_aarch64_inverted_witness: "crc32c_hw_aarch64 ref_cpu 0 (bytes ''123456789'') \<noteq> 0xe3069283"
proof -
  have "crc32c_ref 0xffffffff (bytes ''123456789'') XOR 0xffffffff \<noteq> 0xe3069283"
    unfolding crc32c_ref_def crc_byte_def funpow_8 by (simp add: crc_bit_numeral)
  then show ?thesis
    using crc32c_aarch64_inverted [OF ref_cpu_laws, of 0 "bytes ''123456789''" 0] by (simp add: crc32c_sw_ref del: bytes_simps)
qed

end
