(* ===== verification/Key_Hash.thy ===== *)
theory Key_Hash
  imports Bmc_Prelude
begin

text \<open>
  The hash functions of keys: \<^verbatim>\<open>src/memcached-sr/jenkins_hash.c\<close>, in its little-endian and its big-endian
  form, \<^verbatim>\<open>src/memcached-sr/murmur3_hash.c\<close>, and the choice between them in \<^verbatim>\<open>src/memcached-sr/hash.c\<close>.

  A key is memory: the list \<open>m\<close> of the bytes from the key's address on, of which the first \<open>len\<close>
  belong to the key.  The Jenkins hash reads the key in words, half words or bytes depending on the
  alignment of its address, and when it reads words it also touches the bytes that complete the last one.
\<close>

section \<open>Reading memory\<close>

definition b32 :: "u8 list \<Rightarrow> nat \<Rightarrow> u32" where
  "b32 m i = ucast (m ! i)"

text \<open>The word and the half word at a byte offset, on a little-endian and on a big-endian machine.\<close>

definition le32_at :: "u8 list \<Rightarrow> nat \<Rightarrow> u32" where
  "le32_at m i = b32 m i + push_bit 8 (b32 m (i + 1)) + push_bit 16 (b32 m (i + 2)) + push_bit 24 (b32 m (i + 3))"

definition le16_at :: "u8 list \<Rightarrow> nat \<Rightarrow> u32" where
  "le16_at m i = b32 m i + push_bit 8 (b32 m (i + 1))"

definition be32_at :: "u8 list \<Rightarrow> nat \<Rightarrow> u32" where
  "be32_at m i = push_bit 24 (b32 m i) + push_bit 16 (b32 m (i + 1)) + push_bit 8 (b32 m (i + 2)) + b32 m (i + 3)"

section \<open>The Jenkins hash\<close>

type_synonym abc = "u32 \<times> u32 \<times> u32"

definition rot :: "u32 \<Rightarrow> nat \<Rightarrow> u32" where
  "rot x k = push_bit k x XOR drop_bit (32 - k) x"

text \<open>One line of \<^verbatim>\<open>mix\<close>; the next line has the roles of the variables rotated, and after six lines they are back.\<close>

definition mix_line :: "nat \<Rightarrow> abc \<Rightarrow> abc" where
  "mix_line k = (\<lambda>(a, b, c). let a = a - c; a = a XOR rot c k; c = c + b in (b, c, a))"

definition mix :: "abc \<Rightarrow> abc" where
  "mix s = mix_line 4 (mix_line 19 (mix_line 16 (mix_line 8 (mix_line 6 (mix_line 4 s)))))"

definition final :: "abc \<Rightarrow> abc" where
  "final = (\<lambda>(a, b, c).
     let c = c XOR b; c = c - rot b 14;
         a = a XOR c; a = a - rot c 11;
         b = b XOR a; b = b - rot a 25;
         c = c XOR b; c = c - rot b 16;
         a = a XOR c; a = a - rot c 4;
         b = b XOR a; b = b - rot a 14;
         c = c XOR b; c = c - rot b 24
     in (a, b, c))"

definition add3 :: "abc \<Rightarrow> abc \<Rightarrow> abc" where
  "add3 = (\<lambda>(a, b, c) (x, y, z). (a + x, b + y, c + z))"

text \<open>The loop on the blocks but the last; \<open>rd\<close> is how a branch reads the three words of a block.\<close>

function jenkins_loop :: "(u8 list \<Rightarrow> abc) \<Rightarrow> abc \<Rightarrow> u8 list \<Rightarrow> nat \<Rightarrow> abc \<times> u8 list \<times> nat" where
  "jenkins_loop rd s m len =
     (if len > 12 then jenkins_loop rd (mix (add3 s (rd m))) (drop 12 m) (len - 12) else (s, m, len))"
  by auto
termination by (relation "measure (\<lambda>(rd, s, m, len). len)") auto

declare jenkins_loop.simps [simp del]

definition words_le :: "u8 list \<Rightarrow> abc" where
  "words_le k = (le32_at k 0, le32_at k 4, le32_at k 8)"

definition halves_le :: "u8 list \<Rightarrow> abc" where
  "halves_le k = (le16_at k 0 + push_bit 16 (le16_at k 2), le16_at k 4 + push_bit 16 (le16_at k 6),
     le16_at k 8 + push_bit 16 (le16_at k 10))"

definition bytes_le :: "u8 list \<Rightarrow> abc" where
  "bytes_le k = (b32 k 0 + push_bit 8 (b32 k 1) + push_bit 16 (b32 k 2) + push_bit 24 (b32 k 3),
     b32 k 4 + push_bit 8 (b32 k 5) + push_bit 16 (b32 k 6) + push_bit 24 (b32 k 7),
     b32 k 8 + push_bit 8 (b32 k 9) + push_bit 16 (b32 k 10) + push_bit 24 (b32 k 11))"

text \<open>The last block in each branch: what is added to the three words, for a length from 1 to 12.\<close>

definition last_words_le :: "u8 list \<Rightarrow> nat \<Rightarrow> abc" where
  "last_words_le m len = (let k = (\<lambda>i. le32_at m (4 * i)) in
     if len = 12 then (k 0, k 1, k 2)
     else if len = 11 then (k 0, k 1, k 2 AND 0xffffff)
     else if len = 10 then (k 0, k 1, k 2 AND 0xffff)
     else if len = 9 then (k 0, k 1, k 2 AND 0xff)
     else if len = 8 then (k 0, k 1, 0)
     else if len = 7 then (k 0, k 1 AND 0xffffff, 0)
     else if len = 6 then (k 0, k 1 AND 0xffff, 0)
     else if len = 5 then (k 0, k 1 AND 0xff, 0)
     else if len = 4 then (k 0, 0, 0)
     else if len = 3 then (k 0 AND 0xffffff, 0, 0)
     else if len = 2 then (k 0 AND 0xffff, 0, 0)
     else (k 0 AND 0xff, 0, 0))"

definition last_words_valgrind_le :: "u8 list \<Rightarrow> nat \<Rightarrow> abc" where
  "last_words_valgrind_le m len = (let k = (\<lambda>i. le32_at m (4 * i)); k8 = b32 m in
     if len = 12 then (k 0, k 1, k 2)
     else if len = 11 then (k 0, k 1, push_bit 16 (k8 10) + push_bit 8 (k8 9) + k8 8)
     else if len = 10 then (k 0, k 1, push_bit 8 (k8 9) + k8 8)
     else if len = 9 then (k 0, k 1, k8 8)
     else if len = 8 then (k 0, k 1, 0)
     else if len = 7 then (k 0, push_bit 16 (k8 6) + push_bit 8 (k8 5) + k8 4, 0)
     else if len = 6 then (k 0, push_bit 8 (k8 5) + k8 4, 0)
     else if len = 5 then (k 0, k8 4, 0)
     else if len = 4 then (k 0, 0, 0)
     else if len = 3 then (push_bit 16 (k8 2) + push_bit 8 (k8 1) + k8 0, 0, 0)
     else if len = 2 then (push_bit 8 (k8 1) + k8 0, 0, 0)
     else (k8 0, 0, 0))"

definition last_halves_le :: "u8 list \<Rightarrow> nat \<Rightarrow> abc" where
  "last_halves_le m len = (let k = (\<lambda>i. le16_at m (2 * i)); k8 = b32 m in
     if len = 12 then (k 0 + push_bit 16 (k 1), k 2 + push_bit 16 (k 3), k 4 + push_bit 16 (k 5))
     else if len = 11 then (k 0 + push_bit 16 (k 1), k 2 + push_bit 16 (k 3), push_bit 16 (k8 10) + k 4)
     else if len = 10 then (k 0 + push_bit 16 (k 1), k 2 + push_bit 16 (k 3), k 4)
     else if len = 9 then (k 0 + push_bit 16 (k 1), k 2 + push_bit 16 (k 3), k8 8)
     else if len = 8 then (k 0 + push_bit 16 (k 1), k 2 + push_bit 16 (k 3), 0)
     else if len = 7 then (k 0 + push_bit 16 (k 1), push_bit 16 (k8 6) + k 2, 0)
     else if len = 6 then (k 0 + push_bit 16 (k 1), k 2, 0)
     else if len = 5 then (k 0 + push_bit 16 (k 1), k8 4, 0)
     else if len = 4 then (k 0 + push_bit 16 (k 1), 0, 0)
     else if len = 3 then (push_bit 16 (k8 2) + k 0, 0, 0)
     else if len = 2 then (k 0, 0, 0)
     else (k8 0, 0, 0))"

text \<open>The switch that falls through all its cases: \<open>from n v\<close> is the contribution of the case \<open>n\<close>.\<close>

definition last_bytes_le :: "u8 list \<Rightarrow> nat \<Rightarrow> abc" where
  "last_bytes_le m len = (let k = b32 m; from = (\<lambda>n v. if n \<le> len then v else 0) in
     (from 4 (push_bit 24 (k 3)) + from 3 (push_bit 16 (k 2)) + from 2 (push_bit 8 (k 1)) + from 1 (k 0),
      from 8 (push_bit 24 (k 7)) + from 7 (push_bit 16 (k 6)) + from 6 (push_bit 8 (k 5)) + from 5 (k 4),
      from 12 (push_bit 24 (k 11)) + from 11 (push_bit 16 (k 10)) + from 10 (push_bit 8 (k 9)) + from 9 (k 8)))"

text \<open>What follows the blocks: a key of length zero is not mixed.\<close>

definition jenkins_finish :: "(u8 list \<Rightarrow> nat \<Rightarrow> abc) \<Rightarrow> abc \<times> u8 list \<times> nat \<Rightarrow> u32" where
  "jenkins_finish lst = (\<lambda>(s, m, len).
     if len = 0 then snd (snd s) else snd (snd (final (add3 s (lst m len)))))"

definition jenkins_seed :: "nat \<Rightarrow> abc" where
  "jenkins_seed len = (let v = 0xdeadbeef + of_nat len + 0 in (v, v, v))"

definition jenkins_hash_little :: "bool \<Rightarrow> nat \<Rightarrow> u8 list \<Rightarrow> nat \<Rightarrow> u32" where
  "jenkins_hash_little valgrind addr m len =
     (if addr mod 4 = 0 then
        jenkins_finish (if valgrind then last_words_valgrind_le else last_words_le)
          (jenkins_loop words_le (jenkins_seed len) m len)
      else if addr mod 2 = 0 then
        jenkins_finish last_halves_le (jenkins_loop halves_le (jenkins_seed len) m len)
      else jenkins_finish last_bytes_le (jenkins_loop bytes_le (jenkins_seed len) m len))"

section \<open>The big-endian form\<close>

definition words_be :: "u8 list \<Rightarrow> abc" where
  "words_be k = (be32_at k 0, be32_at k 4, be32_at k 8)"

definition bytes_be :: "u8 list \<Rightarrow> abc" where
  "bytes_be k = (push_bit 24 (b32 k 0) + push_bit 16 (b32 k 1) + push_bit 8 (b32 k 2) + b32 k 3,
     push_bit 24 (b32 k 4) + push_bit 16 (b32 k 5) + push_bit 8 (b32 k 6) + b32 k 7,
     push_bit 24 (b32 k 8) + push_bit 16 (b32 k 9) + push_bit 8 (b32 k 10) + b32 k 11)"

definition last_words_be :: "u8 list \<Rightarrow> nat \<Rightarrow> abc" where
  "last_words_be m len = (let k = (\<lambda>i. be32_at m (4 * i)) in
     if len = 12 then (k 0, k 1, k 2)
     else if len = 11 then (k 0, k 1, k 2 AND 0xffffff00)
     else if len = 10 then (k 0, k 1, k 2 AND 0xffff0000)
     else if len = 9 then (k 0, k 1, k 2 AND 0xff000000)
     else if len = 8 then (k 0, k 1, 0)
     else if len = 7 then (k 0, k 1 AND 0xffffff00, 0)
     else if len = 6 then (k 0, k 1 AND 0xffff0000, 0)
     else if len = 5 then (k 0, k 1 AND 0xff000000, 0)
     else if len = 4 then (k 0, 0, 0)
     else if len = 3 then (k 0 AND 0xffffff00, 0, 0)
     else if len = 2 then (k 0 AND 0xffff0000, 0, 0)
     else (k 0 AND 0xff000000, 0, 0))"

definition last_words_valgrind_be :: "u8 list \<Rightarrow> nat \<Rightarrow> abc" where
  "last_words_valgrind_be m len = (let k = (\<lambda>i. be32_at m (4 * i)); k8 = b32 m in
     if len = 12 then (k 0, k 1, k 2)
     else if len = 11 then (k 0, k 1, push_bit 8 (k8 10) + push_bit 16 (k8 9) + push_bit 24 (k8 8))
     else if len = 10 then (k 0, k 1, push_bit 16 (k8 9) + push_bit 24 (k8 8))
     else if len = 9 then (k 0, k 1, push_bit 24 (k8 8))
     else if len = 8 then (k 0, k 1, 0)
     else if len = 7 then (k 0, push_bit 8 (k8 6) + push_bit 16 (k8 5) + push_bit 24 (k8 4), 0)
     else if len = 6 then (k 0, push_bit 16 (k8 5) + push_bit 24 (k8 4), 0)
     else if len = 5 then (k 0, push_bit 24 (k8 4), 0)
     else if len = 4 then (k 0, 0, 0)
     else if len = 3 then (push_bit 8 (k8 2) + push_bit 16 (k8 1) + push_bit 24 (k8 0), 0, 0)
     else if len = 2 then (push_bit 16 (k8 1) + push_bit 24 (k8 0), 0, 0)
     else (push_bit 24 (k8 0), 0, 0))"

definition last_bytes_be :: "u8 list \<Rightarrow> nat \<Rightarrow> abc" where
  "last_bytes_be m len = (let k = b32 m; from = (\<lambda>n v. if n \<le> len then v else 0) in
     (from 4 (k 3) + from 3 (push_bit 8 (k 2)) + from 2 (push_bit 16 (k 1)) + from 1 (push_bit 24 (k 0)),
      from 8 (k 7) + from 7 (push_bit 8 (k 6)) + from 6 (push_bit 16 (k 5)) + from 5 (push_bit 24 (k 4)),
      from 12 (k 11) + from 11 (push_bit 8 (k 10)) + from 10 (push_bit 16 (k 9)) + from 9 (push_bit 24 (k 8))))"

definition jenkins_hash_big :: "bool \<Rightarrow> nat \<Rightarrow> u8 list \<Rightarrow> nat \<Rightarrow> u32" where
  "jenkins_hash_big valgrind addr m len =
     (if addr mod 4 = 0 then
        jenkins_finish (if valgrind then last_words_valgrind_be else last_words_be)
          (jenkins_loop words_be (jenkins_seed len) m len)
      else jenkins_finish last_bytes_be (jenkins_loop bytes_be (jenkins_seed len) m len))"

section \<open>The Murmur hash and the choice\<close>

definition rotl32 :: "u32 \<Rightarrow> nat \<Rightarrow> u32" where
  "rotl32 x r = push_bit r x OR drop_bit (32 - r) x"

definition fmix32 :: "u32 \<Rightarrow> u32" where
  "fmix32 h =
     (let h = h XOR drop_bit 16 h; h = h * 0x85ebca6b;
          h = h XOR drop_bit 13 h; h = h * 0xc2b2ae35
      in h XOR drop_bit 16 h)"

text \<open>\<^verbatim>\<open>getblock32\<close> on a little-endian machine.\<close>

definition getblock32 :: "u8 list \<Rightarrow> nat \<Rightarrow> u32" where
  "getblock32 data i = le32_at data (4 * i)"

definition murmur_scramble :: "u32 \<Rightarrow> u32" where
  "murmur_scramble k1 = rotl32 (k1 * 0xcc9e2d51) 15 * 0x1b873593"

text \<open>The body loop, with \<open>n\<close> blocks to go of \<open>nblocks\<close>.\<close>

fun murmur_body :: "u8 list \<Rightarrow> nat \<Rightarrow> nat \<Rightarrow> u32 \<Rightarrow> u32" where
  "murmur_body data nblocks 0 h1 = h1"
| "murmur_body data nblocks (Suc n) h1 =
     murmur_body data nblocks n
       (rotl32 (h1 XOR murmur_scramble (getblock32 data (nblocks - Suc n))) 13 * 5 + 0xe6546b64)"

definition murmur_tail :: "u8 list \<Rightarrow> nat \<Rightarrow> u32 \<Rightarrow> u32" where
  "murmur_tail tail r h1 =
     (let k1 = 0;
          k1 = (if r = 3 then k1 XOR push_bit 16 (b32 tail 2) else k1);
          k1 = (if r \<in> {2, 3} then k1 XOR push_bit 8 (b32 tail 1) else k1)
      in if r \<in> {1, 2, 3} then h1 XOR murmur_scramble (k1 XOR b32 tail 0) else h1)"

definition MurmurHash3_x86_32 :: "u8 list \<Rightarrow> nat \<Rightarrow> u32" where
  "MurmurHash3_x86_32 data len =
     (let nblocks = len div 4;
          h1 = murmur_body data nblocks nblocks 0;
          h1 = murmur_tail (drop (nblocks * 4) data) (len mod 4) h1
      in fmix32 (h1 XOR of_nat len))"

datatype hashfunc_type = JENKINS_HASH | MURMUR3_HASH

record hash_choice =
  hash_function :: "nat \<Rightarrow> u8 list \<Rightarrow> nat \<Rightarrow> u32"
  hash_algorithm :: string

text \<open>On a little-endian machine; the enumeration has no other value.\<close>

definition hash_init :: "hashfunc_type \<Rightarrow> int \<times> hash_choice" where
  "hash_init t = (case t of
     JENKINS_HASH \<Rightarrow> (0, \<lparr>hash_function = jenkins_hash_little False, hash_algorithm = ''jenkins''\<rparr>)
   | MURMUR3_HASH \<Rightarrow> (0, \<lparr>hash_function = (\<lambda>addr. MurmurHash3_x86_32), hash_algorithm = ''murmur3''\<rparr>))"

section \<open>Alignment does not matter\<close>

text \<open>Sums of bytes in distinct positions are disjunctions, so masks select them.\<close>

lemma disjoint_add: "(\<And>n. bit a n \<Longrightarrow> bit b n \<Longrightarrow> False) \<Longrightarrow> a + b = (a OR b :: u32)"
  by (rule disjunctive_add) blast

lemma two_bytes: "b32 m i + push_bit 8 (b32 m j) = b32 m i OR push_bit 8 (b32 m j)"
  by (rule disjoint_add) (auto simp: b32_def bit_simps dest: bit_imp_le_length)

lemma three_bytes:
  "b32 m i + push_bit 8 (b32 m j) + push_bit 16 (b32 m k) = b32 m i OR push_bit 8 (b32 m j) OR push_bit 16 (b32 m k)"
  unfolding two_bytes by (subst disjoint_add) (auto simp: b32_def bit_simps or.assoc dest: bit_imp_le_length)

lemma four_packed_bytes:
  "b32 m i + push_bit 8 (b32 m j) + push_bit 16 (b32 m k) + push_bit 24 (b32 m l) =
   b32 m i OR push_bit 8 (b32 m j) OR push_bit 16 (b32 m k) OR push_bit 24 (b32 m l)"
  unfolding three_bytes by (subst disjoint_add) (auto simp: b32_def bit_simps or.assoc dest: bit_imp_le_length)

lemma le32_mask:
  "le32_at m i AND mask 24 = b32 m i + push_bit 8 (b32 m (i + 1)) + push_bit 16 (b32 m (i + 2))"
  "le32_at m i AND mask 16 = b32 m i + push_bit 8 (b32 m (i + 1))"
  "le32_at m i AND mask 8 = b32 m i"
proof -
  have eq: "le32_at m i = b32 m i OR push_bit 8 (b32 m (i + 1)) OR push_bit 16 (b32 m (i + 2)) OR push_bit 24 (b32 m (i + 3))"
    unfolding le32_at_def by (rule four_packed_bytes)
  show "le32_at m i AND mask 24 = b32 m i + push_bit 8 (b32 m (i + 1)) + push_bit 16 (b32 m (i + 2))"
    unfolding eq three_bytes by (rule bit_word_eqI) (auto simp: b32_def bit_simps dest: bit_imp_le_length)
  show "le32_at m i AND mask 16 = b32 m i + push_bit 8 (b32 m (i + 1))"
    unfolding eq two_bytes by (rule bit_word_eqI) (auto simp: b32_def bit_simps dest: bit_imp_le_length)
  show "le32_at m i AND mask 8 = b32 m i"
    unfolding eq by (rule bit_word_eqI) (auto simp: b32_def bit_simps dest: bit_imp_le_length)
qed

lemma be32_mask:
  "be32_at m i AND NOT (mask 8) = push_bit 24 (b32 m i) + push_bit 16 (b32 m (i + 1)) + push_bit 8 (b32 m (i + 2))"
  "be32_at m i AND NOT (mask 16) = push_bit 24 (b32 m i) + push_bit 16 (b32 m (i + 1))"
  "be32_at m i AND NOT (mask 24) = push_bit 24 (b32 m i)"
proof -
  let ?a = "push_bit 24 (b32 m i)" and ?b = "push_bit 16 (b32 m (i + 1))" and ?c = "push_bit 8 (b32 m (i + 2))"
  have ab: "?a + ?b = ?a OR ?b"
    by (rule disjoint_add) (auto simp: b32_def bit_simps dest: bit_imp_le_length)
  have abc: "?a + ?b + ?c = ?a OR ?b OR ?c"
    unfolding ab by (subst disjoint_add) (auto simp: b32_def bit_simps or.assoc dest: bit_imp_le_length)
  have eq: "be32_at m i = ?a OR ?b OR ?c OR b32 m (i + 3)"
    unfolding be32_at_def abc by (subst disjoint_add) (auto simp: b32_def bit_simps or.assoc dest: bit_imp_le_length)
  show "be32_at m i AND NOT (mask 8) = ?a + ?b + ?c"
    unfolding eq abc by (rule bit_word_eqI) (auto simp: b32_def bit_simps dest: bit_imp_le_length)
  show "be32_at m i AND NOT (mask 16) = ?a + ?b"
    unfolding eq ab by (rule bit_word_eqI) (auto simp: b32_def bit_simps dest: bit_imp_le_length)
  show "be32_at m i AND NOT (mask 24) = ?a"
    unfolding eq by (rule bit_word_eqI) (auto simp: b32_def bit_simps dest: bit_imp_le_length)
qed

lemma mask_values:
  "0xffffff = (mask 24 :: u32)" "0xffff = (mask 16 :: u32)" "0xff = (mask 8 :: u32)"
  "0xffffff00 = NOT (mask 8 :: u32)" "0xffff0000 = NOT (mask 16 :: u32)" "0xff000000 = NOT (mask 24 :: u32)"
  by (simp_all add: mask_eq_exp_minus_1)

lemma halves_sum: "le16_at m i + push_bit 16 (le16_at m j) =
    b32 m i + push_bit 8 (b32 m (i + 1)) + push_bit 16 (b32 m j) + push_bit 24 (b32 m (j + 1))"
  by (simp add: le16_at_def push_bit_add push_bit_push_bit add.assoc)

lemma blocks_le: "words_le = bytes_le" "halves_le = bytes_le"
  by (intro ext; simp only: words_le_def halves_le_def bytes_le_def halves_sum le32_at_def add_0 nat_1_add_1; simp)+

lemma blocks_be: "words_be = bytes_be"
  by (intro ext) (simp add: words_be_def bytes_be_def be32_at_def numeral_2_eq_2)

lemma length_cases:
  assumes "0 < n" and "n \<le> (12 :: nat)"
  obtains "n = 1" | "n = 2" | "n = 3" | "n = 4" | "n = 5" | "n = 6" | "n = 7" | "n = 8" | "n = 9" | "n = 10" | "n = 11" | "n = 12"
proof -
  have "n \<in> {12, 11, 10, 9, 8, 7, 6, 5, 4, 3, 2, 1}"
    using assms by (simp; presburger)
  then show ?thesis using that by blast
qed

lemma last_le:
  assumes "0 < len" and "len \<le> 12"
  shows "last_words_le m len = last_bytes_le m len" "last_words_valgrind_le m len = last_bytes_le m len"
    "last_halves_le m len = last_bytes_le m len"
proof -
  show "last_words_le m len = last_bytes_le m len"
    using assms by (cases rule: length_cases)
      (simp_all add: last_words_le_def le32_mask [folded mask_values],
       simp_all add: last_bytes_le_def le32_at_def Let_def numeral_2_eq_2 ac_simps)
  show "last_words_valgrind_le m len = last_bytes_le m len"
    using assms by (cases rule: length_cases) (simp_all add: last_words_valgrind_le_def last_bytes_le_def le32_at_def Let_def numeral_2_eq_2 ac_simps)
  show "last_halves_le m len = last_bytes_le m len"
    using assms by (cases rule: length_cases)
      (simp_all add: last_halves_le_def last_bytes_le_def le16_at_def push_bit_add push_bit_push_bit Let_def ac_simps flip: numeral_2_eq_2)
qed

lemma last_be:
  assumes "0 < len" and "len \<le> 12"
  shows "last_words_be m len = last_bytes_be m len" "last_words_valgrind_be m len = last_bytes_be m len"
proof -
  show "last_words_be m len = last_bytes_be m len"
    using assms by (cases rule: length_cases)
      (simp_all add: last_words_be_def be32_mask [folded mask_values],
       simp_all add: last_bytes_be_def be32_at_def Let_def numeral_2_eq_2 ac_simps)
  show "last_words_valgrind_be m len = last_bytes_be m len"
    using assms by (cases rule: length_cases) (simp_all add: last_words_valgrind_be_def last_bytes_be_def be32_at_def Let_def numeral_2_eq_2 ac_simps)
qed

lemma jenkins_loop_rest:
  "jenkins_loop rd s m len = (s', m', len') \<Longrightarrow> len' \<le> 12 \<and> (0 < len \<longrightarrow> 0 < len')"
proof (induction rd s m len rule: jenkins_loop.induct)
  case (1 rd s m len)
  then show ?case by (subst (asm) (2) jenkins_loop.simps) (auto split: if_splits)
qed

lemma jenkins_finish_cong:
  assumes "\<And>m len. 0 < len \<Longrightarrow> len \<le> 12 \<Longrightarrow> f m len = g m len"
  shows "jenkins_finish f (jenkins_loop rd s m len) = jenkins_finish g (jenkins_loop rd s m len)"
  using assms jenkins_loop_rest [of rd s m len]
  by (cases "jenkins_loop rd s m len") (auto simp: jenkins_finish_def)

lemma bytes_take: "i < n \<Longrightarrow> b32 (take n m) i = b32 m i"
  by (simp add: b32_def)

lemma bytes_le_take: "12 \<le> n \<Longrightarrow> bytes_le (take n m) = bytes_le m" "12 \<le> n \<Longrightarrow> bytes_be (take n m) = bytes_be m"
  by (simp_all add: bytes_le_def bytes_be_def bytes_take)

lemma last_bytes_take: "len \<le> n \<Longrightarrow> last_bytes_le (take n m) len = last_bytes_le m len" "len \<le> n \<Longrightarrow> last_bytes_be (take n m) len = last_bytes_be m len"
  by (simp_all add: last_bytes_le_def last_bytes_be_def bytes_take Let_def)

lemma jenkins_loop_take:
  assumes "\<And>n m. 12 \<le> n \<Longrightarrow> rd (take n m) = rd m"
  shows "jenkins_loop rd s (take len m) len = (case jenkins_loop rd s m len of (s', m', len') \<Rightarrow> (s', take len' m', len'))"
  using assms
proof (induction rd s m len rule: jenkins_loop.induct)
  case (1 rd s m len)
  show ?case
  proof (cases "12 < len")
    case True
    then have "jenkins_loop rd s (take len m) len = jenkins_loop rd (mix (add3 s (rd m))) (take (len - 12) (drop 12 m)) (len - 12)"
      using 1(2) [of len m] by (subst jenkins_loop.simps) (simp add: drop_take)
    with True 1(1) [OF True 1(2)] show ?thesis by (simp add: jenkins_loop.simps [of rd s m])
  next
    case False
    then show ?thesis by (simp add: jenkins_loop.simps [of rd])
  qed
qed

text \<open>The bytes of the key decide the hash, in the bytewise branch of either form.\<close>

definition jenkins_bytes :: "bool \<Rightarrow> u8 list \<Rightarrow> u32" where
  "jenkins_bytes big k =
     (if big then jenkins_finish last_bytes_be (jenkins_loop bytes_be (jenkins_seed (length k)) k (length k))
      else jenkins_finish last_bytes_le (jenkins_loop bytes_le (jenkins_seed (length k)) k (length k)))"

lemma jenkins_bytes_take:
  assumes "len \<le> length m"
  shows "jenkins_finish last_bytes_le (jenkins_loop bytes_le (jenkins_seed len) m len) = jenkins_bytes False (take len m)"
    "jenkins_finish last_bytes_be (jenkins_loop bytes_be (jenkins_seed len) m len) = jenkins_bytes True (take len m)"
  using assms jenkins_loop_take [of bytes_le "jenkins_seed len" len m] jenkins_loop_take [of bytes_be "jenkins_seed len" len m]
  by (auto simp: jenkins_bytes_def jenkins_finish_def bytes_le_take last_bytes_take min_absorb2 split: prod.splits)

lemma jenkins_branches:
  assumes "len \<le> length m"
  shows "jenkins_hash_little valgrind addr m len = jenkins_bytes False (take len m)"
    "jenkins_hash_big valgrind addr m len = jenkins_bytes True (take len m)"
proof -
  note fin = jenkins_finish_cong [of _ last_bytes_le bytes_le] jenkins_finish_cong [of _ last_bytes_be bytes_be]
  have "jenkins_finish f (jenkins_loop bytes_le (jenkins_seed len) m len) = jenkins_bytes False (take len m)"
    if "f \<in> {last_words_le, last_words_valgrind_le, last_halves_le, last_bytes_le}" for f
    using fin(1) [of f "jenkins_seed len" m len] that last_le jenkins_bytes_take(1) [OF assms] by auto
  then show "jenkins_hash_little valgrind addr m len = jenkins_bytes False (take len m)"
    by (simp add: jenkins_hash_little_def blocks_le)
  have "jenkins_finish f (jenkins_loop bytes_be (jenkins_seed len) m len) = jenkins_bytes True (take len m)"
    if "f \<in> {last_words_be, last_words_valgrind_be, last_bytes_be}" for f
    using fin(2) [of f "jenkins_seed len" m len] that last_be jenkins_bytes_take(2) [OF assms] by auto
  then show "jenkins_hash_big valgrind addr m len = jenkins_bytes True (take len m)"
    by (simp add: jenkins_hash_big_def blocks_be)
qed

section \<open>Mixing is reversible\<close>

text \<open>The comment on \<^verbatim>\<open>mix\<close> says that it is reversible; this runs its lines backwards.\<close>

definition unmix_line :: "nat \<Rightarrow> abc \<Rightarrow> abc" where
  "unmix_line k = (\<lambda>(b, c, a). let c = c - b in ((a XOR rot c k) + c, b, c))"

definition unmix :: "abc \<Rightarrow> abc" where
  "unmix s = unmix_line 4 (unmix_line 6 (unmix_line 8 (unmix_line 16 (unmix_line 19 (unmix_line 4 s)))))"

lemma xor_xor_cancel: "((x :: u32) XOR y) XOR y = x"
  by (simp add: xor.assoc)

lemma unmix_mix: "unmix (mix s) = s"
proof -
  have "unmix_line k (mix_line k s) = s" for k s
    by (cases s) (simp add: mix_line_def unmix_line_def xor_xor_cancel)
  then show ?thesis by (simp add: mix_def unmix_def)
qed

lemma bit_rotl32:
  assumes "n < 32" and "r < 32"
  shows "bit (rotl32 x r) n = bit x (if r \<le> n then n - r else n + (32 - r))"
proof (cases "r \<le> n")
  case True
  then have "\<not> bit x (32 - r + n)" using assms(2) bit_imp_le_length [of x "32 - r + n"] by auto
  with True assms show ?thesis by (simp add: rotl32_def bit_or_iff bit_push_bit_iff bit_drop_bit_eq)
next
  case False
  then show ?thesis by (simp add: rotl32_def bit_or_iff bit_push_bit_iff bit_drop_bit_eq add.commute)
qed

lemma rotl32_undo:
  assumes "0 < r" and "r < 32"
  shows "rotl32 (rotl32 x r) (32 - r) = x"
proof (rule bit_word_eqI)
  fix n assume "n < LENGTH(32)"
  then have n: "n < 32" by simp
  show "bit (rotl32 (rotl32 x r) (32 - r)) n = bit x n"
  proof (cases "32 - r \<le> n")
    case True
    define k where "k = n - (32 - r)"
    have k: "k < r" "k < 32" "k + (32 - r) = n" using n True assms(2) by (simp_all add: k_def)
    have "bit (rotl32 (rotl32 x r) (32 - r)) n = bit (rotl32 x r) k"
      using True n assms by (simp add: bit_rotl32 k_def)
    also have "\<dots> = bit x n" using bit_rotl32 [OF k(2) assms(2)] k by (simp del: diff_diff_left)
    finally show ?thesis .
  next
    case False
    then show ?thesis using n assms by (simp add: bit_rotl32)
  qed
qed

lemma rotl32_inj: "rotl32 x r = rotl32 y r \<Longrightarrow> 0 < r \<Longrightarrow> r < 32 \<Longrightarrow> x = y"
  by (metis rotl32_undo)

lemma xor_telescope: "((a :: u32) XOR b) XOR (b XOR 0) = a" "(a XOR b) XOR (b XOR c) XOR (c XOR 0) = a"
  by (simp_all add: xor.assoc)

lemma drop_bit_all: "32 \<le> n \<Longrightarrow> drop_bit n (h :: u32) = 0"
  by (rule bit_word_eqI) (auto simp: bit_drop_bit_eq dest: bit_imp_le_length)

lemma xorshift16_undo: "(h XOR drop_bit 16 h) XOR drop_bit 16 (h XOR drop_bit 16 h) = (h :: u32)"
  using xor_telescope(1) [of h "drop_bit 16 h"] drop_bit_all [of 32 h] by (simp only: drop_bit_xor drop_bit_drop_bit) simp

lemma xorshift13_undo:
  fixes h :: u32
  defines "g \<equiv> h XOR drop_bit 13 h"
  shows "g XOR drop_bit 13 g XOR drop_bit 26 g = h"
  using xor_telescope(2) [of h "drop_bit 13 h" "drop_bit 26 h"] drop_bit_all [of 39 h]
  unfolding g_def by (simp only: drop_bit_xor drop_bit_drop_bit) simp

lemma mult_undo:
  "(x :: u32) * 0x85ebca6b * 2781581891 = x" "(x :: u32) * 0xc2b2ae35 * 2127672349 = x"
  "(x :: u32) * 0xcc9e2d51 * 3739302833 = x" "(x :: u32) * 0x1b873593 * 1458385051 = x" "(x :: u32) * 5 * 3435973837 = x"
proof -
  have "(0x85ebca6b :: u32) * 2781581891 = 1" "(0xc2b2ae35 :: u32) * 2127672349 = 1" "(0xcc9e2d51 :: u32) * 3739302833 = 1"
    "(0x1b873593 :: u32) * 1458385051 = 1" "(5 :: u32) * 3435973837 = 1"
    by simp_all
  then show "x * 0x85ebca6b * 2781581891 = x" "x * 0xc2b2ae35 * 2127672349 = x" "x * 0xcc9e2d51 * 3739302833 = x"
    "x * 0x1b873593 * 1458385051 = x" "x * 5 * 3435973837 = x"
    by (simp_all only: mult.assoc mult_1_right)
qed

lemma fmix32_inj: "fmix32 x = fmix32 y \<Longrightarrow> x = y"
proof -
  let ?f = "\<lambda>h :: u32. h XOR drop_bit 16 h" and ?g = "\<lambda>h :: u32. h XOR drop_bit 13 h"
  have f: "a = b" if "?f a = ?f b" for a b using arg_cong [OF that, of ?f] xorshift16_undo [of a] xorshift16_undo [of b] by simp
  have g: "a = b" if "?g a = ?g b" for a b
    using xorshift13_undo [of a] xorshift13_undo [of b] unfolding that by simp
  assume "fmix32 x = fmix32 y"
  then have "?g (?f x * 0x85ebca6b) * 0xc2b2ae35 = ?g (?f y * 0x85ebca6b) * 0xc2b2ae35"
    unfolding fmix32_def Let_def by (rule f)
  then have "?g (?f x * 0x85ebca6b) = ?g (?f y * 0x85ebca6b)" using mult_undo(2) by metis
  then have "?f x * 0x85ebca6b = ?f y * 0x85ebca6b" by (rule g)
  then have "?f x = ?f y" using mult_undo(1) by metis
  then show "x = y" by (rule f)
qed

lemma murmur_scramble_inj: "murmur_scramble x = murmur_scramble y \<Longrightarrow> x = y"
proof -
  assume "murmur_scramble x = murmur_scramble y"
  then have "rotl32 (x * 0xcc9e2d51) 15 = rotl32 (y * 0xcc9e2d51) 15"
    using mult_undo(4) unfolding murmur_scramble_def by metis
  then have "x * 0xcc9e2d51 = y * 0xcc9e2d51" by (rule rotl32_inj) simp_all
  then show "x = y" using mult_undo(3) by metis
qed

lemma murmur_round_inj:
  assumes "rotl32 (h XOR murmur_scramble x) 13 * 5 + 0xe6546b64 = rotl32 (h XOR murmur_scramble y) 13 * 5 + 0xe6546b64"
  shows "x = y"
proof -
  have "rotl32 (h XOR murmur_scramble x) 13 = rotl32 (h XOR murmur_scramble y) 13"
    using assms mult_undo(5) by (metis add_right_cancel)
  then have "h XOR murmur_scramble x = h XOR murmur_scramble y" by (rule rotl32_inj) simp_all
  then have "h XOR (h XOR murmur_scramble x) = h XOR (h XOR murmur_scramble y)" by simp
  then have "murmur_scramble x = murmur_scramble y" by simp
  then show ?thesis by (rule murmur_scramble_inj)
qed

lemma bit_u8_ge: "8 \<le> n \<Longrightarrow> \<not> bit (b :: u8) n"
  by (auto dest: bit_imp_le_length)

lemma le32_at_inj:
  assumes "le32_at m 0 = le32_at n 0" and "length m = 4" and "length n = 4"
  shows "m = n"
proof -
  have byte: "ucast (drop_bit (8 * i) (le32_at l 0)) = l ! i" if "i < 4" for i and l :: "u8 list"
  proof -
    have "i \<in> {0, 1, 2, 3}" using that by auto
    then show ?thesis unfolding le32_at_def four_packed_bytes
      by (auto intro!: bit_word_eqI simp: b32_def bit_simps bit_u8_ge simp flip: numeral_2_eq_2)
  qed
  show ?thesis
  proof (rule nth_equalityI)
    fix i assume "i < length m"
    then show "m ! i = n ! i" using byte [of i m] byte [of i n] assms by simp
  qed (simp add: assms)
qed

section \<open>Properties\<close>

text \<open>
  C35.  The Jenkins hash of a key depends on the bytes of the key alone: not on the alignment of its
  address, which selects one of three ways to read it, not on the build's variant of the last block,
  and not on the bytes behind the key that the word reads touch; for both byte orders.
\<close>

theorem jenkins_hash_bytes:
  assumes "len \<le> length m" and "len \<le> length m'" and "take len m = take len m'"
  shows "jenkins_hash_little v addr m len = jenkins_hash_little v' addr' m' len \<and>
    jenkins_hash_big v addr m len = jenkins_hash_big v' addr' m' len"
  using jenkins_branches [OF assms(1)] jenkins_branches [OF assms(2)] assms(3) by simp

theorem jenkins_hash_bytes_witness:
  "jenkins_hash_little False 8 (bytes ''key1XX'') 4 = jenkins_hash_little True 3 (bytes ''key1YYYY'') 4"
  using jenkins_hash_bytes [of 4 "bytes ''key1XX''" "bytes ''key1YYYY''" False 8 True 3] by simp

text \<open>
  C36.  Two different keys of four bytes never have the same Murmur hash: the block is scrambled, mixed in
  and finalised by invertible steps only.
\<close>

theorem murmur_four_bytes_distinct:
  assumes "length k = 4" and "length k' = 4" and "k \<noteq> k'"
  shows "MurmurHash3_x86_32 k 4 \<noteq> MurmurHash3_x86_32 k' 4"
proof
  assume eq: "MurmurHash3_x86_32 k 4 = MurmurHash3_x86_32 k' 4"
  let ?h = "\<lambda>k. rotl32 (0 XOR murmur_scramble (le32_at k 0)) 13 * 5 + 0xe6546b64"
  have val: "MurmurHash3_x86_32 m 4 = fmix32 (?h m XOR 4)" for m
    by (simp add: MurmurHash3_x86_32_def Let_def murmur_tail_def getblock32_def)
  have "?h k XOR 4 = ?h k' XOR 4" using eq fmix32_inj unfolding val by blast
  then have "(?h k XOR 4) XOR 4 = (?h k' XOR 4) XOR 4" by (simp only:)
  then have "?h k = ?h k'" unfolding xor_xor_cancel .
  then have "le32_at k 0 = le32_at k' 0" by (rule murmur_round_inj)
  then show False using le32_at_inj assms by blast
qed

theorem murmur_four_bytes_distinct_witness:
  "MurmurHash3_x86_32 (bytes ''key1'') 4 \<noteq> MurmurHash3_x86_32 (bytes ''key2'') 4"
  using murmur_four_bytes_distinct [of "bytes ''key1''" "bytes ''key2''"] by simp

end
