(* ===== verification/Item_List.thy ===== *)
theory Item_List
  imports Bmc_Prelude
begin

text \<open>
  The item header of the store (\<^verbatim>\<open>struct _stritem\<close> and \<^verbatim>\<open>struct _strchunk\<close> of
  \<^verbatim>\<open>src/memcached-sr/memcached.h\<close>), its flag bits, and the doubly linked lists that the free lists of
  \<^verbatim>\<open>slabs.c\<close> and the LRU queues of \<^verbatim>\<open>items.c\<close> thread through the headers' \<^verbatim>\<open>next\<close> and
  \<^verbatim>\<open>prev\<close> pointers.  Memory is a map from addresses to headers; address 0 is the null pointer.
  An item header and a chunk header have the same layout, so both are one record: \<^verbatim>\<open>next\<close>, \<^verbatim>\<open>prev\<close>,
  \<^verbatim>\<open>refcount\<close>, \<^verbatim>\<open>it_flags\<close> and \<^verbatim>\<open>slabs_clsid\<close> coincide.  The fields \<open>sch_next\<close> and
  \<open>sch_orig\<close> are those of the chunk header embedded behind the key of a chunked item
  (\<^verbatim>\<open>ITEM_schunk\<close>).  The key and \<^verbatim>\<open>h_next\<close> of an item are held by the model of the hash table.
\<close>

record item =
  it_next :: nat
  it_prev :: nat
  it_time :: u32
  it_exptime :: u32
  it_nbytes :: u32
  it_refcount :: u16
  it_flags :: u16
  it_clsid :: u8
  it_nkey :: u8
  it_cas :: u64
  it_suffix :: u32
  sch_next :: nat
  sch_orig :: u8

type_synonym heap = "nat \<Rightarrow> item"

abbreviation (input) ITEM_LINKED :: u16 where "ITEM_LINKED \<equiv> 1"
abbreviation (input) ITEM_CAS :: u16 where "ITEM_CAS \<equiv> 2"
abbreviation (input) ITEM_SLABBED :: u16 where "ITEM_SLABBED \<equiv> 4"
abbreviation (input) ITEM_FETCHED :: u16 where "ITEM_FETCHED \<equiv> 8"
abbreviation (input) ITEM_ACTIVE :: u16 where "ITEM_ACTIVE \<equiv> 16"
abbreviation (input) ITEM_CHUNKED :: u16 where "ITEM_CHUNKED \<equiv> 32"
abbreviation (input) ITEM_CHUNK :: u16 where "ITEM_CHUNK \<equiv> 64"
abbreviation (input) ITEM_HDR :: u16 where "ITEM_HDR \<equiv> 128"
abbreviation (input) ITEM_CFLAGS :: u16 where "ITEM_CFLAGS \<equiv> 256"

text \<open>Memory after \<^verbatim>\<open>memset(ptr, 0, len)\<close>.\<close>

definition zero_item :: item where
  "zero_item = \<lparr>it_next = 0, it_prev = 0, it_time = 0, it_exptime = 0, it_nbytes = 0, it_refcount = 0,
     it_flags = 0, it_clsid = 0, it_nkey = 0, it_cas = 0, it_suffix = 0, sch_next = 0, sch_orig = 0\<rparr>"

definition zero_range :: "nat \<Rightarrow> nat \<Rightarrow> heap \<Rightarrow> heap" where
  "zero_range p len h = (\<lambda>a. if p \<le> a \<and> a < p + len then zero_item else h a)"

text \<open>
  The statements the code repeats wherever it puts an item in front of a list:
  \<^verbatim>\<open>it->prev = 0; it->next = head; if (it->next) it->next->prev = it\<close>.
\<close>

definition link_head :: "heap \<Rightarrow> nat \<Rightarrow> nat \<Rightarrow> heap" where
  "link_head h it front =
     (let h1 = h(it := (h it)\<lparr>it_prev := 0, it_next := front\<rparr>) in
      if front \<noteq> 0 then h1(front := (h1 front)\<lparr>it_prev := it\<rparr>) else h1)"

text \<open>
  And wherever it takes one out:
  \<^verbatim>\<open>if (it->next) it->next->prev = it->prev; if (it->prev) it->prev->next = it->next\<close>.
\<close>

definition unlink_cell :: "heap \<Rightarrow> nat \<Rightarrow> heap" where
  "unlink_cell h it =
     (let n = it_next (h it);
          h1 = (if n \<noteq> 0 then h(n := (h n)\<lparr>it_prev := it_prev (h it)\<rparr>) else h);
          p = it_prev (h1 it)
      in if p \<noteq> 0 then h1(p := (h1 p)\<lparr>it_next := it_next (h1 it)\<rparr>) else h1)"

text \<open>The class bits and the LRU bits of \<^verbatim>\<open>slabs_clsid\<close>, and the size of an item; \<^verbatim>\<open>sizeof(item)\<close> is 48.\<close>

definition ITEM_clsid :: "item \<Rightarrow> u8" where
  "ITEM_clsid i = it_clsid i AND NOT (push_bit 6 3)"

definition ITEM_lruid :: "item \<Rightarrow> u8" where
  "ITEM_lruid i = it_clsid i AND push_bit 6 3"

definition ITEM_ntotal :: "item \<Rightarrow> u64" where
  "ITEM_ntotal i = 48 + ucast (it_nkey i) + 1 + scast (it_nbytes i)
     + (if it_flags i AND ITEM_CFLAGS \<noteq> 0 then 4 else 0) + (if it_flags i AND ITEM_CAS \<noteq> 0 then 8 else 0)"

section \<open>Lists in memory\<close>

definition first :: "nat list \<Rightarrow> nat" where
  "first xs = (case xs of [] \<Rightarrow> 0 | x # _ \<Rightarrow> x)"

definition final :: "nat \<Rightarrow> nat list \<Rightarrow> nat" where
  "final p xs = (if xs = [] then p else last xs)"

lemma first_simps [simp]: "first [] = 0" "first (x # xs) = x"
  by (simp_all add: first_def)

lemma final_simps [simp]: "final p [] = p" "final p (x # xs) = final x xs" "final p (xs @ [y]) = y"
  by (simp_all add: final_def)

lemma first_append: "first (xs @ ys) = (if xs = [] then first ys else first xs)"
  by (cases xs) simp_all

lemma final_append: "final p (xs @ ys) = final (final p xs) ys"
  by (simp add: final_def)

text \<open>The cells \<open>xs\<close> are linked both ways; \<open>p\<close> is what the first points back to and the last points to \<open>n\<close>.\<close>

fun dll :: "heap \<Rightarrow> nat \<Rightarrow> nat list \<Rightarrow> nat \<Rightarrow> bool" where
  "dll h p [] n \<longleftrightarrow> True"
| "dll h p (x # xs) n \<longleftrightarrow>
     x \<noteq> 0 \<and> it_prev (h x) = p \<and> it_next (h x) = (if xs = [] then n else first xs) \<and> dll h x xs n"

text \<open>What a walk along \<^verbatim>\<open>next\<close> sees.\<close>

fun walk :: "heap \<Rightarrow> nat \<Rightarrow> nat \<Rightarrow> nat list" where
  "walk h 0 a = []"
| "walk h (Suc k) a = a # walk h k (it_next (h a))"

lemma length_walk [simp]: "length (walk h k a) = k"
  by (induction k arbitrary: a) simp_all

lemma walk_dll: "dll h p xs n \<Longrightarrow> walk h (length xs) (first xs) = xs"
  by (induction xs arbitrary: p) (auto simp: neq_Nil_conv split: if_splits)

lemma dll_append:
  "dll h p (xs @ ys) n \<longleftrightarrow> dll h p xs (if ys = [] then n else first ys) \<and> dll h (final p xs) ys n"
  by (induction xs arbitrary: p) (auto simp: first_append)

lemma dll_cong:
  assumes "\<And>a. a \<in> set xs \<Longrightarrow> it_next (h' a) = it_next (h a) \<and> it_prev (h' a) = it_prev (h a)"
  shows "dll h' p xs n = dll h p xs n"
  using assms by (induction xs arbitrary: p) simp_all

lemma dll_not_null: "dll h p xs n \<Longrightarrow> 0 \<notin> set xs"
  by (induction xs arbitrary: p) auto

lemma first_in_set: "first xs \<noteq> 0 \<Longrightarrow> first xs \<in> set xs"
  by (cases xs) simp_all

lemma first_zero_iff: "0 \<notin> set xs \<Longrightarrow> first xs = 0 \<longleftrightarrow> xs = []"
  by (cases xs) auto

subsection \<open>Putting an item in front\<close>

lemma link_head_other: "a \<noteq> it \<Longrightarrow> a \<noteq> front \<Longrightarrow> link_head h it front a = h a"
  by (simp add: link_head_def Let_def)

lemma link_head_links:
  assumes "it \<noteq> front"
  shows "it_prev (link_head h it front it) = 0" "it_next (link_head h it front it) = front"
    "it_next (link_head h it front front) = it_next (h front)" "front \<noteq> 0 \<Longrightarrow> it_prev (link_head h it front front) = it"
  using assms by (simp_all add: link_head_def Let_def)

text \<open>Only the two links change.\<close>

definition same_but_links :: "item \<Rightarrow> item \<Rightarrow> bool" where
  "same_but_links i j \<longleftrightarrow> i\<lparr>it_next := 0, it_prev := 0\<rparr> = j\<lparr>it_next := 0, it_prev := 0\<rparr>"

lemma same_but_links_simps:
  assumes "same_but_links i j"
  shows "it_time i = it_time j" "it_exptime i = it_exptime j" "it_nbytes i = it_nbytes j"
    "it_refcount i = it_refcount j" "it_flags i = it_flags j" "it_clsid i = it_clsid j"
    "it_nkey i = it_nkey j" "it_cas i = it_cas j" "it_suffix i = it_suffix j" "sch_next i = sch_next j" "sch_orig i = sch_orig j"
  using assms by (cases i; cases j; simp add: same_but_links_def)+

lemma same_but_links_refl [simp]: "same_but_links i i"
  by (simp add: same_but_links_def)

lemma same_but_links_trans [trans]: "same_but_links i j \<Longrightarrow> same_but_links j k \<Longrightarrow> same_but_links i k"
  by (simp add: same_but_links_def)

lemma same_but_links_upd [simp]:
  "same_but_links (i\<lparr>it_next := n\<rparr>) j = same_but_links i j" "same_but_links (i\<lparr>it_prev := p\<rparr>) j = same_but_links i j"
  by (simp_all add: same_but_links_def)

lemma link_head_same: "same_but_links (link_head h it front a) (h a)"
  by (simp add: link_head_def Let_def)

lemma unlink_cell_same: "same_but_links (unlink_cell h it a) (h a)"
  by (simp add: unlink_cell_def Let_def)

lemma dll_link_head:
  assumes "dll h 0 xs 0" "distinct xs" "it \<notin> set xs" "it \<noteq> 0"
  shows "dll (link_head h it (first xs)) 0 (it # xs) 0"
proof (cases xs)
  case Nil
  with assms show ?thesis by (simp add: link_head_def)
next
  case (Cons y ys)
  with assms have ne: "it \<noteq> y" "y \<noteq> 0" and rest: "dll h y ys 0" by auto
  have "dll (link_head h it y) y ys 0"
    using rest assms(2,3) Cons by (subst dll_cong [of _ _ h]) (metis distinct.simps(2) link_head_other list.set_intros(2))+
  with assms ne Cons show ?thesis by (simp add: link_head_links)
qed

subsection \<open>Taking an item out\<close>

lemma unlink_cell_other:
  "a \<noteq> it_next (h it) \<Longrightarrow> a \<noteq> it_prev (h it) \<Longrightarrow> it_next (h it) \<noteq> it \<Longrightarrow> unlink_cell h it a = h a"
  by (simp add: unlink_cell_def Let_def)

lemma dll_middle:
  assumes "dll h p (ys @ it # zs) n"
  shows "it_prev (h it) = final p ys" "it_next (h it) = (if zs = [] then n else first zs)"
  using assms by (simp_all add: dll_append)

lemma dll_relink_front:
  assumes "dll h p zs n" "zs \<noteq> []" "distinct zs"
    and "it_prev (h' (first zs)) = q" "it_next (h' (first zs)) = it_next (h (first zs))"
    and "\<And>a. a \<in> set (tl zs) \<Longrightarrow> it_next (h' a) = it_next (h a) \<and> it_prev (h' a) = it_prev (h a)"
  shows "dll h' q zs n"
proof (cases zs)
  case (Cons a list)
  then have "dll h' a list n = dll h a list n" using assms(6) by (intro dll_cong) simp
  with assms Cons show ?thesis by auto
qed (use assms in simp)

lemma dll_relink_back:
  assumes "dll h p (ys @ [y]) n" "distinct (ys @ [y])"
    and "it_prev (h' y) = it_prev (h y)" "it_next (h' y) = m"
    and "\<And>a. a \<in> set ys \<Longrightarrow> it_next (h' a) = it_next (h a) \<and> it_prev (h' a) = it_prev (h a)"
  shows "dll h' p (ys @ [y]) m"
  using assms by (auto simp: dll_append dll_cong [of ys h' h])

lemma dll_neighbours:
  assumes d: "dll h 0 (ys @ it # zs) 0" and dist: "distinct (ys @ it # zs)"
  shows "it_next (h it) = first zs" "it_prev (h it) = final 0 ys" "first zs \<noteq> it"
    "zs \<noteq> [] \<Longrightarrow> first zs \<in> set zs \<and> first zs \<noteq> 0" "ys \<noteq> [] \<Longrightarrow> final 0 ys \<in> set ys \<and> final 0 ys \<noteq> 0"
proof -
  have null: "0 \<notin> set ys" "0 \<notin> set zs" "it \<noteq> 0" using dll_not_null [OF d] by auto
  show "it_next (h it) = first zs" "it_prev (h it) = final 0 ys"
    using dll_middle [OF d] by (auto split: if_splits)
  show "first zs \<noteq> it" using dist null by (cases zs) auto
  show "zs \<noteq> [] \<Longrightarrow> first zs \<in> set zs \<and> first zs \<noteq> 0" using null by (auto simp: neq_Nil_conv)
  have "ys \<noteq> [] \<Longrightarrow> final 0 ys \<in> set ys" by (simp add: final_def)
  then show "ys \<noteq> [] \<Longrightarrow> final 0 ys \<in> set ys \<and> final 0 ys \<noteq> 0" using null by metis
qed

lemma unlink_sides:
  assumes d: "dll h 0 (ys @ it # zs) 0" and dist: "distinct (ys @ it # zs)"
  shows "zs \<noteq> [] \<Longrightarrow> it_prev (unlink_cell h it (first zs)) = final 0 ys"
    "zs \<noteq> [] \<Longrightarrow> it_next (unlink_cell h it (first zs)) = it_next (h (first zs))"
    "ys \<noteq> [] \<Longrightarrow> it_next (unlink_cell h it (final 0 ys)) = first zs"
    "ys \<noteq> [] \<Longrightarrow> it_prev (unlink_cell h it (final 0 ys)) = it_prev (h (final 0 ys))"
    "a \<noteq> first zs \<Longrightarrow> a \<noteq> final 0 ys \<Longrightarrow> unlink_cell h it a = h a"
proof -
  note n = dll_neighbours [OF d dist]
  show "zs \<noteq> [] \<Longrightarrow> it_prev (unlink_cell h it (first zs)) = final 0 ys"
    "zs \<noteq> [] \<Longrightarrow> it_next (unlink_cell h it (first zs)) = it_next (h (first zs))"
    using n dist by (cases "ys = []"; auto simp: unlink_cell_def Let_def)+
  show "ys \<noteq> [] \<Longrightarrow> it_next (unlink_cell h it (final 0 ys)) = first zs"
    "ys \<noteq> [] \<Longrightarrow> it_prev (unlink_cell h it (final 0 ys)) = it_prev (h (final 0 ys))"
    using n dist by (cases "zs = []"; auto simp: unlink_cell_def Let_def)+
  show "a \<noteq> first zs \<Longrightarrow> a \<noteq> final 0 ys \<Longrightarrow> unlink_cell h it a = h a"
    using n by (simp add: unlink_cell_other)
qed

lemma dll_unlink:
  assumes d: "dll h 0 (ys @ it # zs) 0" and dist: "distinct (ys @ it # zs)"
  shows "dll (unlink_cell h it) 0 (ys @ zs) 0"
proof -
  let ?h = "unlink_cell h it"
  note n = dll_neighbours [OF d dist] and sides = unlink_sides [OF d dist]
  have null: "0 \<notin> set ys" "0 \<notin> set zs" using dll_not_null [OF d] by auto
  have dz: "dll h it zs 0" and dy: "dll h 0 ys it" using d by (auto simp: dll_append)
  have "dll ?h (final 0 ys) zs 0"
  proof (cases "zs = []")
    case False
    then show ?thesis
    proof (intro dll_relink_front [OF dz False])
      fix a assume "a \<in> set (tl zs)"
      then have a: "a \<in> set zs" "a \<noteq> first zs" using False dist by (auto simp: neq_Nil_conv)
      have "set ys \<inter> set zs = {}" using dist by auto
      then have "a \<noteq> final 0 ys" using a(1) null(2) n(5) by (metis disjoint_iff final_simps(1))
      with a have "?h a = h a" by (intro sides)
      then show "it_next (?h a) = it_next (h a) \<and> it_prev (?h a) = it_prev (h a)" by simp
    qed (use sides dist in auto)
  qed simp
  moreover have "dll ?h 0 ys (first zs)"
  proof (cases ys rule: rev_cases)
    case (snoc us u)
    show ?thesis unfolding snoc
    proof (rule dll_relink_back [OF dy [unfolded snoc]])
      fix a assume a: "a \<in> set us"
      with dist snoc have "a \<noteq> final 0 ys" by auto
      moreover have "set ys \<inter> set zs = {}" "a \<in> set ys" using dist a snoc by auto
      then have "a \<noteq> first zs" using n(4) null(1) by (metis disjoint_iff first_simps(1))
      ultimately have "?h a = h a" by (intro sides)
      then show "it_next (?h a) = it_next (h a) \<and> it_prev (?h a) = it_prev (h a)" by simp
    qed (use sides snoc dist in auto)
  qed simp
  ultimately show ?thesis by (auto simp: dll_append)
qed

text \<open>The cells a link or unlink writes belong to the list it works on.\<close>

lemma unlink_cell_frame:
  assumes d: "dll h 0 (ys @ it # zs) 0" and dist: "distinct (ys @ it # zs)" and a: "a \<notin> set ys" "a \<notin> set zs"
  shows "unlink_cell h it a = h a"
proof -
  note n = dll_neighbours [OF d dist]
  have z: "a \<noteq> first zs" if "zs \<noteq> []" using that a n(4) by metis
  have y: "a \<noteq> final 0 ys" if "ys \<noteq> []" using that a n(5) by metis
  show ?thesis using n(3) z y by (cases "zs = []"; cases "ys = []") (simp_all add: unlink_cell_def Let_def n(1,2))
qed

section \<open>Families of lists in one memory\<close>

text \<open>
  Every free list and every LRU queue lives in the same memory.  \<open>lists_ok h L\<close> says that each \<open>L q\<close> is a
  well-linked list without repetition, and that no cell is on two of them.
\<close>

definition lists_ok :: "heap \<Rightarrow> ('q \<Rightarrow> nat list) \<Rightarrow> bool" where
  "lists_ok h L \<longleftrightarrow> (\<forall>q. dll h 0 (L q) 0 \<and> distinct (L q)) \<and> (\<forall>q r. q \<noteq> r \<longrightarrow> set (L q) \<inter> set (L r) = {})"

lemma lists_okD:
  assumes "lists_ok h L"
  shows "dll h 0 (L q) 0" "distinct (L q)" "q \<noteq> r \<Longrightarrow> a \<in> set (L q) \<Longrightarrow> a \<notin> set (L r)" "0 \<notin> set (L q)"
proof -
  from assms show d: "dll h 0 (L q) 0" "distinct (L q)" by (simp_all add: lists_ok_def)
  from assms show "q \<noteq> r \<Longrightarrow> a \<in> set (L q) \<Longrightarrow> a \<notin> set (L r)" unfolding lists_ok_def by blast
  from d(1) show "0 \<notin> set (L q)" by (rule dll_not_null)
qed

lemma lists_ok_cong:
  assumes "lists_ok h L"
    and "\<And>q a. a \<in> set (L q) \<Longrightarrow> it_next (h' a) = it_next (h a) \<and> it_prev (h' a) = it_prev (h a)"
  shows "lists_ok h' L"
proof -
  have "dll h' 0 (L q) 0 = dll h 0 (L q) 0" for q by (rule dll_cong) (rule assms(2))
  with assms(1) show ?thesis by (simp add: lists_ok_def)
qed

lemma lists_ok_update:
  assumes ok: "lists_ok h L" and d: "dll h' 0 xs 0" "distinct xs"
    and new: "\<And>r a. r \<noteq> q \<Longrightarrow> a \<in> set (L r) \<Longrightarrow> a \<notin> set xs"
    and frame: "\<And>r a. r \<noteq> q \<Longrightarrow> a \<in> set (L r) \<Longrightarrow> h' a = h a"
  shows "lists_ok h' (L(q := xs))"
proof -
  have "dll h' 0 (L r) 0" if "r \<noteq> q" for r
    using lists_okD(1) [OF ok] frame [OF that] by (subst dll_cong [of _ _ h]) auto
  with ok d new show ?thesis unfolding lists_ok_def by (simp add: disjoint_iff) metis
qed

lemma lists_ok_link:
  assumes ok: "lists_ok h L" and it: "it \<noteq> 0" "\<And>r. it \<notin> set (L r)"
  shows "lists_ok (link_head h it (first (L q))) (L(q := it # L q))"
proof (rule lists_ok_update [OF ok])
  show "dll (link_head h it (first (L q))) 0 (it # L q) 0" using lists_okD(1,2) [OF ok] it by (simp add: dll_link_head del: dll.simps)
  show "distinct (it # L q)" using lists_okD(2) [OF ok] it by simp
  fix r a assume ra: "r \<noteq> q" "a \<in> set (L r)"
  then have na: "a \<notin> set (L q)" "a \<noteq> it" "a \<noteq> 0" using lists_okD(3,4) [OF ok] it by (blast, blast, metis)
  then show "a \<notin> set (it # L q)" by simp
  have "a \<noteq> first (L q)" using na first_in_set [of "L q"] by (cases "first (L q) = 0") auto
  with na show "link_head h it (first (L q)) a = h a" by (simp add: link_head_other)
qed

lemma lists_ok_unlink:
  assumes ok: "lists_ok h L" and L: "L q = ys @ it # zs"
  shows "lists_ok (unlink_cell h it) (L(q := ys @ zs))"
proof (rule lists_ok_update [OF ok])
  have d: "dll h 0 (ys @ it # zs) 0" "distinct (ys @ it # zs)" using lists_okD(1,2) [OF ok, of q] unfolding L .
  show "dll (unlink_cell h it) 0 (ys @ zs) 0" by (rule dll_unlink [OF d])
  show "distinct (ys @ zs)" using d(2) by simp
  fix r a assume ra: "r \<noteq> q" "a \<in> set (L r)"
  then have "a \<notin> set (L q)" using lists_okD(3) [OF ok] by blast
  then have na: "a \<notin> set ys" "a \<notin> set zs" unfolding L by simp_all
  then show "a \<notin> set (ys @ zs)" by simp
  from d na show "unlink_cell h it a = h a" by (rule unlink_cell_frame)
qed

end
