(* ===== verification/Slab_Automove.thy ===== *)
theory Slab_Automove
  imports Complex_Main
begin

text \<open>
  The page mover's decision (\<^verbatim>\<open>src/memcached-sr/slab_automove.c\<close>): from the statistics of the slab classes and a
  window over their recent past, \<^verbatim>\<open>slab_automove_run\<close> chooses a class to take a page from and one to give
  it to.

  The statistics that \<^verbatim>\<open>fill_item_stats_automove\<close> and \<^verbatim>\<open>fill_slab_stats_automove\<close> deliver are arguments.
  Counters that cannot reach their width are unbounded; the window cursor wraps at 32 bits.  The
  configured ratio, a \<^verbatim>\<open>double\<close>, is a rational number, and products with it are exact.
\<close>

section \<open>State\<close>

abbreviation (input) MAX_NUMBER_OF_SLAB_CLASSES :: nat where "MAX_NUMBER_OF_SLAB_CLASSES \<equiv> 64"

abbreviation (input) POWER_SMALLEST :: nat where "POWER_SMALLEST \<equiv> 1"

abbreviation (input) MIN_PAGES_FOR_SOURCE :: int where "MIN_PAGES_FOR_SOURCE \<equiv> 2"

text \<open>2.5\<close>

abbreviation (input) MIN_PAGES_FOR_RECLAIM :: rat where "MIN_PAGES_FOR_RECLAIM \<equiv> 5 / 2"

record window_data =
  wd_age :: nat
  wd_dirty :: nat
  wd_evicted :: nat

record item_stats_automove =
  ia_evicted :: int
  ia_outofmemory :: int
  ia_age :: nat

record slab_stats_automove =
  chunks_per_page :: nat
  chunk_size :: nat
  free_chunks :: int
  total_pages :: int

record slab_automove =
  windows :: "window_data list"
  window_size :: nat
  window_cur :: nat
  max_age_ratio :: rat
  iam_before :: "item_stats_automove list"
  iam_after :: "item_stats_automove list"
  sam_before :: "slab_stats_automove list"
  sam_after :: "slab_stats_automove list"

definition zero_window :: window_data where
  "zero_window = \<lparr>wd_age = 0, wd_dirty = 0, wd_evicted = 0\<rparr>"

text \<open>\<open>ok1\<close> and \<open>ok2\<close> say whether the two allocations succeed; the arrays not yet filled hold zeros.\<close>

definition slab_automove_init ::
  "bool \<Rightarrow> bool \<Rightarrow> nat \<Rightarrow> rat \<Rightarrow> item_stats_automove list \<Rightarrow> slab_stats_automove list \<Rightarrow> slab_automove option" where
  "slab_automove_init ok1 ok2 wsize ratio iam sam =
     (if \<not> ok1 then None
      else if \<not> ok2 then None
      else Some \<lparr>windows = replicate (wsize * MAX_NUMBER_OF_SLAB_CLASSES) zero_window,
        window_size = wsize, window_cur = 0, max_age_ratio = ratio, iam_before = iam,
        iam_after = replicate MAX_NUMBER_OF_SLAB_CLASSES \<lparr>ia_evicted = 0, ia_outofmemory = 0, ia_age = 0\<rparr>,
        sam_before = sam,
        sam_after = replicate MAX_NUMBER_OF_SLAB_CLASSES \<lparr>chunks_per_page = 0, chunk_size = 0, free_chunks = 0, total_pages = 0\<rparr>\<rparr>)"

section \<open>The decision\<close>

definition add_window :: "window_data \<Rightarrow> window_data \<Rightarrow> window_data" where
  "add_window w d = \<lparr>wd_age = wd_age w + wd_age d, wd_dirty = wd_dirty w + wd_dirty d, wd_evicted = wd_evicted w + wd_evicted d\<rparr>"

definition window_sum :: "window_data list \<Rightarrow> nat \<Rightarrow> nat \<Rightarrow> window_data \<Rightarrow> window_data" where
  "window_sum wds off sz w = foldl (\<lambda>w x. add_window w (wds ! (off + x))) w [0..<sz]"

text \<open>The local variables of the loop.\<close>

record mover =
  mv_src :: int
  mv_dst :: int
  oldest :: int
  oldest_age :: nat
  youngest :: int
  youngest_age :: nat
  youngest_evicting :: bool

definition mover_start :: mover where
  "mover_start = \<lparr>mv_src = -1, mv_dst = -1, oldest = -1, oldest_age = 0, youngest = -1,
     youngest_age = 2 ^ 64 - 1, youngest_evicting = False\<rparr>"

text \<open>The entry of the window that the run writes for a class.\<close>

definition new_entry :: "slab_automove \<Rightarrow> nat \<Rightarrow> window_data" where
  "new_entry a n =
     (let wd = zero_window;
          wd = (if ia_evicted (iam_after a ! n) - ia_evicted (iam_before a ! n) > 0 \<or>
                   ia_outofmemory (iam_after a ! n) - ia_outofmemory (iam_before a ! n) > 0
                then wd\<lparr>wd_evicted := 1, wd_dirty := 1\<rparr> else wd);
          wd = (if total_pages (sam_after a ! n) - total_pages (sam_before a ! n) > 0 then wd\<lparr>wd_dirty := 1\<rparr> else wd)
      in wd\<lparr>wd_age := ia_age (iam_after a ! n)\<rparr>)"

definition may_reclaim :: "slab_stats_automove \<Rightarrow> bool" where
  "may_reclaim s \<longleftrightarrow> of_int (free_chunks s) > of_nat (chunks_per_page s) * MIN_PAGES_FOR_RECLAIM"

text \<open>The part of an iteration that decides for the class \<open>n\<close>; the flag says that the loop is left.\<close>

definition update_mover :: "nat \<Rightarrow> nat \<Rightarrow> slab_stats_automove \<Rightarrow> window_data \<Rightarrow> window_data \<Rightarrow> mover \<Rightarrow> mover \<times> bool" where
  "update_mover n wsize sam w_sum wd mv =
     (let age = wd_age w_sum div wsize in
      if may_reclaim sam \<and> wd_dirty w_sum = 0 then (mv\<lparr>mv_src := int n, mv_dst := 0\<rparr>, True)
      else
        let mv = (if age > oldest_age mv \<and> total_pages sam > MIN_PAGES_FOR_SOURCE
                  then mv\<lparr>oldest := int n, oldest_age := age\<rparr> else mv);
            mv = (if age < youngest_age mv \<and> wd_evicted w_sum > wsize div 2
                  then mv\<lparr>youngest := int n, youngest_age := age, youngest_evicting := (wd_evicted wd \<noteq> 0)\<rparr> else mv)
        in (mv, False))"

definition automove_class :: "nat \<Rightarrow> slab_automove \<Rightarrow> mover \<Rightarrow> slab_automove \<times> mover \<times> bool" where
  "automove_class n a mv =
     (let w_offset = n * window_size a;
          i = w_offset + window_cur a mod window_size a;
          wds = (windows a)[i := zero_window];
          w_sum = window_sum wds w_offset (window_size a) zero_window;
          wd = new_entry a n
      in (a\<lparr>windows := wds[i := wd]\<rparr>, update_mover n (window_size a) (sam_after a ! n) w_sum wd mv))"

fun automove_loop :: "nat list \<Rightarrow> slab_automove \<Rightarrow> mover \<Rightarrow> slab_automove \<times> mover" where
  "automove_loop [] a mv = (a, mv)"
| "automove_loop (n # ns) a mv =
     (case automove_class n a mv of (a, mv, stop) \<Rightarrow> if stop then (a, mv) else automove_loop ns a mv)"

definition slab_automove_run ::
  "item_stats_automove list \<Rightarrow> slab_stats_automove list \<Rightarrow> slab_automove \<Rightarrow> (int \<times> int) \<times> slab_automove" where
  "slab_automove_run iam sam a =
     (let a = a\<lparr>iam_after := iam, sam_after := sam, window_cur := (window_cur a + 1) mod 2 ^ 32\<rparr>;
          (a, mv) = automove_loop [POWER_SMALLEST..<MAX_NUMBER_OF_SLAB_CLASSES] a mover_start;
          a = a\<lparr>iam_before := iam_after a, sam_before := sam_after a\<rparr>;
          mv = (if youngest mv \<noteq> -1 \<and> oldest mv \<noteq> -1 \<and> window_cur a > window_size a \<and>
                   of_nat (youngest_age mv) < of_nat (oldest_age mv) * max_age_ratio a \<and> youngest_evicting mv
                then mv\<lparr>mv_src := oldest mv, mv_dst := youngest mv\<rparr> else mv)
      in ((mv_src mv, mv_dst mv), a))"

section \<open>Windows of different classes do not touch\<close>

text \<open>What the run sees of a class: its window with the entry that is about to be written cleared.\<close>

definition class_sum :: "slab_automove \<Rightarrow> nat \<Rightarrow> window_data" where
  "class_sum a n = window_sum ((windows a)[n * window_size a + window_cur a mod window_size a := zero_window])
     (n * window_size a) (window_size a) zero_window"

definition class_age :: "slab_automove \<Rightarrow> nat \<Rightarrow> nat" where
  "class_age a n = wd_age (class_sum a n) div window_size a"

lemma window_sum_cong:
  assumes "\<And>x. x < sz \<Longrightarrow> f ! (off + x) = g ! (off + x)"
  shows "window_sum f off sz w = window_sum g off sz w"
  unfolding window_sum_def using assms by (intro foldl_cong) auto

lemma index_neq: "n \<noteq> m \<Longrightarrow> x < (k::nat) \<Longrightarrow> y < k \<Longrightarrow> n * k + x \<noteq> m * k + y"
proof
  assume nm: "n \<noteq> m" and xy: "x < k" "y < k" and eq: "n * k + x = m * k + y"
  then have "(n * k + x) div k = (m * k + y) div k" by simp
  then show False using nm xy by simp
qed

text \<open>Everything an iteration keeps, apart from the one entry of its class.\<close>

definition same_view :: "nat list \<Rightarrow> slab_automove \<Rightarrow> slab_automove \<Rightarrow> bool" where
  "same_view ns a b \<longleftrightarrow> window_size b = window_size a \<and> window_cur b = window_cur a \<and> max_age_ratio b = max_age_ratio a \<and>
     iam_before b = iam_before a \<and> iam_after b = iam_after a \<and> sam_before b = sam_before a \<and> sam_after b = sam_after a \<and>
     length (windows b) = length (windows a) \<and> (\<forall>n\<in>set ns. class_sum b n = class_sum a n)"

lemma same_viewD:
  assumes "same_view ns a b"
  shows "window_size b = window_size a" "window_cur b = window_cur a" "sam_after b = sam_after a" "max_age_ratio b = max_age_ratio a"
    "n \<in> set ns \<Longrightarrow> class_sum b n = class_sum a n" "n \<in> set ns \<Longrightarrow> class_age b n = class_age a n" "new_entry b m = new_entry a m"
  using assms by (auto simp: same_view_def class_age_def new_entry_def)

lemma same_view_refl: "same_view ns a a"
  by (simp add: same_view_def)

lemma same_view_trans: "same_view ns a b \<Longrightarrow> same_view ms b c \<Longrightarrow> set ms \<subseteq> set ns \<Longrightarrow> same_view ms a c"
  by (auto simp: same_view_def)

lemma class_sum_update:
  assumes "n \<noteq> m" and "0 < window_size a"
  shows "class_sum (a\<lparr>windows := (windows a)[n * window_size a + window_cur a mod window_size a := w]\<rparr>) m = class_sum a m"
proof -
  let ?k = "window_cur a mod window_size a"
  let ?i = "n * window_size a + ?k" and ?j = "m * window_size a + ?k"
  have k: "?k < window_size a" using assms(2) by simp
  have ij: "?i \<noteq> ?j" using index_neq [OF assms(1) k k] .
  have "(windows a)[?i := w, ?j := zero_window] ! (m * window_size a + x) = (windows a)[?j := zero_window] ! (m * window_size a + x)"
    if "x < window_size a" for x
    using index_neq [OF assms(1) k that] unfolding list_update_swap [OF ij] by (rule nth_list_update_neq)
  then have "window_sum ((windows a)[?i := w, ?j := zero_window]) (m * window_size a) (window_size a) zero_window = class_sum a m"
    unfolding class_sum_def by (rule window_sum_cong)
  then show ?thesis by (simp add: class_sum_def)
qed

lemma automove_class_same:
  assumes "n \<notin> set ns" and "0 < window_size a" and "automove_class n a mv = (b, mv', stop)"
  shows "same_view ns a b"
proof -
  have "b = a\<lparr>windows := (windows a)[n * window_size a + window_cur a mod window_size a := new_entry a n]\<rparr>"
    using assms(3) by (auto simp: automove_class_def Let_def split: if_splits)
  moreover have "class_sum b m = class_sum a m" if "m \<in> set ns" for m
    unfolding calculation using that assms(1,2) by (intro class_sum_update) auto
  ultimately show ?thesis by (simp add: same_view_def)
qed

section \<open>Decisions are justified\<close>

text \<open>What the local variables mean while the loop runs: \<open>b\<close> is the state it started from and \<open>cs\<close> the classes seen.\<close>

definition mover_inv :: "slab_automove \<Rightarrow> nat set \<Rightarrow> mover \<Rightarrow> bool" where
  "mover_inv b cs mv \<longleftrightarrow>
     (oldest mv = -1 \<or> (\<exists>n\<in>cs. oldest mv = int n \<and> oldest_age mv = class_age b n \<and> total_pages (sam_after b ! n) > 2)) \<and>
     (youngest mv = -1 \<or> (\<exists>n\<in>cs. youngest mv = int n \<and> youngest_age mv = class_age b n \<and>
        wd_evicted (class_sum b n) > window_size b div 2 \<and> youngest_evicting mv = (wd_evicted (new_entry b n) \<noteq> 0))) \<and>
     (mv_src mv = -1 \<and> mv_dst mv = -1 \<or>
      (\<exists>n\<in>cs. mv_src mv = int n \<and> mv_dst mv = 0 \<and> may_reclaim (sam_after b ! n) \<and> wd_dirty (class_sum b n) = 0))"

lemma mover_inv_mono: "mover_inv b cs mv \<Longrightarrow> cs \<subseteq> ds \<Longrightarrow> mover_inv b ds mv"
  unfolding mover_inv_def by blast

lemma update_mover_inv:
  assumes "mover_inv b cs mv" and "update_mover n (window_size b) (sam_after b ! n) (class_sum b n) (new_entry b n) mv = (mv', stop)"
  shows "mover_inv b (insert n cs) mv'"
proof -
  let ?s = "sam_after b ! n" and ?w = "class_sum b n" and ?age = "class_age b n"
  have inv: "mover_inv b (insert n cs) mv" using mover_inv_mono [OF assms(1)] by blast
  show ?thesis
  proof (cases "may_reclaim ?s \<and> wd_dirty ?w = 0")
    case True
    then have "mv' = mv\<lparr>mv_src := int n, mv_dst := 0\<rparr>" using assms(2) by (simp add: update_mover_def Let_def)
    then show ?thesis using inv True unfolding mover_inv_def by simp
  next
    case False
    define mv1 where "mv1 = (if ?age > oldest_age mv \<and> total_pages ?s > 2 then mv\<lparr>oldest := int n, oldest_age := ?age\<rparr> else mv)"
    have i1: "mover_inv b (insert n cs) mv1"
      using inv unfolding mv1_def by (cases "?age > oldest_age mv \<and> total_pages ?s > 2") (simp_all add: mover_inv_def)
    have "mv' = fst (update_mover n (window_size b) ?s ?w (new_entry b n) mv)" using assms(2) by simp
    also have "\<dots> = (if ?age < youngest_age mv1 \<and> wd_evicted ?w > window_size b div 2
        then mv1\<lparr>youngest := int n, youngest_age := ?age, youngest_evicting := (wd_evicted (new_entry b n) \<noteq> 0)\<rparr> else mv1)"
      unfolding update_mover_def Let_def if_not_P [OF False] fst_conv mv1_def class_age_def by (rule refl)
    finally show ?thesis
      using i1 by (cases "?age < youngest_age mv1 \<and> wd_evicted ?w > window_size b div 2") (simp_all add: mover_inv_def)
  qed
qed

lemma automove_class_inv:
  assumes "mover_inv b cs mv" and "same_view ns b a" and "n \<in> set ns" and "automove_class n a mv = (a', mv', stop)"
  shows "mover_inv b (insert n cs) mv'"
proof -
  note v = same_viewD [OF assms(2)]
  have "update_mover n (window_size a) (sam_after a ! n) (class_sum a n) (new_entry a n) mv = (mv', stop)"
    using assms(4) by (simp add: automove_class_def Let_def class_sum_def)
  then show ?thesis using update_mover_inv [OF assms(1)] v(1,3,7) v(5) [OF assms(3)] by simp
qed

lemma automove_loop_inv:
  assumes "mover_inv b cs mv" and "same_view ns b a" and "distinct ns" and "0 < window_size b"
    and "automove_loop ns a mv = (a', mv')"
  shows "mover_inv b (cs \<union> set ns) mv' \<and> same_view [] b a'"
  using assms
proof (induction ns arbitrary: a mv cs)
  case Nil
  then show ?case by simp
next
  case (Cons n ns)
  obtain a1 mv1 stop where c: "automove_class n a mv = (a1, mv1, stop)" by (rule prod_cases3)
  have inv: "mover_inv b (insert n cs) mv1" using automove_class_inv [OF Cons.prems(1,2) _ c] by simp
  have "0 < window_size a" using Cons.prems(4) same_viewD(1) [OF Cons.prems(2)] by simp
  then have "same_view ns a a1" using automove_class_same [OF _ _ c] Cons.prems(3) by simp
  then have view: "same_view ns b a1" by (rule same_view_trans [OF Cons.prems(2)]) auto
  show ?case
  proof (cases stop)
    case True
    then have "a' = a1" "mv' = mv1" using Cons.prems(5) c by simp_all
    moreover have "same_view [] b a1" using view by (simp add: same_view_def)
    ultimately show ?thesis using mover_inv_mono [OF inv, of "cs \<union> set (n # ns)"] by auto
  next
    case False
    then have "automove_loop ns a1 mv1 = (a', mv')" using Cons.prems(5) c by simp
    then show ?thesis using Cons.IH [OF inv view] Cons.prems(3,4) by simp
  qed
qed

text \<open>
  C37.  Every page move is justified.  Either no move is asked for; or a page goes back to the global pool from a class
  with more than two and a half pages of free chunks and a clean window; or, once the window has filled,
  a page moves from a class with more than two pages to one that evicts now and did so in more than half
  of the window and whose average age is below the given ratio of the source's.  With a ratio of at most
  one a class is never its own destination.
\<close>

theorem automove_decision:
  assumes "0 < window_size a" and "b = a\<lparr>iam_after := iam, sam_after := sam, window_cur := (window_cur a + 1) mod 2 ^ 32\<rparr>"
    and "slab_automove_run iam sam a = ((src, dst), a')"
  shows "(src = -1 \<and> dst = -1) \<or>
    (\<exists>n\<in>{1..<64}. src = int n \<and> dst = 0 \<and> may_reclaim (sam ! n) \<and> wd_dirty (class_sum b n) = 0) \<or>
    (\<exists>m\<in>{1..<64}. \<exists>n\<in>{1..<64}. src = int m \<and> dst = int n \<and> total_pages (sam ! m) > 2 \<and> window_size a < window_cur b \<and>
       of_nat (class_age b n) < of_nat (class_age b m) * max_age_ratio a \<and> window_size a div 2 < wd_evicted (class_sum b n) \<and>
       wd_evicted (new_entry b n) \<noteq> 0 \<and> (max_age_ratio a \<le> 1 \<longrightarrow> m \<noteq> n))"
proof -
  obtain a1 mv where l: "automove_loop [1..<64] b mover_start = (a1, mv)" by (rule prod.exhaust)
  have start: "mover_inv b {} mover_start" by (simp add: mover_inv_def mover_start_def)
  have "mover_inv b ({} \<union> set [1..<64]) mv \<and> same_view [] b a1"
    using automove_loop_inv [OF start same_view_refl _ _ l] assms(1,2) by simp
  then have inv: "mover_inv b {1..<64} mv" and view: "same_view [] b a1" by simp_all
  have ratio: "m \<noteq> n" if "of_nat x < of_nat y * r" "r \<le> (1 :: rat)" "m = n \<Longrightarrow> x = y" for m n x y :: nat and r
    using that mult_left_mono [OF that(2), of "of_nat y"] by force
  have sd: "src = (if youngest mv \<noteq> -1 \<and> oldest mv \<noteq> -1 \<and> window_size a < window_cur b \<and>
        of_nat (youngest_age mv) < of_nat (oldest_age mv) * max_age_ratio a \<and> youngest_evicting mv then oldest mv else mv_src mv)"
    "dst = (if youngest mv \<noteq> -1 \<and> oldest mv \<noteq> -1 \<and> window_size a < window_cur b \<and>
        of_nat (youngest_age mv) < of_nat (oldest_age mv) * max_age_ratio a \<and> youngest_evicting mv then youngest mv else mv_dst mv)"
    using assms(3) l same_viewD(1,2,4) [OF view] unfolding slab_automove_run_def assms(2) [symmetric] Let_def
    by (auto simp: assms(2))
  have b: "sam_after b = sam" "window_size b = window_size a" using assms(2) by simp_all
  let ?P = "youngest mv \<noteq> -1 \<and> oldest mv \<noteq> -1 \<and> window_size a < window_cur b \<and>
        of_nat (youngest_age mv) < of_nat (oldest_age mv) * max_age_ratio a \<and> youngest_evicting mv"
  show ?thesis
  proof (cases ?P)
    case True
    obtain m where m: "m \<in> {1..<64}" "oldest mv = int m" "oldest_age mv = class_age b m" "total_pages (sam ! m) > 2"
      using inv True b(1) unfolding mover_inv_def by blast
    obtain n where n: "n \<in> {1..<64}" "youngest mv = int n" "youngest_age mv = class_age b n"
        "wd_evicted (class_sum b n) > window_size a div 2" "wd_evicted (new_entry b n) \<noteq> 0"
      using inv True b(2) unfolding mover_inv_def by metis
    have "m \<noteq> n" if "max_age_ratio a \<le> 1" using ratio [OF _ that, of "class_age b n" "class_age b m"] True m(3) n(3) by metis
    then show ?thesis using True m n sd by (intro disjI2 bexI [OF _ m(1)] bexI [OF _ n(1)]) simp
  next
    case False
    then have "src = mv_src mv" "dst = mv_dst mv" using sd by argo+
    then show ?thesis using inv b(1) unfolding mover_inv_def by blast
  qed
qed

text \<open>A mover over windows of size one, in which class 1 has free pages.\<close>

definition sample_sam :: "slab_stats_automove list" where
  "sample_sam = replicate 64 \<lparr>chunks_per_page = 10, chunk_size = 96, free_chunks = 26, total_pages = 3\<rparr>"

definition sample_iam :: "item_stats_automove list" where
  "sample_iam = replicate 64 \<lparr>ia_evicted = 0, ia_outofmemory = 0, ia_age = 5\<rparr>"

definition sample_automove :: slab_automove where
  "sample_automove = the (slab_automove_init True True 1 (8 / 10) sample_iam sample_sam)"

theorem automove_decision_witness:
  "fst (slab_automove_run sample_iam sample_sam sample_automove) = (1, 0) \<and> may_reclaim (sample_sam ! 1)"
proof -
  let ?b = "sample_automove\<lparr>iam_after := sample_iam, sam_after := sample_sam, window_cur := (window_cur sample_automove + 1) mod 2 ^ 32\<rparr>"
  have run: "fst (slab_automove_run sample_iam sample_sam sample_automove) = (1, 0)"
    by (simp add: slab_automove_run_def automove_class_def update_mover_def window_sum_def add_window_def zero_window_def
      may_reclaim_def mover_start_def sample_automove_def slab_automove_init_def sample_sam_def sample_iam_def Let_def
      upt_conv_Cons [of "Suc 0" 64] split: prod.split)
  then obtain a' where r: "slab_automove_run sample_iam sample_sam sample_automove = ((1, 0), a')"
    by (cases "slab_automove_run sample_iam sample_sam sample_automove") auto
  have "0 < window_size sample_automove" by (simp add: sample_automove_def slab_automove_init_def)
  from automove_decision [OF this refl r] show ?thesis using run by auto
qed

end
