(* ===== verification/Slabs.thy ===== *)
theory Slabs
  imports Item_List Slab_Automove "HOL-Library.Monad_Syntax"
begin

text \<open>
  The slab allocator (\<^verbatim>\<open>src/memcached-sr/slabs.c\<close>): size classes, pages of memory cut into chunks of
  one class, a free list per class threaded through the chunks, and a pool of unassigned pages
  (class 0).  Addresses are natural numbers and 0 is the null pointer.  The results of \<^verbatim>\<open>malloc\<close> and
  \<^verbatim>\<open>realloc\<close> are arguments of the operations that call them.  Counters of chunks and pages are natural
  numbers, byte counts of the memory limit are 64-bit words as in the code.  Assertions are
  compiled out of the production build (\<^verbatim>\<open>-DNDEBUG\<close>); locks are not modelled: each operation is one
  critical section.  An operation returns \<open>None\<close> when following a chain of chunks does not end.
\<close>

record settings =
  st_maxbytes :: u64
  st_chunk_size :: nat
  st_item_size_max :: nat
  st_slab_chunk_size_max :: nat
  st_slab_page_size :: nat
  st_slab_reassign :: bool
  st_slab_automove :: nat
  st_use_cas :: bool
  st_lru_segmented :: bool
  st_temp_lru :: bool
  st_temporary_ttl :: u32
  st_evict_to_free :: bool
  st_oldest_live :: u32
  st_oldest_cas :: u64
  st_tail_repair_time :: u32
  st_hot_lru_pct :: nat
  st_warm_lru_pct :: nat
  st_hot_max_factor :: rat
  st_warm_max_factor :: rat

record slabclass_t =
  cls_size :: nat
  perslab :: nat
  slots :: nat
  sl_curr :: nat
  slabs :: nat
  slab_list :: "nat list"
  list_size :: nat

record slab_rebalance =
  slab_start :: nat
  slab_end :: nat
  slab_pos :: nat
  s_clsid :: int
  d_clsid :: int
  busy_items :: u32
  rescues :: u32
  evictions_nomem :: u32
  inline_reclaim :: u32
  chunk_rescues :: u32
  busy_deletes :: u32
  busy_loops :: u32
  rebal_done :: u8

record slabs_state =
  settings :: settings
  heap :: heap
  slabclass :: "slabclass_t list"
  mem_limit :: u64
  mem_malloced :: u64
  mem_limit_reached :: bool
  power_largest :: nat
  mem_base :: nat
  mem_current :: nat
  mem_avail :: u64
  slab_rebal :: slab_rebalance
  slab_rebalance_signal :: nat
  pick_cur :: int

abbreviation (input) SLAB_GLOBAL_PAGE_POOL :: nat where "SLAB_GLOBAL_PAGE_POOL \<equiv> 0"
abbreviation (input) CHUNK_ALIGN_BYTES :: nat where "CHUNK_ALIGN_BYTES \<equiv> 8"
abbreviation (input) SLABS_ALLOC_NO_NEWPAGE :: nat where "SLABS_ALLOC_NO_NEWPAGE \<equiv> 1"

definition upd_class :: "nat \<Rightarrow> (slabclass_t \<Rightarrow> slabclass_t) \<Rightarrow> 'a slabs_state_scheme \<Rightarrow> 'a slabs_state_scheme" where
  "upd_class cid f s = s\<lparr>slabclass := (slabclass s)[cid := f (slabclass s ! cid)]\<rparr>"

definition upd_item :: "nat \<Rightarrow> (item \<Rightarrow> item) \<Rightarrow> 'a slabs_state_scheme \<Rightarrow> 'a slabs_state_scheme" where
  "upd_item a f s = s\<lparr>heap := (heap s)(a := f (heap s a))\<rparr>"

section \<open>Size classes\<close>

text \<open>
  The search for a class; beyond the table of 64 classes, which the code never reaches when
  \<^verbatim>\<open>power_largest\<close> is a class, the answer is 0.
\<close>

function clsid_loop :: "slabclass_t list \<Rightarrow> nat \<Rightarrow> nat \<Rightarrow> nat \<Rightarrow> nat" where
  "clsid_loop cs largest sz res =
     (if res \<ge> MAX_NUMBER_OF_SLAB_CLASSES then 0
      else if sz > cls_size (cs ! res) then
        if res = largest then largest else clsid_loop cs largest sz (res + 1)
      else res)"
  by auto
termination by (relation "measure (\<lambda>(cs, largest, sz, res). MAX_NUMBER_OF_SLAB_CLASSES - res)") auto

declare clsid_loop.simps [simp del]

definition slabs_clsid :: "'a slabs_state_scheme \<Rightarrow> nat \<Rightarrow> nat" where
  "slabs_clsid s sz =
     (if sz = 0 \<or> sz > st_item_size_max (settings s) then 0
      else clsid_loop (slabclass s) (power_largest s) sz POWER_SMALLEST)"

definition slabs_size :: "'a slabs_state_scheme \<Rightarrow> nat \<Rightarrow> nat" where
  "slabs_size s clsid = cls_size (slabclass s ! clsid)"

definition align_chunk :: "nat \<Rightarrow> nat" where
  "align_chunk sz = (if sz mod CHUNK_ALIGN_BYTES \<noteq> 0 then sz + (CHUNK_ALIGN_BYTES - sz mod CHUNK_ALIGN_BYTES) else sz)"

definition blank_class :: slabclass_t where
  "blank_class = \<lparr>cls_size = 0, perslab = 0, slots = 0, sl_curr = 0, slabs = 0, slab_list = [], list_size = 0\<rparr>"

text \<open>
  The loop that lays out the classes.  The growth factor is an exact rational where the code has a
  double; \<^verbatim>\<open>size *= factor\<close> truncates.
\<close>

function init_classes :: "settings \<Rightarrow> rat \<Rightarrow> nat list option \<Rightarrow> nat \<Rightarrow> nat \<Rightarrow> slabclass_t list \<Rightarrow> nat \<times> slabclass_t list" where
  "init_classes st factor szs i sz cs =
     (if i < MAX_NUMBER_OF_SLAB_CLASSES - 1 then
        if (case szs of Some ss \<Rightarrow> ss ! (i - 1) = 0 | None \<Rightarrow> of_nat sz \<ge> of_nat (st_slab_chunk_size_max st) / factor)
        then (i, cs)
        else
          let sz1 = align_chunk (case szs of Some ss \<Rightarrow> ss ! (i - 1) | None \<Rightarrow> sz);
              cs1 = cs[i := (cs ! i)\<lparr>cls_size := sz1, perslab := st_slab_page_size st div sz1\<rparr>];
              sz2 = (if szs = None then nat \<lfloor>of_nat sz1 * factor\<rfloor> else sz1)
          in init_classes st factor szs (i + 1) sz2 cs1
      else (i, cs))"
  by auto
termination by (relation "measure (\<lambda>(st, factor, szs, i, sz, cs). MAX_NUMBER_OF_SLAB_CLASSES - i)") auto

declare init_classes.simps [simp del]

section \<open>Pages\<close>

definition grow_slab_list :: "nat \<Rightarrow> bool \<Rightarrow> 'a slabs_state_scheme \<Rightarrow> bool \<times> 'a slabs_state_scheme" where
  "grow_slab_list cid realloc_ok s =
     (let p = slabclass s ! cid in
      if slabs p = list_size p then
        let new_size = (if list_size p \<noteq> 0 then list_size p * 2 else 16) in
        if \<not> realloc_ok then (False, s)
        else (True, upd_class cid (\<lambda>p. p\<lparr>list_size := new_size,
                slab_list := slab_list p @ replicate (new_size - length (slab_list p)) 0\<rparr>) s)
      else (True, s))"

text \<open>\<^verbatim>\<open>p->slab_list[p->slabs++] = ptr\<close>\<close>

definition add_page :: "nat \<Rightarrow> nat \<Rightarrow> 'a slabs_state_scheme \<Rightarrow> 'a slabs_state_scheme" where
  "add_page cid ptr s = upd_class cid (\<lambda>p. p\<lparr>slab_list := (slab_list p)[slabs p := ptr], slabs := slabs p + 1\<rparr>) s"

definition get_page_from_global_pool :: "'a slabs_state_scheme \<Rightarrow> nat \<times> 'a slabs_state_scheme" where
  "get_page_from_global_pool s =
     (let p = slabclass s ! SLAB_GLOBAL_PAGE_POOL in
      if slabs p < 1 then (0, s)
      else (slab_list p ! (slabs p - 1), upd_class SLAB_GLOBAL_PAGE_POOL (\<lambda>p. p\<lparr>slabs := slabs p - 1\<rparr>) s))"

definition memory_allocate :: "nat \<Rightarrow> nat \<Rightarrow> 'a slabs_state_scheme \<Rightarrow> nat \<times> 'a slabs_state_scheme" where
  "memory_allocate malloc_ret sz s =
     (if mem_base s = 0 then (malloc_ret, s\<lparr>mem_malloced := mem_malloced s + of_nat sz\<rparr>)
      else if of_nat sz > mem_avail s then (0, s)
      else
        let sz1 = align_chunk sz in
        (mem_current s,
         s\<lparr>mem_current := mem_current s + sz1,
           mem_avail := (if of_nat sz1 < mem_avail s then mem_avail s - of_nat sz1 else 0),
           mem_malloced := mem_malloced s + of_nat sz1\<rparr>))"

section \<open>Free lists\<close>

text \<open>The five statements that put a chunk on its class's free list.\<close>

definition push_slot :: "nat \<Rightarrow> nat \<Rightarrow> 'a slabs_state_scheme \<Rightarrow> 'a slabs_state_scheme" where
  "push_slot cid it s =
     upd_class cid (\<lambda>p. p\<lparr>slots := it, sl_curr := sl_curr p + 1\<rparr>)
       (s\<lparr>heap := link_head (heap s) it (slots (slabclass s ! cid))\<rparr>)"

partial_function (option) free_chunks_loop :: "nat \<Rightarrow> 'a slabs_state_scheme \<Rightarrow> 'a slabs_state_scheme option" where
  "free_chunks_loop chunk s =
     (if chunk = 0 then Some s
      else
        let s1 = upd_item chunk (\<lambda>c. c\<lparr>it_flags := ITEM_SLABBED\<rparr>) s
        in free_chunks_loop (it_next (heap s1 chunk))
             (push_slot (unat (it_clsid (heap s1 chunk))) chunk s1))"

definition do_slabs_free_chunked :: "nat \<Rightarrow> 'a slabs_state_scheme \<Rightarrow> 'a slabs_state_scheme option" where
  "do_slabs_free_chunked it s =
     (let s1 = upd_item it (\<lambda>i. i\<lparr>it_flags := ITEM_SLABBED, it_prev := 0\<rparr>) s;
          cid = unat (sch_orig (heap s1 it));
          chunk = sch_next (heap s1 it);
          s2 = (if chunk \<noteq> 0 then upd_item chunk (\<lambda>c. c\<lparr>it_prev := 0\<rparr>) s1 else s1)
      in free_chunks_loop chunk (push_slot cid it s2))"

definition do_slabs_free :: "nat \<Rightarrow> nat \<Rightarrow> 'a slabs_state_scheme \<Rightarrow> 'a slabs_state_scheme option" where
  "do_slabs_free ptr cid s =
     (if cid < POWER_SMALLEST \<or> cid > power_largest s then Some s
      else if it_flags (heap s ptr) AND ITEM_CHUNKED = 0 then
        Some (push_slot cid ptr (upd_item ptr (\<lambda>i. i\<lparr>it_flags := ITEM_SLABBED, it_clsid := of_nat cid\<rparr>) s))
      else do_slabs_free_chunked ptr s)"

fun split_loop :: "nat \<Rightarrow> nat \<Rightarrow> nat \<Rightarrow> 'a slabs_state_scheme \<Rightarrow> 'a slabs_state_scheme option" where
  "split_loop 0 ptr cid s = Some s"
| "split_loop (Suc n) ptr cid s =
     Option.bind (do_slabs_free ptr cid s) (split_loop n (ptr + cls_size (slabclass s ! cid)) cid)"

definition split_slab_page_into_freelist :: "nat \<Rightarrow> nat \<Rightarrow> 'a slabs_state_scheme \<Rightarrow> 'a slabs_state_scheme option" where
  "split_slab_page_into_freelist ptr cid s = split_loop (perslab (slabclass s ! cid)) ptr cid s"

text \<open>The length of a new page.\<close>

definition page_len :: "'a slabs_state_scheme \<Rightarrow> nat \<Rightarrow> nat" where
  "page_len s cid =
     (if st_slab_reassign (settings s) \<or> st_slab_chunk_size_max (settings s) \<noteq> st_slab_page_size (settings s)
      then st_slab_page_size (settings s)
      else cls_size (slabclass s ! cid) * perslab (slabclass s ! cid))"

definition do_slabs_newslab :: "bool \<Rightarrow> nat \<Rightarrow> nat \<Rightarrow> 'a slabs_state_scheme \<Rightarrow> (bool \<times> 'a slabs_state_scheme) option" where
  "do_slabs_newslab realloc_ok malloc_ret cid s =
     (let p = slabclass s ! cid;
          g = slabclass s ! SLAB_GLOBAL_PAGE_POOL;
          len = page_len s cid
      in
      if mem_limit s \<noteq> 0 \<and> mem_malloced s + of_nat len > mem_limit s \<and> slabs p > 0 \<and> slabs g = 0
      then Some (False, s\<lparr>mem_limit_reached := True\<rparr>)
      else
        let (ok, s1) = grow_slab_list cid realloc_ok s in
        if \<not> ok then Some (False, s1)
        else
          let (pg, s2) = get_page_from_global_pool s1;
              (ptr, s3) = (if pg = 0 then memory_allocate malloc_ret len s2 else (pg, s2))
          in
          if ptr = 0 then Some (False, s3)
          else
            Option.bind (split_slab_page_into_freelist ptr cid (s3\<lparr>heap := zero_range ptr len (heap s3)\<rparr>))
              (\<lambda>s4. Some (True, add_page cid ptr s4)))"

text \<open>Taking the first free chunk.\<close>

definition pop_slot :: "nat \<Rightarrow> 'a slabs_state_scheme \<Rightarrow> nat \<times> 'a slabs_state_scheme" where
  "pop_slot cid s =
     (let it = slots (slabclass s ! cid);
          nxt = it_next (heap s it);
          s1 = upd_class cid (\<lambda>p. p\<lparr>slots := nxt\<rparr>) s;
          s2 = (if nxt \<noteq> 0 then upd_item nxt (\<lambda>i. i\<lparr>it_prev := 0\<rparr>) s1 else s1);
          s3 = upd_item it (\<lambda>i. i\<lparr>it_flags := it_flags i AND NOT ITEM_SLABBED, it_refcount := 1\<rparr>) s2
      in (it, upd_class cid (\<lambda>p. p\<lparr>sl_curr := sl_curr p - 1\<rparr>) s3))"

definition do_slabs_alloc :: "bool \<Rightarrow> nat \<Rightarrow> nat \<Rightarrow> nat \<Rightarrow> 'a slabs_state_scheme \<Rightarrow> (nat \<times> 'a slabs_state_scheme) option" where
  "do_slabs_alloc realloc_ok malloc_ret cid flags s =
     (if cid < POWER_SMALLEST \<or> cid > power_largest s then Some (0, s)
      else
        Option.bind
          (if sl_curr (slabclass s ! cid) = 0 \<and> flags \<noteq> SLABS_ALLOC_NO_NEWPAGE
           then map_option snd (do_slabs_newslab realloc_ok malloc_ret cid s)
           else Some s)
          (\<lambda>s1. Some (if sl_curr (slabclass s1 ! cid) \<noteq> 0 then pop_slot cid s1 else (0, s1))))"

section \<open>Start-up and limits\<close>

text \<open>\<^verbatim>\<open>slabs_preallocate\<close>; \<open>None\<close> is \<^verbatim>\<open>exit(1)\<close>.\<close>

fun preallocate_loop :: "bool \<Rightarrow> nat \<Rightarrow> nat \<Rightarrow> nat list \<Rightarrow> nat \<Rightarrow> 'a slabs_state_scheme \<Rightarrow> 'a slabs_state_scheme option" where
  "preallocate_loop realloc_ok malloc_ret maxslabs [] prealloc s = Some s"
| "preallocate_loop realloc_ok malloc_ret maxslabs (i # is) prealloc s =
     (if prealloc + 1 > maxslabs then Some s
      else
        (case do_slabs_newslab realloc_ok malloc_ret i s of
           Some (True, s1) \<Rightarrow> preallocate_loop realloc_ok malloc_ret maxslabs is (prealloc + 1) s1
         | _ \<Rightarrow> None))"

definition slabs_preallocate :: "bool \<Rightarrow> nat \<Rightarrow> nat \<Rightarrow> 'a slabs_state_scheme \<Rightarrow> 'a slabs_state_scheme option" where
  "slabs_preallocate realloc_ok malloc_ret maxslabs s =
     preallocate_loop realloc_ok malloc_ret maxslabs [POWER_SMALLEST..<MAX_NUMBER_OF_SLAB_CLASSES] 0 s"

text \<open>
  The memory the program starts with: \<open>large\<close> is what \<^verbatim>\<open>alloc_large_chunk_linux\<close> returns.  The first
  component says whether pages are preallocated.
\<close>

definition init_memory :: "u64 \<Rightarrow> bool \<Rightarrow> nat \<Rightarrow> bool \<Rightarrow> nat \<Rightarrow> 'a slabs_state_scheme \<Rightarrow> bool \<times> 'a slabs_state_scheme" where
  "init_memory limit prealloc external reuse_mem large s0 =
     (let s = s0\<lparr>mem_limit := limit\<rparr> in
      if prealloc \<and> external = 0 then
        let s1 = s\<lparr>mem_base := large\<rparr> in
        if large \<noteq> 0 then (True, s1\<lparr>mem_current := large, mem_avail := limit\<rparr>) else (False, s1)
      else if prealloc \<and> external \<noteq> 0 then
        let s1 = s\<lparr>mem_base := external\<rparr> in
        (True,
         if reuse_mem then s1\<lparr>mem_current := external + unat limit, mem_avail := 0\<rparr>
         else s1\<lparr>mem_current := external, mem_avail := limit\<rparr>)
      else (False, s))"

definition init_slabclass :: "rat \<Rightarrow> nat list option \<Rightarrow> 'a slabs_state_scheme \<Rightarrow> 'a slabs_state_scheme" where
  "init_slabclass factor slab_sizes s =
     (let st = settings s;
          (i, cs) = init_classes st factor slab_sizes POWER_SMALLEST (48 + st_chunk_size st)
                      (replicate MAX_NUMBER_OF_SLAB_CLASSES blank_class)
      in s\<lparr>power_largest := i,
           slabclass := cs[i := (cs ! i)\<lparr>cls_size := st_slab_chunk_size_max st,
                                          perslab := st_slab_page_size st div st_slab_chunk_size_max st\<rparr>]\<rparr>)"

definition slabs_init ::
  "bool \<Rightarrow> nat \<Rightarrow> u64 option \<Rightarrow> nat \<Rightarrow> u64 \<Rightarrow> rat \<Rightarrow> bool \<Rightarrow> nat list option \<Rightarrow> nat \<Rightarrow> bool \<Rightarrow>
   'a slabs_state_scheme \<Rightarrow> 'a slabs_state_scheme option" where
  "slabs_init realloc_ok malloc_ret t_initial_malloc large limit factor prealloc slab_sizes external reuse_mem s =
     (let (do_slab_prealloc, s1) = init_memory limit prealloc external reuse_mem large s;
          s2 = init_slabclass factor slab_sizes s1;
          s3 = (case t_initial_malloc of None \<Rightarrow> s2 | Some n \<Rightarrow> s2\<lparr>mem_malloced := n\<rparr>)
      in if do_slab_prealloc \<and> \<not> reuse_mem then slabs_preallocate realloc_ok malloc_ret (power_largest s3) s3
         else Some s3)"

text \<open>
  Filling the pool at start-up.  The calls of \<^verbatim>\<open>malloc\<close> and \<^verbatim>\<open>realloc\<close> are numbered.  The code does not
  look at the result of \<^verbatim>\<open>grow_slab_list\<close> here; a list update beyond the array is no update.
\<close>

partial_function (option) prefill_loop :: "(nat \<Rightarrow> bool) \<Rightarrow> (nat \<Rightarrow> nat) \<Rightarrow> nat \<Rightarrow> 'a slabs_state_scheme \<Rightarrow> 'a slabs_state_scheme option" where
  "prefill_loop realloc_ok malloc_ret k s =
     (if mem_malloced s < mem_limit s then
        (case memory_allocate (malloc_ret k) (st_slab_page_size (settings s)) s of
           (ptr, s1) \<Rightarrow>
             if ptr = 0 then Some s1
             else prefill_loop realloc_ok malloc_ret (k + 1)
                    (add_page SLAB_GLOBAL_PAGE_POOL ptr (snd (grow_slab_list SLAB_GLOBAL_PAGE_POOL (realloc_ok k) s1))))
      else Some s)"

definition slabs_prefill_global :: "(nat \<Rightarrow> bool) \<Rightarrow> (nat \<Rightarrow> nat) \<Rightarrow> 'a slabs_state_scheme \<Rightarrow> 'a slabs_state_scheme option" where
  "slabs_prefill_global realloc_ok malloc_ret s =
     map_option (\<lambda>s1. s1\<lparr>mem_limit_reached := True\<rparr>) (prefill_loop realloc_ok malloc_ret 0 s)"

text \<open>A chunk of reused memory: the result is \<open>-1\<close> for an unused page, else the chunk size.\<close>

definition slabs_fixup :: "bool \<Rightarrow> nat \<Rightarrow> nat \<Rightarrow> 'a slabs_state_scheme \<Rightarrow> int \<times> 'a slabs_state_scheme" where
  "slabs_fixup realloc_ok chunk border s =
     (let cid = unat (ITEM_clsid (heap s chunk)) in
      if cid = 0 then (-1, add_page 0 chunk (snd (grow_slab_list 0 realloc_ok s)))
      else
        let s1 = (if border = 0 then add_page cid chunk (snd (grow_slab_list cid realloc_ok s)) else s);
            s2 = (if it_flags (heap s1 chunk) = ITEM_SLABBED then push_slot cid chunk s1 else s1)
        in (int (cls_size (slabclass s2 ! cid)), s2))"

text \<open>Giving pooled pages back; each round takes a page, so there are at most as many rounds as pages.\<close>

fun release_loop :: "nat \<Rightarrow> 'a slabs_state_scheme \<Rightarrow> 'a slabs_state_scheme" where
  "release_loop 0 s = s"
| "release_loop (Suc n) s =
     (if mem_malloced s > mem_limit s then
        (case get_page_from_global_pool s of
           (p, s1) \<Rightarrow> if p = 0 then s1
                      else release_loop n (s1\<lparr>mem_malloced := mem_malloced s1 - of_nat (st_slab_page_size (settings s1))\<rparr>))
      else s)"

definition memory_release :: "'a slabs_state_scheme \<Rightarrow> 'a slabs_state_scheme" where
  "memory_release s =
     (if mem_base s \<noteq> 0 then s
      else if \<not> st_slab_reassign (settings s) then s
      else release_loop (slabs (slabclass s ! SLAB_GLOBAL_PAGE_POOL)) s)"

definition do_slabs_adjust_mem_limit :: "u64 \<Rightarrow> 'a slabs_state_scheme \<Rightarrow> bool \<times> 'a slabs_state_scheme" where
  "do_slabs_adjust_mem_limit new_mem_limit s =
     (if mem_base s \<noteq> 0 then (False, s)
      else (True, memory_release (s\<lparr>settings := (settings s)\<lparr>st_maxbytes := new_mem_limit\<rparr>,
                                     mem_limit := new_mem_limit, mem_limit_reached := False\<rparr>)))"

section \<open>What the other parts read\<close>

definition fill_slab_stats_automove :: "'a slabs_state_scheme \<Rightarrow> slab_stats_automove list" where
  "fill_slab_stats_automove s =
     map (\<lambda>n. let p = slabclass s ! n in
            \<lparr>chunks_per_page = perslab p, chunk_size = cls_size p, free_chunks = sl_curr p, total_pages = slabs p\<rparr>)
       [0..<MAX_NUMBER_OF_SLAB_CLASSES]"

definition global_page_pool_size :: "'a slabs_state_scheme \<Rightarrow> nat \<times> bool" where
  "global_page_pool_size s = (slabs (slabclass s ! SLAB_GLOBAL_PAGE_POOL), mem_malloced s \<ge> mem_limit s)"

definition slabs_available_chunks :: "nat \<Rightarrow> 'a slabs_state_scheme \<Rightarrow> nat \<times> bool \<times> nat" where
  "slabs_available_chunks cid s =
     (sl_curr (slabclass s ! cid), mem_malloced s \<ge> mem_limit s, perslab (slabclass s ! cid))"

section \<open>Requests to move a page\<close>

datatype reassign_result_type =
  REASSIGN_OK | REASSIGN_RUNNING | REASSIGN_BADCLASS | REASSIGN_NOSPARE | REASSIGN_SRC_DST_SAME

fun pick_loop :: "nat \<Rightarrow> int \<Rightarrow> 'a slabs_state_scheme \<Rightarrow> int \<times> 'a slabs_state_scheme" where
  "pick_loop 0 dst s = (-1, s)"
| "pick_loop (Suc tries) dst s =
     (let c = pick_cur s + 1;
          cur = (if c > int (power_largest s) then int POWER_SMALLEST else c);
          s1 = s\<lparr>pick_cur := cur\<rparr>
      in if cur = dst then pick_loop tries dst s1
         else if slabs (slabclass s1 ! nat cur) > 1 then (cur, s1)
         else pick_loop tries dst s1)"

definition slabs_reassign_pick_any :: "int \<Rightarrow> 'a slabs_state_scheme \<Rightarrow> int \<times> 'a slabs_state_scheme" where
  "slabs_reassign_pick_any dst s = pick_loop (power_largest s - POWER_SMALLEST + 1) dst s"

definition do_slabs_reassign :: "int \<Rightarrow> int \<Rightarrow> 'a slabs_state_scheme \<Rightarrow> reassign_result_type \<times> 'a slabs_state_scheme" where
  "do_slabs_reassign src0 dst s0 =
     (if slab_rebalance_signal s0 \<noteq> 0 then (REASSIGN_RUNNING, s0)
      else if src0 = dst then (REASSIGN_SRC_DST_SAME, s0)
      else
        let (src, s) = (if src0 = -1 then slabs_reassign_pick_any dst s0 else (src0, s0)) in
        if src < int SLAB_GLOBAL_PAGE_POOL \<or> src > int (power_largest s) \<or>
           dst < int SLAB_GLOBAL_PAGE_POOL \<or> dst > int (power_largest s)
        then (REASSIGN_BADCLASS, s)
        else if slabs (slabclass s ! nat src) < 2 then (REASSIGN_NOSPARE, s)
        else (REASSIGN_OK,
              s\<lparr>slab_rebal := (slab_rebal s)\<lparr>s_clsid := src, d_clsid := dst\<rparr>, slab_rebalance_signal := 1\<rparr>))"

text \<open>\<open>got_lock\<close> is the outcome of the \<^verbatim>\<open>pthread_mutex_trylock\<close>.\<close>

definition slabs_reassign :: "bool \<Rightarrow> int \<Rightarrow> int \<Rightarrow> 'a slabs_state_scheme \<Rightarrow> reassign_result_type \<times> 'a slabs_state_scheme" where
  "slabs_reassign got_lock src dst s = (if \<not> got_lock then (REASSIGN_RUNNING, s) else do_slabs_reassign src dst s)"

end
