(* ===== verification/Slab_Alloc.thy ===== *)
theory Slab_Alloc
  imports Slabs
begin

text \<open>
  The allocator's invariant and that every operation of \<^verbatim>\<open>Slabs\<close> keeps it: the pages of all classes
  are disjoint, the free list of a class is a doubly linked list without repetition that holds
  chunks of pages of that class, no chunk is on two lists, and the counters are exact.
\<close>

definition class_range :: "'a slabs_state_scheme \<Rightarrow> nat \<Rightarrow> bool" where
  "class_range s c \<longleftrightarrow> POWER_SMALLEST \<le> c \<and> c \<le> power_largest s"

definition pages :: "'a slabs_state_scheme \<Rightarrow> nat \<Rightarrow> nat list" where
  "pages s c = (if c \<le> power_largest s then take (slabs (slabclass s ! c)) (slab_list (slabclass s ! c)) else [])"

definition free_list :: "'a slabs_state_scheme \<Rightarrow> nat \<Rightarrow> nat list" where
  "free_list s c = (if class_range s c then walk (heap s) (sl_curr (slabclass s ! c)) (slots (slabclass s ! c)) else [])"

text \<open>The chunks a page of class \<open>c\<close> is cut into, and all chunks of the class.\<close>

definition page_chunks :: "slabclass_t \<Rightarrow> nat \<Rightarrow> nat list" where
  "page_chunks p pg = map (\<lambda>k. pg + k * cls_size p) [0..<perslab p]"

definition chunks :: "'a slabs_state_scheme \<Rightarrow> nat \<Rightarrow> nat set" where
  "chunks s c = (if class_range s c then (\<Union>pg \<in> set (pages s c). set (page_chunks (slabclass s ! c) pg)) else {})"

text \<open>How much of a page's memory belongs to it.\<close>

definition page_extent :: "'a slabs_state_scheme \<Rightarrow> nat \<Rightarrow> nat" where
  "page_extent s c = (if c = SLAB_GLOBAL_PAGE_POOL then st_slab_page_size (settings s) else page_len s c)"

definition classes_ok :: "'a slabs_state_scheme \<Rightarrow> bool" where
  "classes_ok s \<longleftrightarrow>
     length (slabclass s) = MAX_NUMBER_OF_SLAB_CLASSES \<and> POWER_SMALLEST \<le> power_largest s \<and>
     power_largest s < MAX_NUMBER_OF_SLAB_CLASSES \<and>
     (\<forall>c. class_range s c \<longrightarrow> 0 < cls_size (slabclass s ! c) \<and> 0 < perslab (slabclass s ! c) \<and>
        cls_size (slabclass s ! c) * perslab (slabclass s ! c) \<le> st_slab_page_size (settings s)) \<and>
     (\<forall>c \<le> power_largest s. slabs (slabclass s ! c) \<le> list_size (slabclass s ! c) \<and>
        list_size (slabclass s ! c) = length (slab_list (slabclass s ! c)))"

definition pages_ok :: "(nat \<Rightarrow> nat) \<Rightarrow> (nat \<Rightarrow> nat list) \<Rightarrow> bool" where
  "pages_ok e P \<longleftrightarrow>
     (\<forall>c. distinct (P c) \<and> 0 \<notin> set (P c)) \<and>
     (\<forall>c d p q. p \<in> set (P c) \<longrightarrow> q \<in> set (P d) \<longrightarrow> (c, p) \<noteq> (d, q) \<longrightarrow> {p..<p + e c} \<inter> {q..<q + e d} = {})"

definition free_ok :: "'a slabs_state_scheme \<Rightarrow> (nat \<Rightarrow> nat list) \<Rightarrow> bool" where
  "free_ok s F \<longleftrightarrow>
     lists_ok (heap s) F \<and>
     (\<forall>c. if class_range s c then slots (slabclass s ! c) = first (F c) \<and> sl_curr (slabclass s ! c) = length (F c)
          else F c = []) \<and>
     (\<forall>c. \<forall>a \<in> set (F c). it_flags (heap s a) = ITEM_SLABBED)"

definition slabs_inv :: "'a slabs_state_scheme \<Rightarrow> bool" where
  "slabs_inv s \<longleftrightarrow>
     classes_ok s \<and> pages_ok (page_extent s) (pages s) \<and> free_ok s (free_list s) \<and>
     (\<forall>c. set (free_list s c) \<subseteq> chunks s c) \<and>
     (\<forall>c. \<forall>a \<in> chunks s c. it_flags (heap s a) = ITEM_SLABBED \<longrightarrow> a \<in> set (free_list s c)) \<and>
     (mem_base s \<noteq> 0 \<longrightarrow> mem_current s \<noteq> 0 \<and>
       (\<forall>c. \<forall>p \<in> set (pages s c). p + page_extent s c \<le> mem_current s))"

section \<open>Free lists are what the pointers say\<close>

lemma free_ok_list:
  assumes "free_ok s F"
  shows "free_list s = F"
proof
  fix c
  have "dll (heap s) 0 (F c) 0" using assms lists_okD(1) [of "heap s" F] by (simp add: free_ok_def)
  then show "free_list s c = F c" using assms walk_dll by (auto simp: free_list_def free_ok_def split: if_splits)
qed

lemma class_range_bound: "classes_ok s \<Longrightarrow> class_range s c \<Longrightarrow> c < length (slabclass s)"
  by (auto simp: classes_ok_def class_range_def)

lemma upd_class_simps [simp]:
  "heap (upd_class c f s) = heap s" "power_largest (upd_class c f s) = power_largest s"
  "settings (upd_class c f s) = settings s" "mem_base (upd_class c f s) = mem_base s"
  "mem_current (upd_class c f s) = mem_current s" "mem_malloced (upd_class c f s) = mem_malloced s"
  "mem_limit (upd_class c f s) = mem_limit s" "length (slabclass (upd_class c f s)) = length (slabclass s)"
  "class_range (upd_class c f s) = class_range s" "slabs_state.more (upd_class c f s) = slabs_state.more s"
  by (simp_all add: upd_class_def class_range_def fun_eq_iff)

lemma upd_item_simps [simp]:
  "heap (upd_item a g s) = (heap s)(a := g (heap s a))" "power_largest (upd_item a g s) = power_largest s"
  "settings (upd_item a g s) = settings s" "mem_base (upd_item a g s) = mem_base s"
  "mem_current (upd_item a g s) = mem_current s" "mem_malloced (upd_item a g s) = mem_malloced s"
  "mem_limit (upd_item a g s) = mem_limit s" "slabclass (upd_item a g s) = slabclass s"
  "class_range (upd_item a g s) = class_range s" "slabs_state.more (upd_item a g s) = slabs_state.more s"
  by (simp_all add: upd_item_def class_range_def fun_eq_iff)

lemma class_range_heap [simp]: "class_range (s\<lparr>heap := h\<rparr>) = class_range s"
  by (simp add: class_range_def fun_eq_iff)

lemma slabclass_upd_class:
  "d < length (slabclass s) \<Longrightarrow> slabclass (upd_class c f s) ! d = (if c = d then f (slabclass s ! d) else slabclass s ! d)"
  by (auto simp: upd_class_def nth_list_update)

text \<open>Operations on a free list change the list's head and count and the memory, nothing else.\<close>

definition only_free :: "nat \<Rightarrow> 'a slabs_state_scheme \<Rightarrow> 'a slabs_state_scheme \<Rightarrow> bool" where
  "only_free c s s' \<longleftrightarrow> c < length (slabclass s) \<and>
     (\<exists>h f n. s' = upd_class c (\<lambda>p. p\<lparr>slots := f, sl_curr := n\<rparr>) (s\<lparr>heap := h\<rparr>))"

lemma only_free_cls:
  assumes "only_free c s s'"
  shows "cls_size (slabclass s' ! d) = cls_size (slabclass s ! d)" "perslab (slabclass s' ! d) = perslab (slabclass s ! d)"
    "slabs (slabclass s' ! d) = slabs (slabclass s ! d)" "slab_list (slabclass s' ! d) = slab_list (slabclass s ! d)"
    "list_size (slabclass s' ! d) = list_size (slabclass s ! d)"
proof -
  obtain h f n where c: "c < length (slabclass s)"
    and s': "s' = upd_class c (\<lambda>p. p\<lparr>slots := f, sl_curr := n\<rparr>) (s\<lparr>heap := h\<rparr>)" using assms by (auto simp: only_free_def)
  have "slabclass s' ! d = slabclass s ! d \<or> slabclass s' ! d = (slabclass s ! d)\<lparr>slots := f, sl_curr := n\<rparr>"
    unfolding s' using c by (cases "c = d") (auto simp: upd_class_def)
  then show "cls_size (slabclass s' ! d) = cls_size (slabclass s ! d)" "perslab (slabclass s' ! d) = perslab (slabclass s ! d)"
    "slabs (slabclass s' ! d) = slabs (slabclass s ! d)" "slab_list (slabclass s' ! d) = slab_list (slabclass s ! d)"
    "list_size (slabclass s' ! d) = list_size (slabclass s ! d)" by auto
qed

lemma only_free_state:
  assumes "only_free c s s'"
  shows "settings s' = settings s" "power_largest s' = power_largest s" "mem_base s' = mem_base s"
    "mem_current s' = mem_current s" "mem_malloced s' = mem_malloced s" "mem_limit s' = mem_limit s"
    "length (slabclass s') = length (slabclass s)" "class_range s' = class_range s" "slabs_state.more s' = slabs_state.more s"
  using assms by (auto simp: only_free_def)

lemma page_chunks_cong: "cls_size p = cls_size q \<Longrightarrow> perslab p = perslab q \<Longrightarrow> page_chunks p = page_chunks q"
  by (simp add: page_chunks_def fun_eq_iff)

lemma only_free_layout:
  assumes "only_free c s s'"
  shows "pages s' = pages s" "chunks s' = chunks s" "page_extent s' = page_extent s" "classes_ok s' = classes_ok s"
proof -
  note o = only_free_cls [OF assms] only_free_state [OF assms]
  show p: "pages s' = pages s" by (simp add: fun_eq_iff pages_def o)
  show "chunks s' = chunks s" by (simp add: fun_eq_iff chunks_def o p page_chunks_cong [of "slabclass s' ! _" "slabclass s ! _"])
  show "page_extent s' = page_extent s" by (simp add: fun_eq_iff page_extent_def page_len_def o)
  show "classes_ok s' = classes_ok s" by (simp add: classes_ok_def o)
qed

lemma only_free_trans:
  assumes "only_free c s t" and "only_free c t u"
  shows "only_free c s u"
proof -
  obtain h f n h' f' n' where "c < length (slabclass s)" and "t = upd_class c (\<lambda>p. p\<lparr>slots := f, sl_curr := n\<rparr>) (s\<lparr>heap := h\<rparr>)"
    and "u = upd_class c (\<lambda>p. p\<lparr>slots := f', sl_curr := n'\<rparr>) (t\<lparr>heap := h'\<rparr>)"
    using assms by (auto simp: only_free_def)
  then have "u = upd_class c (\<lambda>p. p\<lparr>slots := f', sl_curr := n'\<rparr>) (s\<lparr>heap := h'\<rparr>)"
    by (simp add: upd_class_def)
  with assms show ?thesis unfolding only_free_def by blast
qed

lemma only_free_heap: "c < length (slabclass s) \<Longrightarrow> only_free c s (s\<lparr>heap := h\<rparr>)"
  unfolding only_free_def by (intro conjI exI [of _ h] exI [of _ "slots (slabclass s ! c)"] exI [of _ "sl_curr (slabclass s ! c)"])
    (simp_all add: upd_class_def)

section \<open>Putting a chunk on a free list\<close>

lemma free_okD:
  assumes "free_ok s F"
  shows "lists_ok (heap s) F" "class_range s c \<Longrightarrow> slots (slabclass s ! c) = first (F c)"
    "class_range s c \<Longrightarrow> sl_curr (slabclass s ! c) = length (F c)" "\<not> class_range s c \<Longrightarrow> F c = []"
    "a \<in> set (F c) \<Longrightarrow> it_flags (heap s a) = ITEM_SLABBED" "0 \<notin> set (F c)"
  using assms lists_okD(4) [of "heap s" F] unfolding free_ok_def by (presburger, presburger, presburger, presburger, blast, blast)

lemma push_slot_fields [simp]:
  "heap (push_slot c a s) = link_head (heap s) a (slots (slabclass s ! c))"
  "class_range (push_slot c a s) = class_range s" "length (slabclass (push_slot c a s)) = length (slabclass s)"
  by (simp_all add: push_slot_def)

lemma push_slot_only_free: "c < length (slabclass s) \<Longrightarrow> only_free c s (push_slot c a (upd_item a g s))"
  unfolding only_free_def push_slot_def upd_class_def by (intro conjI exI) (simp_all add: upd_item_def)

lemma push_free_ok:
  assumes f: "free_ok s F" and c: "classes_ok s" "class_range s c" and a: "a \<noteq> 0" "\<And>r. a \<notin> set (F r)"
    and g: "it_flags (g (heap s a)) = ITEM_SLABBED"
  shows "free_ok (push_slot c a (upd_item a g s)) (F(c := a # F c))"
proof -
  note fD = free_okD [OF f]
  have len: "c < length (slabclass s)" using class_range_bound [OF c] .
  have "lists_ok ((heap s)(a := g (heap s a))) F" using a(2) by (intro lists_ok_cong [OF fD(1)]) auto
  from lists_ok_link [OF this a, of c]
  have lists: "lists_ok (heap (push_slot c a (upd_item a g s))) (F(c := a # F c))" by (simp add: fD(2) [OF c(2)])
  have flags: "it_flags (heap (push_slot c a (upd_item a g s)) b) = ITEM_SLABBED" if "b \<in> set ((F(c := a # F c)) r)" for b r
  proof -
    have "it_flags (((heap s)(a := g (heap s a))) b) = ITEM_SLABBED" using that g fD(5) by (auto split: if_splits)
    then show ?thesis using same_but_links_simps(5) [OF link_head_same] by simp
  qed
  have counts: "slots (slabclass (push_slot c a (upd_item a g s)) ! r) = first ((F(c := a # F c)) r) \<and>
      sl_curr (slabclass (push_slot c a (upd_item a g s)) ! r) = length ((F(c := a # F c)) r)" if "class_range s r" for r
    using len fD(2,3) [OF that] by (cases "r = c") (simp_all add: push_slot_def upd_class_def)
  have out: "(F(c := a # F c)) r = []" if "\<not> class_range s r" for r using that c(2) fD(4) by auto
  show ?thesis unfolding free_ok_def using lists counts out flags by auto
qed

lemma push_frame:
  assumes f: "free_ok s F" and c: "class_range s c" and b: "b \<noteq> a" "b \<notin> set (F c)" "b \<noteq> 0"
  shows "heap (push_slot c a (upd_item a g s)) b = heap s b"
proof -
  have "b \<noteq> first (F c)" using b first_in_set [of "F c"] by metis
  with b show ?thesis by (simp add: link_head_other free_okD(2) [OF f c])
qed

section \<open>Cutting a page\<close>

lemma do_slabs_free_plain:
  assumes "class_range s c" and "it_flags (heap s a) AND ITEM_CHUNKED = 0"
  shows "do_slabs_free a c s =
    Some (push_slot c a (upd_item a (\<lambda>i. i\<lparr>it_flags := ITEM_SLABBED, it_clsid := of_nat c\<rparr>) s))"
  using assms by (auto simp: do_slabs_free_def class_range_def)

lemma split_loop_free:
  assumes "free_ok s F" "classes_ok s" "class_range s c" "ptr \<noteq> 0" "0 < cls_size (slabclass s ! c)"
    and "\<And>k. k < n \<Longrightarrow> it_flags (heap s (ptr + k * cls_size (slabclass s ! c))) = 0"
    and "\<And>k r. k < n \<Longrightarrow> ptr + k * cls_size (slabclass s ! c) \<notin> set (F r)"
  shows "\<exists>s'. split_loop n ptr c s = Some s' \<and> only_free c s s' \<and>
    free_ok s' (F(c := rev (map (\<lambda>k. ptr + k * cls_size (slabclass s ! c)) [0..<n]) @ F c)) \<and>
    (\<forall>b. b \<noteq> 0 \<longrightarrow> b \<notin> set (F c) \<longrightarrow> b \<notin> (\<lambda>k. ptr + k * cls_size (slabclass s ! c)) ` {..<n} \<longrightarrow> heap s' b = heap s b)"
  using assms
proof (induction n arbitrary: ptr s F)
  case 0
  have "only_free c s s" using only_free_heap [OF class_range_bound [OF 0(2,3)], of "heap s"] by simp
  with 0 show ?case by simp
next
  case (Suc n)
  let ?z = "cls_size (slabclass s ! c)" and ?g = "\<lambda>i. i\<lparr>it_flags := ITEM_SLABBED, it_clsid := of_nat c\<rparr>"
  let ?s = "push_slot c ptr (upd_item ptr ?g s)" and ?F = "F(c := ptr # F c)"
  have p0: "it_flags (heap s ptr) = 0" "\<And>r. ptr \<notin> set (F r)" using Suc.prems(6,7) [of 0] by simp_all
  have step: "do_slabs_free ptr c s = Some ?s" using Suc.prems(3) p0 by (simp add: do_slabs_free_plain)
  have only: "only_free c s ?s" by (rule push_slot_only_free) (rule class_range_bound [OF Suc.prems(2,3)])
  have z: "cls_size (slabclass ?s ! c) = ?z" by (rule only_free_cls(1) [OF only])
  have f: "free_ok ?s ?F" using Suc.prems(1-4) p0(2) by (intro push_free_ok) simp_all
  have far: "ptr + ?z + k * ?z = ptr + Suc k * ?z" for k by simp
  have frame: "heap ?s b = heap s b" if "b \<noteq> ptr" "b \<notin> set (F c)" "b \<noteq> 0" for b
    using that by (intro push_frame [OF Suc.prems(1,3)])
  have nxt: "ptr + Suc k * ?z \<notin> set (F r)" "it_flags (heap s (ptr + Suc k * ?z)) = 0" if "k < n" for k r
    using Suc.prems(6,7) [of "Suc k"] that by simp_all
  have ne: "ptr + Suc k * ?z \<noteq> ptr" for k using Suc.prems(5) by simp
  have "\<exists>s'. split_loop n (ptr + ?z) c ?s = Some s' \<and> only_free c ?s s' \<and>
      free_ok s' (?F(c := rev (map (\<lambda>k. ptr + ?z + k * ?z) [0..<n]) @ ?F c)) \<and>
      (\<forall>b. b \<noteq> 0 \<longrightarrow> b \<notin> set (?F c) \<longrightarrow> b \<notin> (\<lambda>k. ptr + ?z + k * ?z) ` {..<n} \<longrightarrow> heap s' b = heap ?s b)"
  proof (rule Suc.IH [of ?s ?F "ptr + ?z", unfolded z, OF f])
    show "classes_ok ?s" "class_range ?s c" "ptr + ?z \<noteq> 0" "0 < ?z"
      using Suc.prems only_free_layout(4) [OF only] by simp_all
    show "ptr + ?z + k * ?z \<notin> set (?F r)" if "k < n" for k r using nxt(1) [OF that] ne [of k] unfolding far by auto
    show "it_flags (heap ?s (ptr + ?z + k * ?z)) = 0" if "k < n" for k
      unfolding far using nxt [OF that] ne [of k] Suc.prems(4) by (subst frame) simp_all
  qed
  then obtain s' where s': "split_loop n (ptr + ?z) c ?s = Some s'" "only_free c ?s s'"
      "free_ok s' (?F(c := rev (map (\<lambda>k. ptr + Suc k * ?z) [0..<n]) @ ?F c))"
      and fr: "\<And>b. b \<noteq> 0 \<Longrightarrow> b \<notin> set (?F c) \<Longrightarrow> b \<notin> (\<lambda>k. ptr + Suc k * ?z) ` {..<n} \<Longrightarrow> heap s' b = heap ?s b"
    unfolding far by blast
  have upt: "map (\<lambda>k. ptr + k * ?z) [0..<Suc n] = ptr # map (\<lambda>k. ptr + Suc k * ?z) [0..<n]"
    by (simp only: upt_conv_Cons [of 0 "Suc n"] map_Suc_upt [symmetric] map_map) (simp add: comp_def)
  have img: "(\<lambda>k. ptr + k * ?z) ` {..<Suc n} = insert ptr ((\<lambda>k. ptr + Suc k * ?z) ` {..<n})"
    by (simp only: lessThan_Suc_eq_insert_0 image_insert image_image) simp
  have "heap s' b = heap s b" if "b \<noteq> 0" "b \<notin> set (F c)" "b \<notin> (\<lambda>k. ptr + k * ?z) ` {..<Suc n}" for b
    using fr [of b] frame [of b] that unfolding img by simp
  moreover have "free_ok s' (F(c := rev (map (\<lambda>k. ptr + k * ?z) [0..<Suc n]) @ F c))"
    unfolding upt using s'(3) by (simp only: fun_upd_upd fun_upd_same rev.simps append_assoc append.simps)
  moreover have "split_loop (Suc n) ptr c s = Some s'" using step s'(1) by simp
  ultimately show ?case using only_free_trans [OF only s'(2)] by blast
qed

section \<open>A new page\<close>

lemma slabs_invD:
  assumes "slabs_inv s"
  shows "classes_ok s" "pages_ok (page_extent s) (pages s)" "free_ok s (free_list s)" "set (free_list s c) \<subseteq> chunks s c"
    "a \<in> chunks s c \<Longrightarrow> it_flags (heap s a) = ITEM_SLABBED \<Longrightarrow> a \<in> set (free_list s c)"
    "mem_base s \<noteq> 0 \<Longrightarrow> mem_current s \<noteq> 0"
    "mem_base s \<noteq> 0 \<Longrightarrow> p \<in> set (pages s c) \<Longrightarrow> p + page_extent s c \<le> mem_current s"
  using assms unfolding slabs_inv_def by (blast, blast, blast, blast, blast, blast, blast)

lemma classes_okD:
  assumes "classes_ok s"
  shows "length (slabclass s) = 64" "1 \<le> power_largest s" "power_largest s < 64"
    "class_range s c \<Longrightarrow> 0 < cls_size (slabclass s ! c)" "class_range s c \<Longrightarrow> 0 < perslab (slabclass s ! c)"
    "class_range s c \<Longrightarrow> cls_size (slabclass s ! c) * perslab (slabclass s ! c) \<le> st_slab_page_size (settings s)"
    "c \<le> power_largest s \<Longrightarrow> slabs (slabclass s ! c) \<le> length (slab_list (slabclass s ! c))"
    "c \<le> power_largest s \<Longrightarrow> list_size (slabclass s ! c) = length (slab_list (slabclass s ! c))"
  using assms unfolding classes_ok_def by (simp, simp, simp, simp, simp, simp, metis, simp)

lemma extent_bounds:
  assumes "classes_ok s" "class_range s c"
  shows "cls_size (slabclass s ! c) * perslab (slabclass s ! c) \<le> page_len s c" "page_len s c \<le> st_slab_page_size (settings s)"
    "page_extent s c = page_len s c" "0 < page_len s c"
proof -
  note c = classes_okD(4-6) [OF assms(1,2)]
  show le: "cls_size (slabclass s ! c) * perslab (slabclass s ! c) \<le> page_len s c" using c by (simp add: page_len_def)
  show "page_len s c \<le> st_slab_page_size (settings s)" using c by (simp add: page_len_def)
  show "page_extent s c = page_len s c" using assms(2) by (auto simp: page_extent_def class_range_def)
  have "0 < cls_size (slabclass s ! c) * perslab (slabclass s ! c)" using c by simp
  with le show "0 < page_len s c" by linarith
qed

lemma page_chunks_range:
  assumes "classes_ok s" "class_range s c" "a \<in> set (page_chunks (slabclass s ! c) pg)"
  shows "pg \<le> a \<and> a + cls_size (slabclass s ! c) \<le> pg + page_len s c"
proof -
  let ?z = "cls_size (slabclass s ! c)"
  obtain k where k: "k < perslab (slabclass s ! c)" and a: "a = pg + k * ?z" using assms(3) by (auto simp: page_chunks_def)
  then have "Suc k * ?z \<le> perslab (slabclass s ! c) * ?z" by (intro mult_le_mono1) simp
  also have "\<dots> \<le> page_len s c" using extent_bounds(1) [OF assms(1,2)] by (simp add: mult.commute)
  finally show ?thesis using a by simp
qed

lemma chunkE:
  assumes "classes_ok s" "a \<in> chunks s c"
  obtains pg where "class_range s c" "pg \<in> set (pages s c)" "a \<in> set (page_chunks (slabclass s ! c) pg)"
    "pg \<le> a" "a < pg + page_extent s c"
proof -
  from assms(2) obtain pg where r: "class_range s c" and pg: "pg \<in> set (pages s c)" "a \<in> set (page_chunks (slabclass s ! c) pg)"
    by (auto simp: chunks_def split: if_splits)
  have "pg \<le> a" "a + cls_size (slabclass s ! c) \<le> pg + page_len s c" using page_chunks_range [OF assms(1) r pg(2)] by auto
  with classes_okD(4) [OF assms(1) r] extent_bounds(3) [OF assms(1) r] show ?thesis by (intro that [OF r pg]) linarith+
qed

lemma chunk_not_null:
  assumes "slabs_inv s" "a \<in> chunks s c"
  shows "a \<noteq> 0"
  using chunkE [OF slabs_invD(1) [OF assms(1)] assms(2)] slabs_invD(2) [OF assms(1)]
  by (metis le_zero_eq pages_ok_def)

lemma take_Suc_update: "n < length xs \<Longrightarrow> take (Suc n) (xs[n := y]) = take n xs @ [y]"
  by (simp add: take_Suc_conv_app_nth)

lemma add_page_simps [simp]:
  "heap (add_page c pg s) = heap s" "class_range (add_page c pg s) = class_range s"
  "settings (add_page c pg s) = settings s" "power_largest (add_page c pg s) = power_largest s"
  "mem_base (add_page c pg s) = mem_base s" "mem_current (add_page c pg s) = mem_current s"
  "slabs_state.more (add_page c pg s) = slabs_state.more s"
  by (simp_all add: add_page_def)

lemma add_page_class:
  "slots (slabclass (add_page c pg s) ! d) = slots (slabclass s ! d)"
  "sl_curr (slabclass (add_page c pg s) ! d) = sl_curr (slabclass s ! d)"
  "cls_size (slabclass (add_page c pg s) ! d) = cls_size (slabclass s ! d)"
  "perslab (slabclass (add_page c pg s) ! d) = perslab (slabclass s ! d)"
  "page_extent (add_page c pg s) = page_extent s"
  "page_chunks (slabclass (add_page c pg s) ! d) = page_chunks (slabclass s ! d)"
proof -
  have *: "slabclass (add_page c pg s) ! d = slabclass s ! d \<or>
      slabclass (add_page c pg s) ! d = (slabclass s ! d)\<lparr>slab_list := (slab_list (slabclass s ! d))[slabs (slabclass s ! d) := pg],
        slabs := slabs (slabclass s ! d) + 1\<rparr>" for d
    by (cases "c = d"; cases "c < length (slabclass s)") (simp_all add: add_page_def upd_class_def list_update_beyond not_less)
  show sz: "cls_size (slabclass (add_page c pg s) ! d) = cls_size (slabclass s ! d)"
    "perslab (slabclass (add_page c pg s) ! d) = perslab (slabclass s ! d)" for d using * [of d] by auto
  show "slots (slabclass (add_page c pg s) ! d) = slots (slabclass s ! d)"
    "sl_curr (slabclass (add_page c pg s) ! d) = sl_curr (slabclass s ! d)" using * [of d] by auto
  show "page_extent (add_page c pg s) = page_extent s" by (simp add: fun_eq_iff page_extent_def page_len_def sz)
  show "page_chunks (slabclass (add_page c pg s) ! d) = page_chunks (slabclass s ! d)" by (rule page_chunks_cong) (simp_all add: sz)
qed

lemma pages_add_page:
  assumes "classes_ok s" "c \<le> power_largest s" "slabs (slabclass s ! c) < length (slab_list (slabclass s ! c))"
  shows "pages (add_page c pg s) = (pages s)(c := pages s c @ [pg])" "classes_ok (add_page c pg s)"
proof -
  have len: "c < length (slabclass s)" using classes_okD(1,3) [OF assms(1)] assms(2) by simp
  have nth: "slabclass (add_page c pg s) ! d = (if d = c then (slabclass s ! c)\<lparr>slab_list := (slab_list (slabclass s ! c))[slabs (slabclass s ! c) := pg],
        slabs := slabs (slabclass s ! c) + 1\<rparr> else slabclass s ! d)" for d
    using len by (simp add: add_page_def upd_class_def)
  show "pages (add_page c pg s) = (pages s)(c := pages s c @ [pg])"
    using assms(2,3) by (auto simp: fun_eq_iff pages_def nth take_Suc_update)
  show "classes_ok (add_page c pg s)"
    using assms classes_okD(7,8) [OF assms(1)] unfolding classes_ok_def by (auto simp: nth) (simp add: add_page_def)
qed

lemma free_ok_add_page: "free_ok (add_page c pg s) F = free_ok s F"
  by (simp add: free_ok_def add_page_class)

text \<open>Chunks are blocks of memory, and no two of them overlap.\<close>

lemma page_chunks_disjoint:
  assumes "a \<in> set (page_chunks p pg)" "b \<in> set (page_chunks p pg)" "a \<noteq> b"
  shows "{a..<a + cls_size p} \<inter> {b..<b + cls_size p} = {}"
proof -
  obtain j k where j: "a = pg + j * cls_size p" and k: "b = pg + k * cls_size p" using assms by (auto simp: page_chunks_def)
  then consider "j < k" | "k < j" using assms(3) by (metis linorder_less_linear)
  then show ?thesis
  proof cases
    case 1
    then have "Suc j * cls_size p \<le> k * cls_size p" by (intro mult_le_mono1) simp
    then show ?thesis using j k by auto
  next
    case 2
    then have "Suc k * cls_size p \<le> j * cls_size p" by (intro mult_le_mono1) simp
    then show ?thesis using j k by auto
  qed
qed

lemma chunk_blocks_disjoint:
  assumes inv: "slabs_inv s" and a: "a \<in> chunks s c" and b: "b \<in> chunks s d" and ne: "(c, a) \<noteq> (d, b)"
  shows "{a..<a + cls_size (slabclass s ! c)} \<inter> {b..<b + cls_size (slabclass s ! d)} = {}"
proof -
  note C = slabs_invD(1) [OF inv]
  obtain p where p: "class_range s c" "p \<in> set (pages s c)" "a \<in> set (page_chunks (slabclass s ! c) p)" using chunkE [OF C a] .
  obtain q where q: "class_range s d" "q \<in> set (pages s d)" "b \<in> set (page_chunks (slabclass s ! d) q)" using chunkE [OF C b] .
  show ?thesis
  proof (cases "(c, p) = (d, q)")
    case True
    with p q ne show ?thesis using page_chunks_disjoint by blast
  next
    case False
    then have "{p..<p + page_extent s c} \<inter> {q..<q + page_extent s d} = {}"
      using slabs_invD(2) [OF inv] p(2) q(2) unfolding pages_ok_def by blast
    then show ?thesis
      using page_chunks_range [OF C p(1,3)] page_chunks_range [OF C q(1,3)] extent_bounds(3) [OF C p(1)] extent_bounds(3) [OF C q(1)]
      by (auto simp: disjoint_iff)
  qed
qed

lemma chunks_unique:
  assumes inv: "slabs_inv s" and a: "a \<in> chunks s c" "a \<in> chunks s d"
  shows "c = d"
proof (rule ccontr)
  assume ne: "c \<noteq> d"
  have "class_range s c" "class_range s d" using a by (auto simp: chunks_def split: if_splits)
  then have "0 < cls_size (slabclass s ! c)" "0 < cls_size (slabclass s ! d)" using classes_okD(4) [OF slabs_invD(1) [OF inv]] by auto
  with chunk_blocks_disjoint [OF inv a] ne show False by auto
qed

definition fresh_range :: "'a slabs_state_scheme \<Rightarrow> nat \<Rightarrow> nat \<Rightarrow> bool" where
  "fresh_range s pg len \<longleftrightarrow>
     pg \<noteq> 0 \<and> (\<forall>c. \<forall>p \<in> set (pages s c). {pg..<pg + len} \<inter> {p..<p + page_extent s c} = {})"

lemma pages_ok_add:
  assumes ok: "pages_ok e P" and pg: "pg \<noteq> 0" "0 < e c"
    and fresh: "\<And>d p. p \<in> set (P d) \<Longrightarrow> {pg..<pg + e c} \<inter> {p..<p + e d} = {}"
  shows "pages_ok e (P(c := P c @ [pg]))"
proof -
  have "pg \<notin> set (P c)" using fresh [of pg c] pg by auto
  with ok pg have "distinct ((P(c := P c @ [pg])) d) \<and> 0 \<notin> set ((P(c := P c @ [pg])) d)" for d by (simp add: pages_ok_def)
  moreover have "{p..<p + e d} \<inter> {q..<q + e d'} = {}"
    if "p \<in> set ((P(c := P c @ [pg])) d)" "q \<in> set ((P(c := P c @ [pg])) d')" "(d, p) \<noteq> (d', q)" for d d' p q
  proof -
    note ne = that(3)
    have "(p \<in> set (P d) \<or> d = c \<and> p = pg) \<and> (q \<in> set (P d') \<or> d' = c \<and> q = pg)" using that(1,2) by (auto split: if_splits)
    then consider "p \<in> set (P d)" "q \<in> set (P d')" | "d = c" "p = pg" "q \<in> set (P d')" | "p \<in> set (P d)" "d' = c" "q = pg"
      using ne by blast
    then show ?thesis
    proof cases
      case 1
      with ok ne show ?thesis unfolding pages_ok_def by blast
    next
      case 2
      with fresh show ?thesis by simp
    next
      case 3
      with fresh [of p d] show ?thesis by (simp add: Int_commute)
    qed
  qed
  ultimately show ?thesis unfolding pages_ok_def by blast
qed

lemma free_in_pages:
  assumes "slabs_inv s" "a \<in> set (free_list s c)"
  obtains p where "p \<in> set (pages s c)" "a \<in> {p..<p + page_extent s c}"
  using slabs_invD(4) [OF assms(1)] assms(2) chunkE [OF slabs_invD(1) [OF assms(1)]]
  by (metis atLeastLessThan_iff subsetD)

lemma fresh_not_free:
  assumes "slabs_inv s" "fresh_range s pg len" "a \<in> {pg..<pg + len}"
  shows "a \<notin> set (free_list s c)" "a \<notin> chunks s c"
  using assms free_in_pages [OF assms(1)] chunkE [OF slabs_invD(1) [OF assms(1)]] unfolding fresh_range_def
  by (metis disjoint_iff, metis disjoint_iff atLeastLessThan_iff)

lemma page_chunks_fresh:
  assumes "slabs_inv s" "class_range s c"
  shows "set (page_chunks (slabclass s ! c) pg) \<subseteq> {pg..<pg + page_len s c}"
proof
  fix a assume "a \<in> set (page_chunks (slabclass s ! c) pg)"
  from page_chunks_range [OF slabs_invD(1) [OF assms(1)] assms(2) this] classes_okD(4) [OF slabs_invD(1) [OF assms(1)] assms(2)]
  show "a \<in> {pg..<pg + page_len s c}" by simp
qed

lemma cut_page:
  assumes inv: "slabs_inv s" and c: "class_range s c" and fresh: "fresh_range s pg (page_len s c)"
  defines "s0 \<equiv> s\<lparr>heap := zero_range pg (page_len s c) (heap s)\<rparr>"
    and "F \<equiv> (free_list s)(c := rev (page_chunks (slabclass s ! c) pg) @ free_list s c)"
  shows "\<exists>s'. split_slab_page_into_freelist pg c s0 = Some s' \<and> only_free c s s' \<and> free_ok s' F \<and>
    (\<forall>b. b \<noteq> 0 \<longrightarrow> b \<notin> set (free_list s c) \<longrightarrow> b \<notin> {pg..<pg + page_len s c} \<longrightarrow> heap s' b = heap s b)"
proof -
  note D = slabs_invD [OF inv] and fD = free_okD [OF slabs_invD(3) [OF inv]]
  have only0: "only_free c s s0" unfolding s0_def by (rule only_free_heap) (rule class_range_bound [OF D(1) c])
  have out: "b \<notin> {pg..<pg + page_len s c}" if "b \<in> set (free_list s r)" for b r
    using fresh_not_free(1) [OF inv fresh, of b r] that by blast
  have "lists_ok (heap s0) (free_list s)" using out by (intro lists_ok_cong [OF fD(1)]) (auto simp: s0_def zero_range_def)
  then have f0: "free_ok s0 (free_list s)" using D(3) out by (auto simp: free_ok_def s0_def zero_range_def class_range_def)
  let ?z = "cls_size (slabclass s ! c)" and ?n = "perslab (slabclass s ! c)"
  have mem: "pg + k * ?z \<in> {pg..<pg + page_len s c}" if "k < ?n" for k
    using page_chunks_fresh [OF inv c, of pg] that by (auto simp: page_chunks_def image_subset_iff)
  have "\<exists>s'. split_loop ?n pg c s0 = Some s' \<and> only_free c s0 s' \<and>
    free_ok s' ((free_list s)(c := rev (map (\<lambda>k. pg + k * cls_size (slabclass s0 ! c)) [0..<?n]) @ free_list s c)) \<and>
    (\<forall>b. b \<noteq> 0 \<longrightarrow> b \<notin> set (free_list s c) \<longrightarrow> b \<notin> (\<lambda>k. pg + k * cls_size (slabclass s0 ! c)) ` {..<?n} \<longrightarrow> heap s' b = heap s0 b)"
  proof (rule split_loop_free [OF f0])
    show "classes_ok s0" "class_range s0 c" using D(1) c only_free_layout(4) [OF only0] by (simp_all add: s0_def)
    show "pg \<noteq> 0" using fresh by (simp add: fresh_range_def)
    show "0 < cls_size (slabclass s0 ! c)" using classes_okD(4) [OF D(1) c] by (simp add: s0_def)
    fix k assume k: "k < ?n"
    show "it_flags (heap s0 (pg + k * cls_size (slabclass s0 ! c))) = 0"
      using mem [OF k] by (simp add: s0_def zero_range_def zero_item_def)
    show "pg + k * cls_size (slabclass s0 ! c) \<notin> set (free_list s r)" for r
      using mem [OF k] out [of "pg + k * ?z" r] by (auto simp: s0_def)
  qed
  then obtain s' where s': "split_loop ?n pg c s0 = Some s'" "only_free c s0 s'"
      "free_ok s' ((free_list s)(c := rev (map (\<lambda>k. pg + k * ?z) [0..<?n]) @ free_list s c))"
    and fr: "\<And>b. b \<noteq> 0 \<Longrightarrow> b \<notin> set (free_list s c) \<Longrightarrow> b \<notin> (\<lambda>k. pg + k * ?z) ` {..<?n} \<Longrightarrow> heap s' b = heap s0 b"
    by (auto simp: s0_def)
  have "heap s' b = heap s b" if "b \<noteq> 0" "b \<notin> set (free_list s c)" "b \<notin> {pg..<pg + page_len s c}" for b
    using that mem by (subst fr) (auto simp: s0_def zero_range_def)
  with s' only_free_trans [OF only0 s'(2)] show ?thesis
    by (auto simp: F_def page_chunks_def split_slab_page_into_freelist_def s0_def)
qed

lemma install_page:
  assumes inv: "slabs_inv s" and c: "class_range s c" and fresh: "fresh_range s pg (page_len s c)"
    and room: "slabs (slabclass s ! c) < length (slab_list (slabclass s ! c))"
    and cur: "mem_base s \<noteq> 0 \<Longrightarrow> pg + page_len s c \<le> mem_current s"
    and cut: "only_free c s s'" "free_ok s' ((free_list s)(c := rev (page_chunks (slabclass s ! c) pg) @ free_list s c))"
    and frame: "\<And>b. b \<noteq> 0 \<Longrightarrow> b \<notin> set (free_list s c) \<Longrightarrow> b \<notin> {pg..<pg + page_len s c} \<Longrightarrow> heap s' b = heap s b"
  shows "slabs_inv (add_page c pg s')" "pages (add_page c pg s') = (pages s)(c := pages s c @ [pg])"
    "free_list (add_page c pg s') = (free_list s)(c := rev (page_chunks (slabclass s ! c) pg) @ free_list s c)"
proof -
  let ?s = "add_page c pg s'" and ?F = "(free_list s)(c := rev (page_chunks (slabclass s ! c) pg) @ free_list s c)"
  note D = slabs_invD [OF inv] and lay = only_free_layout [OF cut(1)] and cls = only_free_cls [OF cut(1)]
    and st = only_free_state [OF cut(1)]
  have le: "c \<le> power_largest s" using c by (simp add: class_range_def)
  have cs': "classes_ok s'" using D(1) lay by simp
  have P: "pages ?s = (pages s)(c := pages s c @ [pg])" and C: "classes_ok ?s"
    using pages_add_page [OF cs', of c pg] le room by (simp_all add: st cls lay)
  then show "pages ?s = (pages s)(c := pages s c @ [pg])" by simp
  have e: "page_extent ?s = page_extent s" by (simp add: add_page_class lay)
  have ec: "page_extent s c = page_len s c" "0 < page_extent s c" using extent_bounds(3,4) [OF D(1) c] by simp_all
  have Pok: "pages_ok (page_extent ?s) (pages ?s)"
    unfolding P e using fresh ec by (intro pages_ok_add D(2)) (simp_all add: fresh_range_def)
  have F: "free_ok ?s ?F" using cut(2) by (simp add: free_ok_add_page)
  from free_ok_list [OF this] show Fl: "free_list ?s = ?F" .
  have pc: "page_chunks (slabclass s' ! d) = page_chunks (slabclass s ! d)" for d by (rule page_chunks_cong) (simp_all add: cls)
  have ch: "chunks ?s d = (if d = c then set (page_chunks (slabclass s ! c) pg) \<union> chunks s c else chunks s d)" for d
    using c by (auto simp: chunks_def P st add_page_class pc)
  have sub: "set (?F d) \<subseteq> chunks ?s d" for d using D(4) [of d] by (auto simp: ch)
  have slabbed: "a \<in> set (?F d)" if "a \<in> chunks ?s d" "it_flags (heap ?s a) = ITEM_SLABBED" for a d
  proof -
    consider "a \<in> {pg..<pg + page_len s c}" | "a \<in> set (free_list s c)"
      | "a \<notin> {pg..<pg + page_len s c}" "a \<notin> set (free_list s c)" by blast
    then show ?thesis
    proof cases
      case 1
      with that(1) fresh_not_free(2) [OF inv fresh] show ?thesis by (auto simp: ch split: if_splits)
    next
      case 2
      with that(1) D(4) [of c] chunks_unique [OF inv, of a c d] show ?thesis by (auto simp: ch split: if_splits)
    next
      case 3
      then have a: "a \<in> chunks s d" using that(1) page_chunks_fresh [OF inv c, of pg] by (auto simp: ch split: if_splits)
      with 3 frame chunk_not_null [OF inv a] that(2) have "it_flags (heap s a) = ITEM_SLABBED" by simp
      with a have "a \<in> set (free_list s d)" by (rule D(5))
      then show ?thesis by auto
    qed
  qed
  have "p + page_extent ?s d \<le> mem_current ?s" if "mem_base s \<noteq> 0" "p \<in> set (pages ?s d)" for p d
    using D(7) [OF that(1), of p d] cur [OF that(1)] that(2) by (auto simp: P e st ec(1) split: if_splits)
  then show "slabs_inv ?s" unfolding slabs_inv_def Fl using C Pok F sub slabbed D(6) by (simp add: st)
qed

section \<open>Where pages come from\<close>

text \<open>Changes of the byte counts alone are invisible to the invariant.\<close>

definition same_layout :: "'a slabs_state_scheme \<Rightarrow> 'a slabs_state_scheme \<Rightarrow> bool" where
  "same_layout s t \<longleftrightarrow>
     heap t = heap s \<and> slabclass t = slabclass s \<and> settings t = settings s \<and> power_largest t = power_largest s \<and>
     mem_base t = mem_base s \<and> slabs_state.more t = slabs_state.more s"

lemma same_layout_eq:
  assumes "same_layout s t"
  shows "pages t = pages s" "free_list t = free_list s" "chunks t = chunks s" "page_extent t = page_extent s"
    "page_len t = page_len s" "class_range t = class_range s" "classes_ok t = classes_ok s" "free_ok t = free_ok s"
    "fresh_range t = fresh_range s"
proof -
  note d = assms [unfolded same_layout_def]
  show c: "class_range t = class_range s" using d by (simp add: class_range_def fun_eq_iff)
  show p: "pages t = pages s" using d by (simp add: pages_def fun_eq_iff)
  have "free_list t x = free_list s x" for x using d c by (simp add: free_list_def)
  then show "free_list t = free_list s" ..
  show "chunks t = chunks s" using d c p by (simp add: chunks_def fun_eq_iff)
  show l: "page_len t = page_len s" using d by (simp add: page_len_def fun_eq_iff)
  show e: "page_extent t = page_extent s" using d l by (simp add: page_extent_def fun_eq_iff)
  show "classes_ok t = classes_ok s" using d c by (simp add: classes_ok_def)
  have "free_ok t F = free_ok s F" for F using d c by (simp add: free_ok_def)
  then show "free_ok t = free_ok s" ..
  show "fresh_range t = fresh_range s" using p e by (simp add: fresh_range_def fun_eq_iff)
qed

lemma same_layout_inv:
  assumes "same_layout s t" "mem_current s \<le> mem_current t" "slabs_inv s"
  shows "slabs_inv t"
proof -
  note d = assms(1) [unfolded same_layout_def]
  have "p + page_extent s c \<le> mem_current t" if "mem_base s \<noteq> 0" "p \<in> set (pages s c)" for p c
    using slabs_invD(7) [OF assms(3) that] assms(2) by linarith
  moreover have "mem_current t \<noteq> 0" if "mem_base s \<noteq> 0" using slabs_invD(6) [OF assms(3) that] assms(2) by linarith
  ultimately show ?thesis using assms(3) d unfolding slabs_inv_def same_layout_eq [OF assms(1)] by simp
qed

text \<open>Changes of a class's page list alone.\<close>

definition keeps_free :: "(slabclass_t \<Rightarrow> slabclass_t) \<Rightarrow> bool" where
  "keeps_free f \<longleftrightarrow> (\<forall>p. cls_size (f p) = cls_size p \<and> perslab (f p) = perslab p \<and> slots (f p) = slots p \<and> sl_curr (f p) = sl_curr p)"

lemma keeps_free_eq:
  assumes f: "keeps_free f" and c: "c < length (slabclass s)"
  shows "free_list (upd_class c f s) = free_list s" "page_len (upd_class c f s) = page_len s"
    "page_extent (upd_class c f s) = page_extent s" "free_ok (upd_class c f s) = free_ok s"
    "cls_size (slabclass (upd_class c f s) ! d) = cls_size (slabclass s ! d)"
    "perslab (slabclass (upd_class c f s) ! d) = perslab (slabclass s ! d)"
    "page_chunks (slabclass (upd_class c f s) ! d) = page_chunks (slabclass s ! d)"
proof -
  have *: "cls_size (slabclass (upd_class c f s) ! d) = cls_size (slabclass s ! d) \<and>
    perslab (slabclass (upd_class c f s) ! d) = perslab (slabclass s ! d) \<and>
    slots (slabclass (upd_class c f s) ! d) = slots (slabclass s ! d) \<and>
    sl_curr (slabclass (upd_class c f s) ! d) = sl_curr (slabclass s ! d)" for d
    using f c by (cases "c = d") (simp_all add: upd_class_def keeps_free_def)
  then show "cls_size (slabclass (upd_class c f s) ! d) = cls_size (slabclass s ! d)"
    "perslab (slabclass (upd_class c f s) ! d) = perslab (slabclass s ! d)" by simp_all
  show "free_list (upd_class c f s) = free_list s" using * by (simp add: free_list_def fun_eq_iff)
  show l: "page_len (upd_class c f s) = page_len s" using * by (simp add: page_len_def fun_eq_iff)
  show "page_extent (upd_class c f s) = page_extent s" using l by (simp add: page_extent_def fun_eq_iff)
  show "free_ok (upd_class c f s) = free_ok s" using * by (simp add: free_ok_def fun_eq_iff)
  show "page_chunks (slabclass (upd_class c f s) ! d) = page_chunks (slabclass s ! d)" using * by (intro page_chunks_cong) simp_all
qed

lemma pages_ok_subset:
  assumes "pages_ok e P" "set xs \<subseteq> set (P c)" "distinct xs"
  shows "pages_ok e (P(c := xs))"
proof -
  have "set ((P(c := xs)) d) \<subseteq> set (P d)" for d using assms(2) by simp
  with assms(1) have "{p..<p + e d} \<inter> {q..<q + e d'} = {}"
    if "p \<in> set ((P(c := xs)) d)" "q \<in> set ((P(c := xs)) d')" "(d, p) \<noteq> (d', q)" for d d' p q
    using that unfolding pages_ok_def by (meson in_mono)
  moreover have "distinct ((P(c := xs)) d) \<and> 0 \<notin> set ((P(c := xs)) d)" for d
    using assms unfolding pages_ok_def by auto
  ultimately show ?thesis unfolding pages_ok_def by blast
qed

lemma slabs_inv_pages:
  assumes inv: "slabs_inv s" and f: "keeps_free f" and c: "c \<le> power_largest s"
    and P: "pages (upd_class c f s) = (pages s)(c := xs)" and xs: "set xs \<subseteq> set (pages s c)" "distinct xs" "c = 0 \<or> xs = pages s c"
    and sz: "slabs (f (slabclass s ! c)) \<le> length (slab_list (f (slabclass s ! c)))"
      "list_size (f (slabclass s ! c)) = length (slab_list (f (slabclass s ! c)))"
  shows "slabs_inv (upd_class c f s)" "chunks (upd_class c f s) = chunks s"
proof -
  let ?s = "upd_class c f s"
  note D = slabs_invD [OF inv]
  have len: "c < length (slabclass s)" using classes_okD(1,3) [OF D(1)] c by simp
  note k = keeps_free_eq [OF f len]
  have pin: "set (pages ?s d) \<subseteq> set (pages s d)" for d unfolding P using xs(1) by simp
  have "(class_range s d \<longrightarrow> pages ?s d = pages s d)" for d unfolding P using xs(3) by (auto simp: class_range_def)
  then show ch: "chunks ?s = chunks s" by (simp add: chunks_def fun_eq_iff k)
  have "list_size (slabclass ?s ! d) = length (slab_list (slabclass ?s ! d)) \<and> slabs (slabclass ?s ! d) \<le> length (slab_list (slabclass ?s ! d))"
    if "d \<le> power_largest s" for d
    using sz classes_okD(7,8) [OF D(1) that] len by (cases "c = d") (simp_all add: upd_class_def)
  then have C: "classes_ok ?s" using D(1) unfolding classes_ok_def by (simp add: k)
  have "pages_ok (page_extent ?s) (pages ?s)" unfolding k P by (rule pages_ok_subset [OF D(2) xs(1,2)])
  moreover have "p + page_extent s d \<le> mem_current s" if "mem_base s \<noteq> 0" "p \<in> set (pages ?s d)" for p d
    using D(7) [OF that(1)] pin that(2) by blast
  ultimately show "slabs_inv ?s" unfolding slabs_inv_def k ch using C D(3-6) by (simp add: k)
qed

text \<open>What such changes leave alone.\<close>

definition same_shape :: "'a slabs_state_scheme \<Rightarrow> 'a slabs_state_scheme \<Rightarrow> bool" where
  "same_shape s t \<longleftrightarrow>
     heap t = heap s \<and> free_list t = free_list s \<and> chunks t = chunks s \<and> class_range t = class_range s \<and>
     page_len t = page_len s \<and> page_extent t = page_extent s \<and> slabs_state.more t = slabs_state.more s \<and>
     mem_base t = mem_base s \<and> mem_current t = mem_current s \<and> settings t = settings s \<and> power_largest t = power_largest s \<and>
     (\<forall>d. cls_size (slabclass t ! d) = cls_size (slabclass s ! d)) \<and>
     (\<forall>d. page_chunks (slabclass t ! d) = page_chunks (slabclass s ! d))"

lemma same_shape_refl [simp]: "same_shape s s"
  by (simp add: same_shape_def)

lemma same_shape_upd:
  assumes "keeps_free f" "c < length (slabclass s)" "chunks (upd_class c f s) = chunks s"
  shows "same_shape s (upd_class c f s)"
  using assms by (simp add: same_shape_def keeps_free_eq)

lemma grow_slab_list_cases:
  assumes "grow_slab_list c ok s = (b, s')"
  obtains "s' = s" "b \<Longrightarrow> slabs (slabclass s ! c) \<noteq> list_size (slabclass s ! c)"
  | n where "s' = upd_class c (\<lambda>p. p\<lparr>list_size := n, slab_list := slab_list p @ replicate (n - length (slab_list p)) 0\<rparr>) s"
      "list_size (slabclass s ! c) < n" "b"
  using assms by (fastforce simp: grow_slab_list_def Let_def split: if_splits)

lemma grow_slab_list_inv:
  assumes inv: "slabs_inv s" and c: "c \<le> power_largest s" and g: "grow_slab_list c ok s = (b, s')"
  shows "slabs_inv s' \<and> same_shape s s' \<and> pages s' = pages s \<and>
    (\<forall>d. slabs (slabclass s' ! d) = slabs (slabclass s ! d)) \<and>
    (b \<longrightarrow> slabs (slabclass s' ! c) < length (slab_list (slabclass s' ! c)))"
  using g
proof (cases rule: grow_slab_list_cases)
  case 1
  have "slabs (slabclass s ! c) < length (slab_list (slabclass s ! c))" if b
    using 1(2) [OF that] classes_okD(7,8) [OF slabs_invD(1) [OF inv] c] by simp
  with 1(1) inv show ?thesis by simp
next
  case (2 n)
  let ?f = "\<lambda>p. p\<lparr>list_size := n, slab_list := slab_list p @ replicate (n - length (slab_list p)) 0\<rparr>"
  note D = slabs_invD [OF inv] and C = classes_okD [OF slabs_invD(1) [OF inv]]
  have len: "c < length (slabclass s)" using C(1,3) c by simp
  have f: "keeps_free ?f" by (simp add: keeps_free_def)
  have nth: "slabclass s' ! c = ?f (slabclass s ! c)" using len by (simp add: 2(1) upd_class_def)
  have n: "length (slab_list (slabclass s ! c)) < n" using 2(2) C(8) [OF c] by simp
  have P: "pages (upd_class c ?f s) = (pages s)(c := pages s c)"
    using C(7) [OF c] len c by (auto simp: fun_eq_iff pages_def upd_class_def nth_list_update)
  have d: "distinct (pages s c)" using D(2) by (simp add: pages_ok_def)
  have sz: "slabs (?f (slabclass s ! c)) \<le> length (slab_list (?f (slabclass s ! c)))"
    "list_size (?f (slabclass s ! c)) = length (slab_list (?f (slabclass s ! c)))" using C(7) [OF c] n by simp_all
  note i = slabs_inv_pages [OF inv f c P subset_refl d disjI2 [OF refl] sz, folded 2(1)]
  have "slabs (slabclass s' ! c) < length (slab_list (slabclass s' ! c))" using C(7) [OF c] n by (simp add: nth)
  moreover have "slabs (slabclass s' ! d) = slabs (slabclass s ! d)" for d
    using len by (cases "c = d") (simp_all add: 2(1) upd_class_def)
  ultimately show ?thesis using i P same_shape_upd [OF f len i(2) [unfolded 2(1)]] by (simp add: 2(1))
qed

lemma get_page_inv:
  assumes inv: "slabs_inv s" and g: "get_page_from_global_pool s = (pg, s')"
  shows "slabs_inv s' \<and> same_shape s s' \<and> pages s' = (pages s)(0 := butlast (pages s 0)) \<and> (pg = 0 \<longrightarrow> s' = s) \<and>
    (pg \<noteq> 0 \<longrightarrow> pg \<in> set (pages s 0) \<and> pg \<notin> set (pages s' 0)) \<and> (\<forall>d>0. slabclass s' ! d = slabclass s ! d)"
proof (cases "slabs (slabclass s ! 0) < 1")
  case True
  with g have "pg = 0" "s' = s" "pages s 0 = []" by (simp_all add: get_page_from_global_pool_def pages_def)
  then show ?thesis using inv by (simp add: fun_upd_idem)
next
  case False
  let ?f = "\<lambda>p. p\<lparr>slabs := slabs p - 1\<rparr>" and ?p = "slabclass s ! 0"
  note D = slabs_invD [OF inv] and C = classes_okD [OF slabs_invD(1) [OF inv]]
  have s': "s' = upd_class 0 ?f s" and pg: "pg = slab_list ?p ! (slabs ?p - 1)"
    using g False by (simp_all add: get_page_from_global_pool_def Let_def)
  have len: "0 < length (slabclass s)" using C(1) by simp
  have f: "keeps_free ?f" by (simp add: keeps_free_def)
  have le: "slabs ?p \<le> length (slab_list ?p)" using C(7) [of 0] by simp
  have p0: "pages s 0 = take (slabs ?p) (slab_list ?p)" by (simp add: pages_def)
  have last: "pages s 0 = butlast (pages s 0) @ [pg]" "butlast (pages s 0) = take (slabs ?p - 1) (slab_list ?p)"
  proof -
    show b: "butlast (pages s 0) = take (slabs ?p - 1) (slab_list ?p)" using le by (simp add: p0 butlast_take)
    show "pages s 0 = butlast (pages s 0) @ [pg]" unfolding b using False le pg
      by (simp add: p0 take_Suc_conv_app_nth [symmetric] Suc_diff_Suc)
  qed
  have P: "pages (upd_class 0 ?f s) = (pages s)(0 := butlast (pages s 0))"
    using len last(2) by (auto simp: fun_eq_iff pages_def upd_class_def nth_list_update)
  have d: "distinct (pages s 0)" "0 \<notin> set (pages s 0)" using D(2) by (simp_all add: pages_ok_def)
  have sub: "set (butlast (pages s 0)) \<subseteq> set (pages s 0)" "distinct (butlast (pages s 0))" using d by (auto simp: distinct_butlast dest: in_set_butlastD)
  have sz: "slabs (?f ?p) \<le> length (slab_list (?f ?p))" "list_size (?f ?p) = length (slab_list (?f ?p))" using le C(8) [of 0] by simp_all
  note i = slabs_inv_pages [OF inv f _ P sub disjI1 [OF refl] sz, simplified, folded s']
  have mem: "pg \<in> set (pages s 0)" "pg \<notin> set (butlast (pages s 0))" using last(1) d(1) by (metis in_set_conv_decomp, metis distinct_append not_distinct_conv_prefix)
  then have "pg \<noteq> 0" using d(2) by metis
  moreover have "\<forall>d>0. slabclass s' ! d = slabclass s ! d" by (simp add: s' upd_class_def)
  ultimately show ?thesis using i P mem same_shape_upd [OF f len] by (simp add: s')
qed

section \<open>Adding a page to a class\<close>

text \<open>
  The effect of an operation that may add a page to class \<open>c\<close>: the chunks \<open>X\<close>, none of which was a chunk before, join
  the class and its free list; nothing else changes, and no chunk in use is written.
\<close>

definition grown :: "nat \<Rightarrow> nat list \<Rightarrow> 'a slabs_state_scheme \<Rightarrow> 'a slabs_state_scheme \<Rightarrow> bool" where
  "grown c X s s' \<longleftrightarrow>
     slabs_inv s' \<and> class_range s' = class_range s \<and> settings s' = settings s \<and> power_largest s' = power_largest s \<and>
     slabs_state.more s' = slabs_state.more s \<and> mem_base s' = mem_base s \<and>
     free_list s' = (free_list s)(c := X @ free_list s c) \<and> chunks s' = (chunks s)(c := set X \<union> chunks s c) \<and>
     (\<forall>d. set X \<inter> chunks s d = {}) \<and> (\<forall>d. cls_size (slabclass s' ! d) = cls_size (slabclass s ! d)) \<and>
     (\<forall>d b. b \<in> chunks s d \<longrightarrow> b \<notin> set (free_list s c) \<longrightarrow> heap s' b = heap s b)"

lemma grown_shape:
  assumes "same_shape s t" "grown c X t u"
  shows "grown c X s u"
  using assms unfolding grown_def same_shape_def by auto

lemma same_layout_shape:
  assumes "same_layout s t" "mem_current s = mem_current t"
  shows "same_shape s t"
  using assms same_layout_eq [OF assms(1)] by (simp add: same_shape_def same_layout_def)

lemma grown_none:
  assumes "slabs_inv t" "same_layout s t"
  shows "grown c [] s t"
  using assms same_layout_eq [OF assms(2)] by (simp add: grown_def same_layout_def fun_upd_idem)

lemma grown_none_shape:
  assumes "slabs_inv t" "same_shape s t"
  shows "grown c [] s t"
  using assms by (simp add: grown_def same_shape_def fun_upd_idem)

definition malloc_fresh :: "'a slabs_state_scheme \<Rightarrow> nat \<Rightarrow> nat \<Rightarrow> bool" where
  "malloc_fresh s m len \<longleftrightarrow> (mem_base s = 0 \<longrightarrow> m \<noteq> 0 \<longrightarrow> fresh_range s m len)"

text \<open>States with the same pages, whatever is on the free lists.\<close>

definition same_pages :: "'a slabs_state_scheme \<Rightarrow> 'b slabs_state_scheme \<Rightarrow> bool" where
  "same_pages s t \<longleftrightarrow>
     pages t = pages s \<and> chunks t = chunks s \<and> page_len t = page_len s \<and> page_extent t = page_extent s \<and>
     class_range t = class_range s \<and> mem_base t = mem_base s"

lemma same_pages_refl [simp]: "same_pages s s"
  by (simp add: same_pages_def)

lemma same_pages_trans: "same_pages s t \<Longrightarrow> same_pages t u \<Longrightarrow> same_pages s u"
  by (simp add: same_pages_def)

lemma same_pages_fresh: "same_pages s t \<Longrightarrow> malloc_fresh t m len = malloc_fresh s m len"
  by (simp add: same_pages_def malloc_fresh_def fresh_range_def)

lemma same_pages_free:
  assumes "only_free c s t"
  shows "same_pages s t"
proof -
  have "page_len t = page_len s" by (simp add: fun_eq_iff page_len_def only_free_cls [OF assms] only_free_state [OF assms])
  then show ?thesis using only_free_layout [OF assms] only_free_state [OF assms] by (simp add: same_pages_def)
qed

lemma same_pages_layout: "same_layout s t \<Longrightarrow> same_pages s t"
  using same_layout_eq [of s t] by (simp add: same_pages_def same_layout_def)

lemma same_pages_shape: "same_shape s t \<Longrightarrow> pages t = pages s \<Longrightarrow> same_pages s t"
  by (simp add: same_pages_def same_shape_def)

lemma newslab_tail:
  assumes inv: "slabs_inv s" and c: "class_range s c" and fresh: "fresh_range s pg (page_len s c)"
    and room: "slabs (slabclass s ! c) < length (slab_list (slabclass s ! c))"
    and cur: "mem_base s \<noteq> 0 \<Longrightarrow> pg + page_len s c \<le> mem_current s"
  shows "\<exists>s'. Option.bind (split_slab_page_into_freelist pg c (s\<lparr>heap := zero_range pg (page_len s c) (heap s)\<rparr>))
      (\<lambda>s4. Some (True, add_page c pg s4)) = Some (True, s') \<and> grown c (rev (page_chunks (slabclass s ! c) pg)) s s'"
proof -
  from cut_page [OF inv c fresh] obtain s4 where s4:
      "split_slab_page_into_freelist pg c (s\<lparr>heap := zero_range pg (page_len s c) (heap s)\<rparr>) = Some s4" "only_free c s s4"
      "free_ok s4 ((free_list s)(c := rev (page_chunks (slabclass s ! c) pg) @ free_list s c))"
    and frame: "\<And>b. b \<noteq> 0 \<Longrightarrow> b \<notin> set (free_list s c) \<Longrightarrow> b \<notin> {pg..<pg + page_len s c} \<Longrightarrow> heap s4 b = heap s b" by blast
  note st = only_free_state [OF s4(2)]
  have i: "slabs_inv (add_page c pg s4)" "pages (add_page c pg s4) = (pages s)(c := pages s c @ [pg])"
    "free_list (add_page c pg s4) = (free_list s)(c := rev (page_chunks (slabclass s ! c) pg) @ free_list s c)"
    using install_page [OF inv c fresh room _ s4(2,3)] cur frame by blast+
  have pc: "page_chunks (slabclass s4 ! d) = page_chunks (slabclass s ! d)" for d
    by (rule page_chunks_cong) (simp_all add: only_free_cls [OF s4(2)])
  have ch: "chunks (add_page c pg s4) = (chunks s)(c := set (rev (page_chunks (slabclass s ! c) pg)) \<union> chunks s c)"
    using c by (auto simp: fun_eq_iff chunks_def i(2) st add_page_class pc)
  have new: "set (page_chunks (slabclass s ! c) pg) \<inter> chunks s d = {}" for d
    using page_chunks_fresh [OF inv c, of pg] fresh_not_free(2) [OF inv fresh] by blast
  have "heap s4 b = heap s b" if "b \<in> chunks s d" "b \<notin> set (free_list s c)" for b d
    using that fresh_not_free(2) [OF inv fresh] chunk_not_null [OF inv that(1)] by (intro frame) blast+
  then have "grown c (rev (page_chunks (slabclass s ! c) pg)) s (add_page c pg s4)"
    using i ch new st by (simp add: grown_def add_page_class only_free_cls [OF s4(2)])
  then show ?thesis by (simp add: s4(1))
qed

lemma pool_page_fresh:
  assumes inv: "slabs_inv s" and c: "class_range s c" and g: "get_page_from_global_pool s = (pg, s')" and pg: "pg \<noteq> 0"
  shows "fresh_range s' pg (page_len s c)" "mem_base s \<noteq> 0 \<Longrightarrow> pg + page_len s c \<le> mem_current s"
proof -
  note D = slabs_invD [OF inv] and G = get_page_inv [OF inv g]
  have sh: "same_shape s s'" and p: "pg \<in> set (pages s 0)" "pg \<notin> set (pages s' 0)"
    and P: "pages s' = (pages s)(0 := butlast (pages s 0))" using G pg by blast+
  have le: "page_len s c \<le> page_extent s 0" using extent_bounds(2) [OF D(1) c] by (simp add: page_extent_def)
  have "{pg..<pg + page_len s c} \<inter> {q..<q + page_extent s' d} = {}" if "q \<in> set (pages s' d)" for q d
  proof -
    have q: "q \<in> set (pages s d)" using that P in_set_butlastD [of q "pages s 0"] by (auto split: if_splits)
    have ne: "(0, pg) \<noteq> (d, q)" using that p by auto
    from D(2) p(1) q ne have "{pg..<pg + page_extent s 0} \<inter> {q..<q + page_extent s d} = {}" unfolding pages_ok_def by blast
    with le sh show ?thesis by (auto simp: same_shape_def disjoint_iff)
  qed
  then show "fresh_range s' pg (page_len s c)" using pg by (simp add: fresh_range_def)
  show "pg + page_len s c \<le> mem_current s" if "mem_base s \<noteq> 0" using D(7) [OF that p(1)] le by linarith
qed

lemma align_chunk_ge: "n \<le> align_chunk n"
  using mod_less_divisor [of 8 n] by (auto simp: align_chunk_def)

lemma memory_allocate_inv:
  assumes inv: "slabs_inv s" and m: "memory_allocate mr len s = (ptr, s')" and fresh: "malloc_fresh s mr len"
  shows "slabs_inv s' \<and> same_layout s s' \<and> (ptr \<noteq> 0 \<longrightarrow> fresh_range s' ptr len \<and> (mem_base s \<noteq> 0 \<longrightarrow> ptr + len \<le> mem_current s'))"
proof -
  have lay: "same_layout s s'" and le: "mem_current s \<le> mem_current s'"
    using m by (auto simp: memory_allocate_def Let_def same_layout_def split: if_splits)
  have "fresh_range s ptr len \<and> (mem_base s \<noteq> 0 \<longrightarrow> ptr + len \<le> mem_current s')" if "ptr \<noteq> 0"
  proof (cases "mem_base s = 0")
    case True
    with m fresh that show ?thesis by (simp add: memory_allocate_def malloc_fresh_def)
  next
    case False
    with m that have "ptr = mem_current s" "mem_current s' = mem_current s + align_chunk len"
      by (auto simp: memory_allocate_def Let_def split: if_splits)
    moreover have "fresh_range s (mem_current s) len"
      using slabs_invD(6,7) [OF inv False] by (fastforce simp: fresh_range_def)
    ultimately show ?thesis using align_chunk_ge [of len] by simp
  qed
  then show ?thesis using same_layout_inv [OF lay le inv] lay same_layout_eq(9) [OF lay] by auto
qed

lemma grown_layout:
  assumes "same_layout s t" "grown c X t u"
  shows "grown c X s u"
  using assms(2) same_layout_eq [OF assms(1)] assms(1) unfolding grown_def same_layout_def by simp

lemma newslab_source:
  assumes inv: "slabs_inv s" and c: "class_range s c" and fresh: "malloc_fresh s mr (page_len s c)"
    and g: "grow_slab_list c ro s = (b, s1)" and p: "get_page_from_global_pool s1 = (pg, s2)"
    and m: "(if pg = 0 then memory_allocate mr (page_len s c) s2 else (pg, s2)) = (ptr, s3)"
  shows "slabs_inv s1" "same_shape s s1" "slabs_inv s3" "same_shape s s2" "same_layout s2 s3"
    "b \<Longrightarrow> slabs (slabclass s3 ! c) < length (slab_list (slabclass s3 ! c))"
    "ptr \<noteq> 0 \<Longrightarrow> fresh_range s3 ptr (page_len s c)"
    "ptr \<noteq> 0 \<Longrightarrow> mem_base s3 \<noteq> 0 \<Longrightarrow> ptr + page_len s c \<le> mem_current s3"
    "same_pages s s1" "ptr = 0 \<Longrightarrow> same_pages s s3"
proof -
  have cle: "c \<le> power_largest s" and c0: "0 < c" using c by (auto simp: class_range_def)
  note G = grow_slab_list_inv [OF inv cle g]
  from G show i1: "slabs_inv s1" and sh1: "same_shape s s1" by blast+
  note P = get_page_inv [OF i1 p]
  have i2: "slabs_inv s2" and sh2: "same_shape s1 s2" using P by blast+
  from sh1 sh2 show sh: "same_shape s s2" by (simp add: same_shape_def)
  have c1: "class_range s1 c" and len: "page_len s1 c = page_len s c" using sh1 c by (simp_all add: same_shape_def)
  have fresh2: "malloc_fresh s2 mr (page_len s c)" if "pg = 0"
  proof -
    have "s2 = s1" "pages s1 = pages s" using P G that by blast+
    then show ?thesis using fresh sh1 by (simp add: malloc_fresh_def fresh_range_def same_shape_def)
  qed
  have 3: "slabs_inv s3 \<and> same_layout s2 s3 \<and>
    (ptr \<noteq> 0 \<longrightarrow> fresh_range s3 ptr (page_len s c) \<and> (mem_base s3 \<noteq> 0 \<longrightarrow> ptr + page_len s c \<le> mem_current s3))"
  proof (cases "pg = 0")
    case True
    with memory_allocate_inv [OF i2 _ fresh2 [OF True]] m show ?thesis by (auto simp: same_layout_def)
  next
    case False
    with m have "s3 = s2" "ptr = pg" by simp_all
    with i2 pool_page_fresh [OF i1 c1 p False] sh2 show ?thesis by (simp add: len same_layout_def same_shape_def)
  qed
  then show "slabs_inv s3" and lay: "same_layout s2 s3" by blast+
  show "ptr \<noteq> 0 \<Longrightarrow> fresh_range s3 ptr (page_len s c)"
    "ptr \<noteq> 0 \<Longrightarrow> mem_base s3 \<noteq> 0 \<Longrightarrow> ptr + page_len s c \<le> mem_current s3" using 3 by blast+
  show sp: "same_pages s s1" using same_pages_shape [OF sh1] G by blast
  show "same_pages s s3" if "ptr = 0"
  proof -
    have "pg = 0" using m that by (cases "pg = 0") simp_all
    then have "s2 = s1" using P by blast
    then show ?thesis using same_pages_trans [OF sp same_pages_layout] lay by simp
  qed
  show "slabs (slabclass s3 ! c) < length (slab_list (slabclass s3 ! c))" if b
  proof -
    have "slabclass s3 ! c = slabclass s1 ! c" using P lay c0 by (simp add: same_layout_def)
    with G that show ?thesis by (metis (no_types))
  qed
qed

lemma newslab_inv:
  assumes inv: "slabs_inv s" and c: "class_range s c" and fresh: "malloc_fresh s mr (page_len s c)"
  shows "\<exists>b X s'. do_slabs_newslab ro mr c s = Some (b, s') \<and> grown c X s s' \<and> (X = [] \<longrightarrow> same_pages s s')"
proof (cases "mem_limit s \<noteq> 0 \<and> mem_malloced s + of_nat (page_len s c) > mem_limit s \<and> slabs (slabclass s ! c) > 0 \<and>
    slabs (slabclass s ! SLAB_GLOBAL_PAGE_POOL) = 0")
  case True
  let ?t = "s\<lparr>mem_limit_reached := True\<rparr>"
  have lay: "same_layout s ?t" by (simp add: same_layout_def)
  have "grown c [] s ?t" by (rule grown_none [OF same_layout_inv [OF lay _ inv] lay]) simp
  moreover have "do_slabs_newslab ro mr c s = Some (False, ?t)" using True by (simp add: do_slabs_newslab_def Let_def)
  moreover note same_pages_layout [OF lay]
  ultimately show ?thesis by blast
next
  case False
  obtain b s1 where g: "grow_slab_list c ro s = (b, s1)" by fastforce
  obtain pg s2 where p: "get_page_from_global_pool s1 = (pg, s2)" by fastforce
  obtain ptr s3 where m: "(if pg = 0 then memory_allocate mr (page_len s c) s2 else (pg, s2)) = (ptr, s3)" by fastforce
  note S = newslab_source [OF inv c fresh g p m]
  have eq: "do_slabs_newslab ro mr c s =
    (if \<not> b then Some (False, s1) else if ptr = 0 then Some (False, s3)
     else Option.bind (split_slab_page_into_freelist ptr c (s3\<lparr>heap := zero_range ptr (page_len s c) (heap s3)\<rparr>))
            (\<lambda>s4. Some (True, add_page c ptr s4)))"
    by (simp only: do_slabs_newslab_def Let_def if_not_P [OF False] g p m prod.case)
  consider "\<not> b" | "b" "ptr = 0" | "b" "ptr \<noteq> 0" by blast
  then show ?thesis
  proof cases
    case 1
    with eq grown_none_shape [OF S(1,2)] S(9) show ?thesis by auto
  next
    case 2
    have "grown c [] s s3" by (rule grown_shape [OF S(4) grown_none [OF S(3,5)]])
    with 2 eq S(10) show ?thesis by auto
  next
    case 3
    have c3: "class_range s3 c" and len: "page_len s3 c = page_len s c"
      using S(4) c same_layout_eq [OF S(5)] by (simp_all add: same_shape_def)
    from newslab_tail [OF S(3) c3, unfolded len, OF S(7) [OF 3(2)] S(6) [OF 3(1)] S(8) [OF 3(2)]]
    obtain s' where s': "do_slabs_newslab ro mr c s = Some (True, s')" "grown c (rev (page_chunks (slabclass s3 ! c) ptr)) s3 s'"
      unfolding eq using 3 by auto
    have "perslab (slabclass s3 ! c) \<noteq> 0" using classes_okD(5) [OF slabs_invD(1) [OF S(3)] c3] by simp
    then have "rev (page_chunks (slabclass s3 ! c) ptr) \<noteq> []" by (simp add: page_chunks_def)
    then show ?thesis using s' grown_shape [OF S(4) grown_layout [OF S(5)]] by blast
  qed
qed

section \<open>Allocating\<close>

text \<open>Taking a chunk out of a free list, wherever it stands, and marking it with other flags.\<close>

definition remove_free :: "nat \<Rightarrow> nat \<Rightarrow> nat list \<Rightarrow> item \<Rightarrow> 'a slabs_state_scheme \<Rightarrow> 'a slabs_state_scheme" where
  "remove_free c a xs j s =
     upd_class c (\<lambda>p. p\<lparr>slots := first xs, sl_curr := length xs\<rparr>) (s\<lparr>heap := (unlink_cell (heap s) a)(a := j)\<rparr>)"

lemma remove_free_ok:
  assumes inv: "slabs_inv s" and c: "class_range s c" and L: "free_list s c = ys @ a # zs"
  shows "free_ok (remove_free c a (ys @ zs) j s) ((free_list s)(c := ys @ zs))" (is "free_ok ?s ?F")
    and "only_free c s (remove_free c a (ys @ zs) j s)"
    and "b \<notin> set (ys @ a # zs) \<Longrightarrow> heap (remove_free c a (ys @ zs) j s) b = heap s b"
    and "b \<noteq> a \<Longrightarrow> same_but_links (heap (remove_free c a (ys @ zs) j s) b) (heap s b)"
proof -
  note D = slabs_invD [OF inv] and f = free_okD [OF slabs_invD(3) [OF inv]]
  have len: "c < length (slabclass s)" by (rule class_range_bound [OF D(1) c])
  show only: "only_free c s ?s" unfolding only_free_def remove_free_def using len by blast
  have h: "heap ?s = (unlink_cell (heap s) a)(a := j)" by (simp add: remove_free_def)
  have dl: "dll (heap s) 0 (ys @ a # zs) 0" "distinct (ys @ a # zs)" using lists_okD(1,2) [OF f(1), of c] by (simp_all only: L)
  show "heap ?s b = heap s b" if "b \<notin> set (ys @ a # zs)" using that unlink_cell_frame [OF dl, of b] by (simp add: h)
  show same: "same_but_links (heap ?s b) (heap s b)" if "b \<noteq> a" for b using that by (simp add: h unlink_cell_same)
  have out: "a \<notin> set (?F r)" for r using dl(2) lists_okD(3) [OF f(1), of r c a] L by auto
  have "lists_ok (unlink_cell (heap s) a) ?F" by (rule lists_ok_unlink [OF f(1) L])
  then have "lists_ok (heap ?s) ?F" unfolding h by (rule lists_ok_cong) (use out in auto)
  moreover have "slots (slabclass ?s ! r) = first (?F r) \<and> sl_curr (slabclass ?s ! r) = length (?F r)" if "class_range s r" for r
    using f(2,3) [OF that] len by (cases "c = r") (simp_all add: remove_free_def upd_class_def)
  moreover have "it_flags (heap ?s b) = ITEM_SLABBED" if "b \<in> set (?F r)" for b r
  proof -
    have "b \<noteq> a" using that out [of r] by metis
    moreover have "b \<in> set (free_list s r)" using that L by (auto split: if_splits)
    ultimately show ?thesis using same_but_links_simps(5) [OF same] f(5) by simp
  qed
  moreover have "?F r = []" if "\<not> class_range s r" for r using that c f(4) by auto
  ultimately show "free_ok ?s ?F" unfolding free_ok_def only_free_state(8) [OF only] by simp
qed

lemma remove_free_inv:
  assumes inv: "slabs_inv s" and c: "class_range s c" and L: "free_list s c = ys @ a # zs" and j: "it_flags j \<noteq> ITEM_SLABBED"
  shows "slabs_inv (remove_free c a (ys @ zs) j s)" "free_list (remove_free c a (ys @ zs) j s) = (free_list s)(c := ys @ zs)"
    "chunks (remove_free c a (ys @ zs) j s) = chunks s"
proof -
  let ?s = "remove_free c a (ys @ zs) j s" and ?F = "(free_list s)(c := ys @ zs)"
  note D = slabs_invD [OF inv] and ok = remove_free_ok [OF inv c L, where j = j]
  note lay = only_free_layout [OF ok(2)] and st = only_free_state [OF ok(2)]
  show F: "free_list ?s = ?F" by (rule free_ok_list [OF ok(1)])
  show "chunks ?s = chunks s" by (rule lay(2))
  have "b \<in> set (?F d)" if b: "b \<in> chunks s d" "it_flags (heap ?s b) = ITEM_SLABBED" for b d
  proof -
    have ne: "b \<noteq> a" using b(2) j by (auto simp: remove_free_def)
    then have "it_flags (heap s b) = ITEM_SLABBED" using same_but_links_simps(5) [OF ok(4) [OF ne]] b(2) by simp
    with D(5) [OF b(1)] L ne show ?thesis by auto
  qed
  moreover have "set (?F d) \<subseteq> chunks s d" for d using D(4) [of d] L by auto
  ultimately show "slabs_inv ?s" unfolding slabs_inv_def F lay using D(1,2,6,7) ok(1) by (simp add: st)
qed

text \<open>The first free chunk is taken off its list; it is neither free nor in use by anyone else.\<close>

definition taken :: "nat \<Rightarrow> nat \<Rightarrow> 'a slabs_state_scheme \<Rightarrow> 'a slabs_state_scheme \<Rightarrow> bool" where
  "taken c a s s' \<longleftrightarrow>
     slabs_inv s' \<and> class_range s' = class_range s \<and> settings s' = settings s \<and> power_largest s' = power_largest s \<and>
     slabs_state.more s' = slabs_state.more s \<and> mem_base s' = mem_base s \<and>
     free_list s c = a # free_list s' c \<and> (\<forall>d. d \<noteq> c \<longrightarrow> free_list s' d = free_list s d) \<and> chunks s' = chunks s \<and>
     (\<forall>d. cls_size (slabclass s' ! d) = cls_size (slabclass s ! d)) \<and>
     it_flags (heap s' a) = 0 \<and> it_refcount (heap s' a) = 1 \<and>
     (\<forall>b. b \<notin> set (free_list s c) \<longrightarrow> heap s' b = heap s b)"

lemma pop_slot_taken:
  assumes inv: "slabs_inv s" and c: "class_range s c" and ne: "sl_curr (slabclass s ! c) \<noteq> 0"
  shows "\<exists>a s'. pop_slot c s = (a, s') \<and> taken c a s s'"
proof -
  note D = slabs_invD [OF inv] and f = free_okD [OF slabs_invD(3) [OF inv]]
  have "free_list s c \<noteq> []" using f(3) [OF c] ne by auto
  then obtain a xs where L: "free_list s c = [] @ a # xs" by (auto simp: neq_Nil_conv)
  have slot: "slots (slabclass s ! c) = a" using f(2) [OF c] L by simp
  have dl: "dll (heap s) 0 (a # xs) 0" "distinct (a # xs)" using lists_okD(1,2) [OF f(1), of c] by (simp_all only: L append.simps)
  have len: "c < length (slabclass s)" by (rule class_range_bound [OF D(1) c])
  have nx: "it_next (heap s a) = first xs" and a: "it_prev (heap s a) = 0" "a \<noteq> 0" using dl(1) by (auto split: if_splits)
  have first: "first xs \<noteq> a" using dl a by (cases xs) auto
  have ua: "unlink_cell (heap s) a a = heap s a" using first a by (simp add: unlink_cell_def nx Let_def)
  define j where "j = (heap s a)\<lparr>it_flags := it_flags (heap s a) AND NOT ITEM_SLABBED, it_refcount := 1\<rparr>"
  have j: "it_flags j = 0" "it_refcount j = 1" using f(5) [of a c] L by (simp_all add: j_def)
  have cur: "sl_curr (slabclass s ! c) - 1 = length xs" using f(3) [OF c] L by simp
  have pop: "pop_slot c s = (a, remove_free c a ([] @ xs) j s)"
    using len cur first a ua
    by (simp add: pop_slot_def Let_def slot nx remove_free_def upd_class_def upd_item_def unlink_cell_def j_def)
  note i = remove_free_inv [OF inv c L, where j = j, unfolded j, simplified] and ok = remove_free_ok [OF inv c L, where j = j]
  have "taken c a s (remove_free c a ([] @ xs) j s)"
    using i L j ok(3) only_free_state [OF ok(2)] only_free_cls(1) [OF ok(2)] unfolding taken_def
    by (auto simp: remove_free_def)
  with pop show ?thesis by blast
qed

end
