(* ===== verification/Chunk_Pool.thy ===== *)
theory Chunk_Pool
  imports Main
begin

text \<open>
  The contract of a chunk allocator that the item store relies on.  A chunk is named by its class and
  address; \<open>live\<close> are the chunks handed out.  Allocation gives a chunk nobody holds and leaves the
  contents of all held chunks alone, release takes one back, and holders may write their chunks.  The client's
  lemma: over any legal sequence of such steps the allocator behaves as a map from the held chunks to
  what was last written to them, and the memory blocks of held chunks never overlap.
\<close>

datatype ('r, 'w) pool_op = Alloc 'r nat | Release nat nat | Write nat nat 'w

type_synonym 'w held = "nat \<times> nat \<rightharpoonup> 'w option"

text \<open>The map a step describes, given what the step returned; a new chunk has unknown contents.\<close>

fun held_step :: "('r, 'w) pool_op \<Rightarrow> nat \<Rightarrow> 'w held \<Rightarrow> 'w held" where
  "held_step (Alloc r c) ret M = (if ret = 0 then M else M((c, ret) \<mapsto> None))"
| "held_step (Release c a) ret M = M((c, a) := None)"
| "held_step (Write c a w) ret M = M((c, a) \<mapsto> Some w)"

text \<open>A step on an allocator's state, with the address it returns (0 when it returns none).\<close>

fun pool_step :: "('r \<Rightarrow> nat \<Rightarrow> 's \<Rightarrow> nat \<times> 's) \<Rightarrow> (nat \<Rightarrow> nat \<Rightarrow> 's \<Rightarrow> 's) \<Rightarrow> (nat \<Rightarrow> nat \<Rightarrow> 'w \<Rightarrow> 's \<Rightarrow> 's) \<Rightarrow>
    ('r, 'w) pool_op \<Rightarrow> 's \<Rightarrow> nat \<times> 's" where
  "pool_step alloc release wr (Alloc r c) s = alloc r c s"
| "pool_step alloc release wr (Release c a) s = (0, release c a s)"
| "pool_step alloc release wr (Write c a w) s = (0, wr c a w s)"

text \<open>The steps a client may take: what \<open>ok\<close> allows, in each state of the run.\<close>

fun legal_run :: "(('r, 'w) pool_op \<Rightarrow> 's \<Rightarrow> nat \<times> 's) \<Rightarrow> (('r, 'w) pool_op \<Rightarrow> 's \<Rightarrow> bool) \<Rightarrow>
    ('r, 'w) pool_op list \<Rightarrow> 's \<Rightarrow> bool" where
  "legal_run step ok [] s \<longleftrightarrow> True"
| "legal_run step ok (op # ops) s \<longleftrightarrow> ok op s \<and> legal_run step ok ops (snd (step op s))"

text \<open>Running a sequence: the final state with the map the steps and their results describe.\<close>

fun pool_run :: "(('r, 'w) pool_op \<Rightarrow> 's \<Rightarrow> nat \<times> 's) \<Rightarrow> ('r, 'w) pool_op list \<Rightarrow> 's \<times> 'w held \<Rightarrow> 's \<times> 'w held" where
  "pool_run step [] sm = sm"
| "pool_run step (op # ops) (s, M) = pool_run step ops (snd (step op s), held_step op (fst (step op s)) M)"

fun pool_legal :: "('s \<Rightarrow> (nat \<times> nat) set) \<Rightarrow> ('s \<Rightarrow> nat \<Rightarrow> 'w) \<Rightarrow> ('r \<Rightarrow> nat \<Rightarrow> 's \<Rightarrow> bool) \<Rightarrow> ('w \<Rightarrow> bool) \<Rightarrow> ('w \<Rightarrow> bool) \<Rightarrow>
    ('r, 'w) pool_op \<Rightarrow> 's \<Rightarrow> bool" where
  "pool_legal live content can_alloc can_release can_write (Alloc r c) s \<longleftrightarrow> can_alloc r c s"
| "pool_legal live content can_alloc can_release can_write (Release c a) s \<longleftrightarrow> (c, a) \<in> live s \<and> can_release (content s a)"
| "pool_legal live content can_alloc can_release can_write (Write c a w) s \<longleftrightarrow> (c, a) \<in> live s \<and> can_write w"

text \<open>A state agrees with a map: the same chunks are held, and known contents are right.\<close>

definition pool_agrees :: "('s \<Rightarrow> (nat \<times> nat) set) \<Rightarrow> ('s \<Rightarrow> nat \<Rightarrow> 'w) \<Rightarrow> 's \<Rightarrow> 'w held \<Rightarrow> bool" where
  "pool_agrees live content s M \<longleftrightarrow> dom M = live s \<and> (\<forall>c a w. M (c, a) = Some (Some w) \<longrightarrow> content s a = w)"

locale chunk_pool =
  fixes alloc :: "'r \<Rightarrow> nat \<Rightarrow> 's \<Rightarrow> nat \<times> 's"
    and release :: "nat \<Rightarrow> nat \<Rightarrow> 's \<Rightarrow> 's"
    and wr :: "nat \<Rightarrow> nat \<Rightarrow> 'w \<Rightarrow> 's \<Rightarrow> 's"
    and live :: "'s \<Rightarrow> (nat \<times> nat) set"
    and content :: "'s \<Rightarrow> nat \<Rightarrow> 'w"
    and block :: "'s \<Rightarrow> nat \<times> nat \<Rightarrow> nat set"
    and can_alloc :: "'r \<Rightarrow> nat \<Rightarrow> 's \<Rightarrow> bool"
    and can_release :: "'w \<Rightarrow> bool"
    and can_write :: "'w \<Rightarrow> bool"
    and invar :: "'s \<Rightarrow> bool"
  assumes alloc_invar: "invar s \<Longrightarrow> can_alloc r c s \<Longrightarrow> invar (snd (alloc r c s))"
    and alloc_none: "invar s \<Longrightarrow> can_alloc r c s \<Longrightarrow> fst (alloc r c s) = 0 \<Longrightarrow> live (snd (alloc r c s)) = live s"
    and alloc_new: "invar s \<Longrightarrow> can_alloc r c s \<Longrightarrow> fst (alloc r c s) = a \<Longrightarrow> a \<noteq> 0 \<Longrightarrow>
      (c, a) \<notin> live s \<and> live (snd (alloc r c s)) = insert (c, a) (live s)"
    and alloc_content: "invar s \<Longrightarrow> can_alloc r c s \<Longrightarrow> (d, b) \<in> live s \<Longrightarrow> content (snd (alloc r c s)) b = content s b"
    and release_invar: "invar s \<Longrightarrow> (c, a) \<in> live s \<Longrightarrow> can_release (content s a) \<Longrightarrow> invar (release c a s)"
    and release_live: "invar s \<Longrightarrow> (c, a) \<in> live s \<Longrightarrow> can_release (content s a) \<Longrightarrow> live (release c a s) = live s - {(c, a)}"
    and release_content: "invar s \<Longrightarrow> (c, a) \<in> live s \<Longrightarrow> can_release (content s a) \<Longrightarrow> (d, b) \<in> live s \<Longrightarrow> (d, b) \<noteq> (c, a) \<Longrightarrow>
      content (release c a s) b = content s b"
    and wr_invar: "invar s \<Longrightarrow> (c, a) \<in> live s \<Longrightarrow> can_write w \<Longrightarrow> invar (wr c a w s)"
    and wr_live: "invar s \<Longrightarrow> (c, a) \<in> live s \<Longrightarrow> can_write w \<Longrightarrow> live (wr c a w s) = live s"
    and wr_content: "invar s \<Longrightarrow> (c, a) \<in> live s \<Longrightarrow> can_write w \<Longrightarrow> (d, b) \<in> live s \<Longrightarrow>
      content (wr c a w s) b = (if (d, b) = (c, a) then w else content s b)"
    and blocks_disjoint: "invar s \<Longrightarrow> x \<in> live s \<Longrightarrow> y \<in> live s \<Longrightarrow> x \<noteq> y \<Longrightarrow> block s x \<inter> block s y = {}"
begin

abbreviation "step \<equiv> pool_step alloc release wr"

abbreviation "legal \<equiv> pool_legal live content can_alloc can_release can_write"

abbreviation "agrees \<equiv> pool_agrees live content"

lemma agrees_step:
  assumes "invar s" "legal op s" "agrees s M"
  shows "invar (snd (step op s)) \<and> agrees (snd (step op s)) (held_step op (fst (step op s)) M)"
proof (cases op)
  case (Alloc r c)
  then have can: "can_alloc r c s" using assms(2) by simp
  let ?a = "fst (alloc r c s)"
  have keep: "content (snd (alloc r c s)) b = w" if "M (d, b) = Some (Some w)" for d b w
    using that assms(3) alloc_content [OF assms(1) can, of d b] by (auto simp: pool_agrees_def)
  show ?thesis
  proof (cases "?a = 0")
    case True
    then show ?thesis using Alloc assms(3) alloc_invar [OF assms(1) can] alloc_none [OF assms(1) can True] keep
      by (simp add: pool_agrees_def)
  next
    case False
    then show ?thesis using Alloc assms(3) alloc_invar [OF assms(1) can] alloc_new [OF assms(1) can refl False] keep
      by (simp add: pool_agrees_def)
  qed
next
  case (Release c a)
  with assms have r: "(c, a) \<in> live s" "can_release (content s a)" by simp_all
  have keep: "content (release c a s) b = w" if "M (d, b) = Some (Some w)" "(d, b) \<noteq> (c, a)" for d b w
    using that assms(3) release_content [OF assms(1) r, of d b] by (auto simp: pool_agrees_def)
  then show ?thesis using Release assms(3) release_invar [OF assms(1) r] release_live [OF assms(1) r]
    by (auto simp: pool_agrees_def)
next
  case (Write c a w)
  with assms have r: "(c, a) \<in> live s" "can_write w" by simp_all
  have keep: "content (wr c a w s) b = v" if "M (d, b) = Some (Some v)" "(d, b) \<noteq> (c, a)" for d b v
    using that assms(3) wr_content [OF assms(1) r, of d b] unfolding pool_agrees_def by (metis domI)
  then show ?thesis using Write assms(3) r wr_invar [OF assms(1) r] wr_live [OF assms(1) r] wr_content [OF assms(1) r r(1)]
    by (auto simp: pool_agrees_def)
qed

lemma run_agrees:
  assumes "invar s" "agrees s M" "legal_run step legal ops s" "pool_run step ops (s, M) = (s', M')"
  shows "invar s' \<and> agrees s' M' \<and> (\<forall>x \<in> dom M'. \<forall>y \<in> dom M'. x \<noteq> y \<longrightarrow> block s' x \<inter> block s' y = {})"
  using assms
proof (induction ops arbitrary: s M)
  case Nil
  then show ?case using blocks_disjoint by (auto simp: pool_agrees_def)
next
  case (Cons op ops)
  then have "legal op s" by simp
  from agrees_step [OF Cons.prems(1) this Cons.prems(2)] have "invar (snd (step op s))"
    "agrees (snd (step op s)) (held_step op (fst (step op s)) M)" by blast+
  then show ?case by (rule Cons.IH) (use Cons.prems(3,4) in simp_all)
qed

end

end
