(* ===== verification/Slab_Pool.thy ===== *)
theory Slab_Pool
  imports Slab_Alloc Chunk_Pool
begin

text \<open>
  The slab allocator meets the contract of \<^verbatim>\<open>Chunk_Pool\<close>: what \<^verbatim>\<open>slabs_alloc\<close> hands out is a chunk of
  the class that nobody holds, and neither allocating nor freeing touches a chunk in use.
\<close>

definition slab_live :: "'a slabs_state_scheme \<Rightarrow> (nat \<times> nat) set" where
  "slab_live s = {(c, a). a \<in> chunks s c \<and> a \<notin> set (free_list s c)}"

definition slab_block :: "'a slabs_state_scheme \<Rightarrow> nat \<times> nat \<Rightarrow> nat set" where
  "slab_block s x = {snd x..<snd x + cls_size (slabclass s ! fst x)}"

lemma slab_liveD:
  assumes "(c, a) \<in> slab_live s"
  shows "a \<in> chunks s c" "a \<notin> set (free_list s c)" "class_range s c"
  using assms by (auto simp: slab_live_def chunks_def split: if_splits)

lemma live_not_free:
  assumes inv: "slabs_inv s" and l: "(c, a) \<in> slab_live s"
  shows "a \<notin> set (free_list s d)" "a \<noteq> 0"
proof -
  note D = slab_liveD [OF l]
  show "a \<notin> set (free_list s d)"
  proof
    assume f: "a \<in> set (free_list s d)"
    then have "a \<in> chunks s d" using slabs_invD(4) [OF inv] by blast
    with chunks_unique [OF inv D(1)] f D(2) show False by blast
  qed
  show "a \<noteq> 0" by (rule chunk_not_null [OF inv D(1)])
qed

lemma live_unique: "slabs_inv s \<Longrightarrow> (c, a) \<in> slab_live s \<Longrightarrow> (d, a) \<in> slab_live s \<Longrightarrow> c = d"
  by (blast dest: slab_liveD(1) chunks_unique)

section \<open>Allocation\<close>

lemma grown_live:
  assumes "slabs_inv s" "grown c X s t"
  shows "slab_live t = slab_live s" "(d, b) \<in> slab_live s \<Longrightarrow> heap t b = heap s b"
proof -
  have ch: "chunks t = (chunks s)(c := set X \<union> chunks s c)" and fl: "free_list t = (free_list s)(c := X @ free_list s c)"
    and new: "set X \<inter> chunks s d = {}" for d using assms(2) by (simp_all add: grown_def)
  show "slab_live t = slab_live s"
    unfolding slab_live_def ch fl using new [of c] by (auto split: if_splits)
  show "heap t b = heap s b" if "(d, b) \<in> slab_live s"
    using assms(2) slab_liveD(1) [OF that] live_not_free [OF assms(1) that] unfolding grown_def by blast
qed

lemma taken_live:
  assumes "slabs_inv s" "taken c a s t"
  shows "slab_live t = insert (c, a) (slab_live s)" "(c, a) \<notin> slab_live s" "a \<noteq> 0"
    "(d, b) \<in> slab_live s \<Longrightarrow> heap t b = heap s b"
proof -
  have L: "free_list s c = a # free_list t c" and o: "\<And>d. d \<noteq> c \<Longrightarrow> free_list t d = free_list s d" and ch: "chunks t = chunks s"
    using assms(2) by (auto simp: taken_def)
  have "distinct (free_list s c)" using lists_okD(2) [OF free_okD(1) [OF slabs_invD(3) [OF assms(1)]]] .
  then have a: "a \<notin> set (free_list t c)" using L by simp
  have ac: "a \<in> chunks s c" using slabs_invD(4) [OF assms(1), of c] L by auto
  show "slab_live t = insert (c, a) (slab_live s)"
  proof (rule set_eqI)
    fix x :: "nat \<times> nat"
    obtain d b where x: "x = (d, b)" by fastforce
    show "x \<in> slab_live t \<longleftrightarrow> x \<in> insert (c, a) (slab_live s)"
      using a ac L o [of d] unfolding x slab_live_def ch by (cases "d = c") auto
  qed
  show "(c, a) \<notin> slab_live s" using L by (auto simp: slab_live_def)
  show "a \<noteq> 0" by (rule chunk_not_null [OF assms(1) ac])
  show "heap t b = heap s b" if "(d, b) \<in> slab_live s"
    using assms(2) live_not_free [OF assms(1) that] unfolding taken_def by blast
qed

lemma do_slabs_alloc_spec:
  assumes inv: "slabs_inv s" and fresh: "class_range s c \<Longrightarrow> malloc_fresh s mr (page_len s c)"
  shows "\<exists>a t. do_slabs_alloc ro mr c fl s = Some (a, t) \<and> slabs_inv t \<and> slabs_state.more t = slabs_state.more s \<and>
    settings t = settings s \<and> class_range t = class_range s \<and> power_largest t = power_largest s \<and>
    (\<forall>d. cls_size (slabclass t ! d) = cls_size (slabclass s ! d)) \<and>
    (if a = 0 then slab_live t = slab_live s \<and> same_pages s t \<and> (class_range s c \<longrightarrow> free_list s c = [])
     else class_range s c \<and> (c, a) \<notin> slab_live s \<and> slab_live t = insert (c, a) (slab_live s) \<and>
       it_flags (heap t a) = 0 \<and> it_refcount (heap t a) = 1) \<and>
    (\<forall>d b. (d, b) \<in> slab_live s \<longrightarrow> heap t b = heap s b)"
proof (cases "class_range s c")
  case False
  then have "do_slabs_alloc ro mr c fl s = Some (0, s)" by (auto simp: do_slabs_alloc_def class_range_def)
  with inv False show ?thesis by simp
next
  case True
  have "\<exists>X s1. (if sl_curr (slabclass s ! c) = 0 \<and> fl \<noteq> SLABS_ALLOC_NO_NEWPAGE
           then map_option snd (do_slabs_newslab ro mr c s) else Some s) = Some s1 \<and> grown c X s s1 \<and> (X = [] \<longrightarrow> same_pages s s1)"
    using newslab_inv [OF inv True fresh [OF True]] grown_none_shape [OF inv same_shape_refl] by fastforce
  then obtain X s1 where s1: "(if sl_curr (slabclass s ! c) = 0 \<and> fl \<noteq> SLABS_ALLOC_NO_NEWPAGE
           then map_option snd (do_slabs_newslab ro mr c s) else Some s) = Some s1" and g: "grown c X s s1" "X = [] \<longrightarrow> same_pages s s1" by blast
  have eq: "do_slabs_alloc ro mr c fl s = Some (if sl_curr (slabclass s1 ! c) \<noteq> 0 then pop_slot c s1 else (0, s1))"
    using True s1 by (simp add: do_slabs_alloc_def class_range_def)
  have i1: "slabs_inv s1" and c1: "class_range s1 c" and same: "slabs_state.more s1 = slabs_state.more s" "settings s1 = settings s"
    "class_range s1 = class_range s" "power_largest s1 = power_largest s" "\<And>d. cls_size (slabclass s1 ! d) = cls_size (slabclass s ! d)"
    using g(1) True by (auto simp: grown_def)
  note gl = grown_live [OF inv g(1)]
  show ?thesis
  proof (cases "sl_curr (slabclass s1 ! c) = 0")
    case True
    have "free_list s1 c = X @ free_list s c" using g(1) by (simp add: grown_def)
    then have "X = []" "free_list s c = []" using True free_okD(3) [OF slabs_invD(3) [OF i1] c1] by simp_all
    with True eq i1 same gl g(2) show ?thesis by auto
  next
    case False
    from pop_slot_taken [OF i1 c1 False] obtain a t where p: "pop_slot c s1 = (a, t)" and t: "taken c a s1 t" by blast
    note tl = taken_live [OF i1 t]
    have "slabs_inv t" "slabs_state.more t = slabs_state.more s" "settings t = settings s" "class_range t = class_range s"
      "power_largest t = power_largest s" "\<And>d. cls_size (slabclass t ! d) = cls_size (slabclass s ! d)"
      "it_flags (heap t a) = 0" "it_refcount (heap t a) = 1" using t same by (simp_all add: taken_def)
    with False eq p tl gl \<open>class_range s c\<close> show ?thesis by simp
  qed
qed

section \<open>Writing and freeing\<close>

lemma write_inv:
  assumes inv: "slabs_inv s" and l: "(c, a) \<in> slab_live s" and g: "it_flags (g (heap s a)) \<noteq> ITEM_SLABBED"
  shows "slabs_inv (upd_item a g s)" "free_list (upd_item a g s) = free_list s" "chunks (upd_item a g s) = chunks s"
    "slab_live (upd_item a g s) = slab_live s"
proof -
  let ?s = "upd_item a g s"
  note D = slabs_invD [OF inv] and nf = live_not_free [OF inv l]
  have only: "only_free c s ?s"
    unfolding upd_item_def by (rule only_free_heap) (rule class_range_bound [OF D(1) slab_liveD(3) [OF l]])
  note lay = only_free_layout [OF only] and st = only_free_state [OF only]
  have "lists_ok (heap ?s) (free_list s)" by (rule lists_ok_cong [OF free_okD(1) [OF D(3)]]) (use nf(1) in auto)
  then have f: "free_ok ?s (free_list s)" using D(3) nf(1) unfolding free_ok_def by auto
  show F: "free_list ?s = free_list s" by (rule free_ok_list [OF f])
  show "chunks ?s = chunks s" by (rule lay)
  then show "slab_live ?s = slab_live s" by (simp add: slab_live_def F)
  have "b \<in> set (free_list s d)" if "b \<in> chunks s d" "it_flags (heap ?s b) = ITEM_SLABBED" for b d
    using D(5) [OF that(1)] that(2) g by (cases "b = a") auto
  then show "slabs_inv ?s" unfolding slabs_inv_def F lay using D(1,2,4,6,7) f by (simp add: st)
qed

lemma push_inv:
  assumes inv: "slabs_inv s" and l: "(c, a) \<in> slab_live s" and g: "it_flags (g (heap s a)) = ITEM_SLABBED"
  defines "t \<equiv> push_slot c a (upd_item a g s)"
  shows "slabs_inv t" "free_list t = (free_list s)(c := a # free_list s c)" "chunks t = chunks s"
    "slab_live t = slab_live s - {(c, a)}" "only_free c s t"
    "\<And>d b. (d, b) \<in> slab_live s \<Longrightarrow> (d, b) \<noteq> (c, a) \<Longrightarrow> heap t b = heap s b"
proof -
  note D = slabs_invD [OF inv] and nf = live_not_free [OF inv l] and lD = slab_liveD [OF l]
  show only: "only_free c s t" unfolding t_def by (rule push_slot_only_free) (rule class_range_bound [OF D(1) lD(3)])
  note lay = only_free_layout [OF only] and st = only_free_state [OF only]
  have f: "free_ok t ((free_list s)(c := a # free_list s c))"
    unfolding t_def by (rule push_free_ok [where g = g, OF D(3,1) lD(3) nf(2) nf(1) g])
  show F: "free_list t = (free_list s)(c := a # free_list s c)" by (rule free_ok_list [OF f])
  show ch: "chunks t = chunks s" by (rule lay)
  show "slab_live t = slab_live s - {(c, a)}" unfolding slab_live_def F ch by (auto split: if_splits)
  have keep: "heap t b = heap s b" if "b \<noteq> a" "b \<notin> set (free_list s c)" "b \<noteq> 0" for b
    unfolding t_def using that by (intro push_frame [OF D(3) lD(3)])
  have "b \<in> set (((free_list s)(c := a # free_list s c)) d)" if b: "b \<in> chunks s d" "it_flags (heap t b) = ITEM_SLABBED" for b d
  proof (cases "b = a \<or> b \<in> set (free_list s c)")
    case True
    then have "b \<in> chunks s c" using lD(1) D(4) by blast
    with True chunks_unique [OF inv b(1)] show ?thesis by auto
  next
    case False
    with keep [of b] b chunk_not_null [OF inv b(1)] have "it_flags (heap s b) = ITEM_SLABBED" by simp
    from D(5) [OF b(1) this] show ?thesis by auto
  qed
  moreover have "set (((free_list s)(c := a # free_list s c)) d) \<subseteq> chunks s d" for d using D(4) [of d] lD(1) by auto
  ultimately show "slabs_inv t" unfolding slabs_inv_def F lay using D(1,2,6,7) f by (simp add: st)
  show "heap t b = heap s b" if "(d, b) \<in> slab_live s" "(d, b) \<noteq> (c, a)" for d b
    using keep [of b] live_not_free [OF inv that(1)] live_unique [OF inv that(1)] l that(2) by blast
qed

lemma do_slabs_free_spec:
  assumes inv: "slabs_inv s" and l: "(c, a) \<in> slab_live s" and plain: "it_flags (heap s a) AND ITEM_CHUNKED = 0"
  shows "\<exists>t. do_slabs_free a c s = Some t \<and> slabs_inv t \<and> slab_live t = slab_live s - {(c, a)} \<and>
    free_list t = (free_list s)(c := a # free_list s c) \<and> chunks t = chunks s \<and> only_free c s t \<and>
    (\<forall>d b. (d, b) \<in> slab_live s \<longrightarrow> (d, b) \<noteq> (c, a) \<longrightarrow> heap t b = heap s b)"
  using do_slabs_free_plain [OF slab_liveD(3) [OF l] plain]
    push_inv [OF inv l, of "\<lambda>i. i\<lparr>it_flags := ITEM_SLABBED, it_clsid := of_nat c\<rparr>"] by simp

section \<open>The contract\<close>

type_synonym slab_request = "bool \<times> nat \<times> nat"

definition slab_alloc :: "slab_request \<Rightarrow> nat \<Rightarrow> 'a slabs_state_scheme \<Rightarrow> nat \<times> 'a slabs_state_scheme" where
  "slab_alloc r c s =
     (case r of (ro, mr, fl) \<Rightarrow> (case do_slabs_alloc ro mr c fl s of Some x \<Rightarrow> x | None \<Rightarrow> (0, s)))"

definition slab_release :: "nat \<Rightarrow> nat \<Rightarrow> 'a slabs_state_scheme \<Rightarrow> 'a slabs_state_scheme" where
  "slab_release c a s = (case do_slabs_free a c s of Some t \<Rightarrow> t | None \<Rightarrow> s)"

definition slab_write :: "nat \<Rightarrow> nat \<Rightarrow> item \<Rightarrow> 'a slabs_state_scheme \<Rightarrow> 'a slabs_state_scheme" where
  "slab_write c a w s = upd_item a (\<lambda>_. w) s"

definition slab_can_alloc :: "slab_request \<Rightarrow> nat \<Rightarrow> 'a slabs_state_scheme \<Rightarrow> bool" where
  "slab_can_alloc r c s \<longleftrightarrow> (class_range s c \<longrightarrow> malloc_fresh s (fst (snd r)) (page_len s c))"

definition plain_item :: "item \<Rightarrow> bool" where
  "plain_item w \<longleftrightarrow> it_flags w AND ITEM_CHUNKED = 0"

definition used_item :: "item \<Rightarrow> bool" where
  "used_item w \<longleftrightarrow> it_flags w \<noteq> ITEM_SLABBED"

lemma slab_alloc_spec:
  assumes "slabs_inv s" "slab_can_alloc r c s"
  shows "slabs_inv (snd (slab_alloc r c s)) \<and>
    (if fst (slab_alloc r c s) = 0 then slab_live (snd (slab_alloc r c s)) = slab_live s
     else (c, fst (slab_alloc r c s)) \<notin> slab_live s \<and> slab_live (snd (slab_alloc r c s)) = insert (c, fst (slab_alloc r c s)) (slab_live s)) \<and>
    (\<forall>d b. (d, b) \<in> slab_live s \<longrightarrow> heap (snd (slab_alloc r c s)) b = heap s b)"
proof -
  obtain ro mr fl where r: "r = (ro, mr, fl)" by (cases r)
  have "class_range s c \<Longrightarrow> malloc_fresh s mr (page_len s c)" using assms(2) by (simp add: slab_can_alloc_def r)
  from do_slabs_alloc_spec [OF assms(1) this, where ro = ro and fl = fl] obtain a t where
    e: "do_slabs_alloc ro mr c fl s = Some (a, t)" and p: "slabs_inv t"
      "if a = 0 then slab_live t = slab_live s else (c, a) \<notin> slab_live s \<and> slab_live t = insert (c, a) (slab_live s)"
      "\<forall>d b. (d, b) \<in> slab_live s \<longrightarrow> heap t b = heap s b" by (auto split: if_splits)
  from e have "slab_alloc r c s = (a, t)" by (simp add: slab_alloc_def r)
  with p show ?thesis by simp
qed

lemma slab_release_spec:
  assumes "slabs_inv s" "(c, a) \<in> slab_live s" "plain_item (heap s a)"
  shows "slabs_inv (slab_release c a s)" "slab_live (slab_release c a s) = slab_live s - {(c, a)}"
    "(d, b) \<in> slab_live s \<Longrightarrow> (d, b) \<noteq> (c, a) \<Longrightarrow> heap (slab_release c a s) b = heap s b"
  using do_slabs_free_spec [OF assms(1,2)] assms(3) by (auto simp: slab_release_def plain_item_def)

interpretation pool: chunk_pool slab_alloc slab_release slab_write slab_live heap slab_block slab_can_alloc plain_item used_item slabs_inv
proof
  fix s :: "'a slabs_state_scheme" and r c a d b and w :: item and x y
  assume inv: "slabs_inv s"
  show "slabs_inv (snd (slab_alloc r c s))" if "slab_can_alloc r c s"
    using slab_alloc_spec [OF inv that] by simp
  show "slab_live (snd (slab_alloc r c s)) = slab_live s" if "slab_can_alloc r c s" "fst (slab_alloc r c s) = 0"
    using slab_alloc_spec [OF inv that(1)] that(2) by simp
  show "(c, a) \<notin> slab_live s \<and> slab_live (snd (slab_alloc r c s)) = insert (c, a) (slab_live s)"
    if "slab_can_alloc r c s" "fst (slab_alloc r c s) = a" "a \<noteq> 0"
    using slab_alloc_spec [OF inv that(1)] that(2,3) by simp
  show "heap (snd (slab_alloc r c s)) b = heap s b" if "slab_can_alloc r c s" "(d, b) \<in> slab_live s"
    using slab_alloc_spec [OF inv that(1)] that(2) by blast
  show "slabs_inv (slab_release c a s)" if "(c, a) \<in> slab_live s" "plain_item (heap s a)"
    by (rule slab_release_spec(1) [OF inv that])
  show "slab_live (slab_release c a s) = slab_live s - {(c, a)}" if "(c, a) \<in> slab_live s" "plain_item (heap s a)"
    by (rule slab_release_spec(2) [OF inv that])
  show "heap (slab_release c a s) b = heap s b"
    if "(c, a) \<in> slab_live s" "plain_item (heap s a)" "(d, b) \<in> slab_live s" "(d, b) \<noteq> (c, a)"
    by (rule slab_release_spec(3) [OF inv that])
  show "slabs_inv (slab_write c a w s)" "slab_live (slab_write c a w s) = slab_live s" if "(c, a) \<in> slab_live s" "used_item w"
    using write_inv [OF inv that(1)] that(2) by (simp_all add: slab_write_def used_item_def)
  show "heap (slab_write c a w s) b = (if (d, b) = (c, a) then w else heap s b)"
    if "(c, a) \<in> slab_live s" "used_item w" "(d, b) \<in> slab_live s"
    using live_unique [OF inv that(1), of d] that(3) by (auto simp: slab_write_def)
  show "slab_block s x \<inter> slab_block s y = {}" if "x \<in> slab_live s" "y \<in> slab_live s" "x \<noteq> y"
    unfolding slab_block_def using that slab_liveD(1) [of "fst x" "snd x" s] slab_liveD(1) [of "fst y" "snd y" s]
    by (intro chunk_blocks_disjoint [OF inv]) (simp_all add: prod_eq_iff)
qed

section \<open>Freeing a chunked item\<close>

text \<open>The chunks hanging off a header, in the classes their own headers name.\<close>

fun chunk_chain :: "heap \<Rightarrow> nat \<Rightarrow> nat list \<Rightarrow> bool" where
  "chunk_chain h a [] \<longleftrightarrow> a = 0"
| "chunk_chain h a (c # cs) \<longleftrightarrow> a = c \<and> chunk_chain h (it_next (h c)) cs"

definition chunk_ref :: "heap \<Rightarrow> nat \<Rightarrow> nat \<times> nat" where
  "chunk_ref h a = (unat (it_clsid (h a)), a)"

lemma chunk_chain_cong:
  assumes "\<And>b. b \<in> set cs \<Longrightarrow> it_next (h' b) = it_next (h b)"
  shows "chunk_chain h' a cs = chunk_chain h a cs"
  using assms by (induction cs arbitrary: a) simp_all

lemma free_chunks_loop_spec:
  assumes "slabs_inv s" "chunk_chain (heap s) a cs" "distinct cs" "\<forall>b \<in> set cs. chunk_ref (heap s) b \<in> slab_live s"
  shows "\<exists>t. free_chunks_loop a s = Some t \<and> slabs_inv t \<and> slab_live t = slab_live s - chunk_ref (heap s) ` set cs \<and>
    slabs_state.more t = slabs_state.more s \<and>
    (\<forall>x \<in> slab_live t. heap t (snd x) = heap s (snd x))"
  using assms
proof (induction cs arbitrary: a s)
  case Nil
  then show ?case by (simp add: free_chunks_loop.simps)
next
  case (Cons b cs)
  let ?g = "\<lambda>c. c\<lparr>it_flags := ITEM_SLABBED\<rparr>" and ?k = "unat (it_clsid (heap s b))"
  let ?t = "push_slot ?k b (upd_item b ?g s)"
  have l: "(?k, b) \<in> slab_live s" and a: "a = b" and ne: "b \<noteq> 0"
    using Cons.prems live_not_free(2) [OF Cons.prems(1)] by (auto simp: chunk_ref_def)
  note P = push_inv [OF Cons.prems(1) l, of ?g, simplified]
  have keep: "heap ?t d = heap s d" if "d \<in> set cs" for d
  proof -
    have "d \<noteq> b" "chunk_ref (heap s) d \<in> slab_live s" using that Cons.prems(3,4) by auto
    then show ?thesis using P(6) [of "unat (it_clsid (heap s d))" d] by (simp add: chunk_ref_def)
  qed
  have ref: "chunk_ref (heap ?t) d = chunk_ref (heap s) d" if "d \<in> set cs" for d using keep [OF that] by (simp add: chunk_ref_def)
  have chain: "chunk_chain (heap ?t) (it_next (heap s b)) cs" using Cons.prems(2) keep by (subst chunk_chain_cong [of _ _ "heap s"]) auto
  have live: "\<forall>d \<in> set cs. chunk_ref (heap ?t) d \<in> slab_live ?t"
    using ref P(4) Cons.prems(3,4) by (auto simp: chunk_ref_def)
  have step: "free_chunks_loop a s = free_chunks_loop (it_next (heap s b)) ?t"
    using a ne by (subst free_chunks_loop.simps) (simp add: Let_def)
  from Cons.IH [OF P(1) chain _ live] Cons.prems(3) obtain t where t: "free_chunks_loop (it_next (heap s b)) ?t = Some t" "slabs_inv t"
    "slab_live t = slab_live ?t - chunk_ref (heap ?t) ` set cs" "slabs_state.more t = slabs_state.more ?t"
    "\<forall>x \<in> slab_live t. heap t (snd x) = heap ?t (snd x)" by auto
  have img: "chunk_ref (heap ?t) ` set cs = chunk_ref (heap s) ` set cs" using ref by (intro image_cong) auto
  have "slab_live t = slab_live s - chunk_ref (heap s) ` set (b # cs)"
    unfolding t(3) img P(4) by (auto simp: chunk_ref_def)
  moreover have "heap t (snd x) = heap s (snd x)" if "x \<in> slab_live t" for x
  proof -
    obtain d e where x: "x = (d, e)" by fastforce
    have "(d, e) \<in> slab_live s" "(d, e) \<noteq> (?k, b)" using that unfolding t(3) P(4) x by auto
    then have "heap ?t e = heap s e" using P(6) [of d e] by simp
    with t(5) that x show ?thesis by (metis snd_conv)
  qed
  ultimately show ?case using step t(1,2,4) only_free_state(9) [OF P(5)] by (intro exI [of _ t]) simp
qed

text \<open>A chunked item in memory: a header of the class its embedded chunk names, and a chain of chunks in use.\<close>

definition chunked_item :: "'a slabs_state_scheme \<Rightarrow> nat \<Rightarrow> nat list \<Rightarrow> bool" where
  "chunked_item s a cs \<longleftrightarrow>
     it_flags (heap s a) AND ITEM_CHUNKED \<noteq> 0 \<and> (unat (sch_orig (heap s a)), a) \<in> slab_live s \<and>
     chunk_chain (heap s) (sch_next (heap s a)) cs \<and> distinct (a # cs) \<and>
     (\<forall>b \<in> set cs. chunk_ref (heap s) b \<in> slab_live s \<and> it_flags (heap s b) \<noteq> ITEM_SLABBED)"

lemma do_slabs_free_chunked_spec:
  assumes inv: "slabs_inv s" and ci: "chunked_item s a cs" and c: "class_range s c"
  shows "\<exists>t. do_slabs_free a c s = Some t \<and> slabs_inv t \<and>
    slab_live t = slab_live s - ({(unat (sch_orig (heap s a)), a)} \<union> chunk_ref (heap s) ` set cs) \<and>
    slabs_state.more t = slabs_state.more s \<and> (\<forall>x \<in> slab_live t. heap t (snd x) = heap s (snd x))"
proof -
  let ?k = "unat (sch_orig (heap s a))" and ?n = "sch_next (heap s a)"
  let ?u = "\<lambda>c. c\<lparr>it_prev := 0\<rparr>" and ?g = "\<lambda>i. i\<lparr>it_flags := ITEM_SLABBED, it_prev := 0\<rparr>"
  note C = ci [unfolded chunked_item_def]
  have hd: "?n \<noteq> 0 \<Longrightarrow> \<exists>cs'. cs = ?n # cs'" using C by (cases cs) auto
  define s1 where "s1 = (if ?n \<noteq> 0 then upd_item ?n ?u s else s)"
  have na: "?n \<noteq> a" if "?n \<noteq> 0" using hd [OF that] C by auto
  have s1: "slabs_inv s1 \<and> slab_live s1 = slab_live s"
  proof (cases "?n = 0")
    case False
    then obtain d where "(d, ?n) \<in> slab_live s" "it_flags (?u (heap s ?n)) \<noteq> ITEM_SLABBED" using hd C by (auto simp: chunk_ref_def)
    with write_inv [OF inv, of d ?n ?u] False show ?thesis by (simp add: s1_def)
  qed (simp add: s1_def inv)
  have h1: "heap s1 b = (if b = ?n \<and> ?n \<noteq> 0 then ?u (heap s b) else heap s b)" for b by (simp add: s1_def)
  have l1: "(?k, a) \<in> slab_live s1" using s1 C by simp
  let ?t = "push_slot ?k a (upd_item a ?g s1)"
  note P = push_inv [OF conjunct1 [OF s1] l1, of ?g, simplified]
  have eq: "do_slabs_free a c s = free_chunks_loop ?n ?t"
  proof -
    have "upd_item ?n ?u (upd_item a ?g s) = upd_item a ?g (upd_item ?n ?u s)" if "?n \<noteq> 0"
      using na [OF that] by (simp add: upd_item_def fun_upd_twist)
    then show ?thesis using c C by (auto simp: do_slabs_free_def do_slabs_free_chunked_def Let_def class_range_def s1_def)
  qed
  have keep: "it_next (heap ?t b) = it_next (heap s b)" "chunk_ref (heap ?t) b = chunk_ref (heap s) b" if b: "b \<in> set cs" for b
  proof -
    have "(unat (it_clsid (heap s b)), b) \<in> slab_live s1" "b \<noteq> a" using C s1 b by (auto simp: chunk_ref_def)
    then have "heap ?t b = heap s1 b" using P(6) by simp
    then show "it_next (heap ?t b) = it_next (heap s b)" "chunk_ref (heap ?t) b = chunk_ref (heap s) b"
      by (simp_all add: h1 chunk_ref_def del: push_slot_fields)
  qed
  have chain: "chunk_chain (heap ?t) ?n cs" using C keep(1) by (subst chunk_chain_cong [of _ _ "heap s"]) auto
  have img: "chunk_ref (heap ?t) ` set cs = chunk_ref (heap s) ` set cs" using keep(2) by (intro image_cong) auto
  have "\<forall>b \<in> set cs. chunk_ref (heap ?t) b \<in> slab_live ?t"
    unfolding P(4) using keep(2) C s1 by (auto simp: chunk_ref_def)
  from free_chunks_loop_spec [OF P(1) chain _ this] C obtain t where t: "free_chunks_loop ?n ?t = Some t" "slabs_inv t"
    "slab_live t = slab_live ?t - chunk_ref (heap s) ` set cs" "slabs_state.more t = slabs_state.more ?t"
    "\<forall>x \<in> slab_live t. heap t (snd x) = heap ?t (snd x)" unfolding img by auto
  have "slabs_state.more t = slabs_state.more s" using t(4) by (simp add: push_slot_def s1_def)
  moreover have "slab_live t = slab_live s - ({(?k, a)} \<union> chunk_ref (heap s) ` set cs)" unfolding t(3) P(4) using s1 by auto
  moreover have "heap t (snd x) = heap s (snd x)" if x: "x \<in> slab_live t" for x
  proof -
    obtain d e where de: "x = (d, e)" by fastforce
    have live: "(d, e) \<in> slab_live s1" "(d, e) \<noteq> (?k, a)" "(d, e) \<notin> chunk_ref (heap s) ` set cs"
      using x unfolding t(3) P(4) de by auto
    have "e \<noteq> ?n \<or> ?n = 0"
    proof (rule ccontr)
      assume "\<not> (e \<noteq> ?n \<or> ?n = 0)"
      then have "e \<in> set cs" using hd by auto
      then have "chunk_ref (heap s) e \<in> slab_live s" using C by blast
      with live live_unique [OF inv] s1 \<open>e \<in> set cs\<close> show False by (auto simp: chunk_ref_def)
    qed
    then have "heap s1 e = heap s e" by (auto simp: h1)
    moreover have "heap ?t e = heap s1 e" using P(6) [of d e] live by simp
    ultimately show ?thesis using t(5) x de by (metis snd_conv)
  qed
  ultimately show ?thesis unfolding eq using t(1,2) by blast
qed

end
