(* ===== verification/Slab_Init.thy ===== *)
theory Slab_Init
  imports Slab_Pool
begin

text \<open>
  What \<^verbatim>\<open>slabs_init\<close> sets up, and how \<^verbatim>\<open>slabs_clsid\<close> uses it: the class sizes are multiples of 8 that
  grow up to the largest chunk, the allocator's invariant holds from the start, and the class chosen for a
  size is the smallest that fits.
\<close>

section \<open>The layout of the classes\<close>

lemma align_chunk_props:
  "8 dvd align_chunk n" "n \<le> align_chunk n" "n \<le> m \<Longrightarrow> 8 dvd m \<Longrightarrow> align_chunk n \<le> m"
proof -
  define d where "d = n div 8"
  define r where "r = n mod 8"
  have n: "n = 8 * d + r" "r < 8" by (simp_all add: d_def r_def)
  have a: "align_chunk n = (if r = 0 then 8 * d else 8 * (d + 1))" using n by (simp add: align_chunk_def r_def [symmetric])
  show "8 dvd align_chunk n" by (simp add: a)
  show "n \<le> align_chunk n" by (rule align_chunk_ge)
  show "align_chunk n \<le> m" if le: "n \<le> m" and dv: "8 dvd m"
  proof -
    obtain q where q: "m = 8 * q" using dv ..
    have "8 * d + r \<le> 8 * q" using le n(1) q by simp
    then have "r = 0 \<and> d \<le> q \<or> d + 1 \<le> q" using n(2) by presburger
    then show ?thesis by (auto simp: a q)
  qed
qed

text \<open>
  The configurations the program accepts: a growth factor of at least 1, a largest chunk that is a multiple
  of 8 and fits a page, and configured sizes that do not exceed it.
\<close>

definition config_ok :: "settings \<Rightarrow> rat \<Rightarrow> nat list option \<Rightarrow> bool" where
  "config_ok st factor szs \<longleftrightarrow>
     1 \<le> factor \<and> 0 < st_slab_chunk_size_max st \<and> 8 dvd st_slab_chunk_size_max st \<and>
     st_slab_chunk_size_max st \<le> st_slab_page_size st \<and>
     (case szs of None \<Rightarrow> True
      | Some ss \<Rightarrow> length ss = MAX_NUMBER_OF_SLAB_CLASSES \<and> (\<forall>x \<in> set ss. x \<le> st_slab_chunk_size_max st))"

definition class_laid :: "settings \<Rightarrow> slabclass_t \<Rightarrow> bool" where
  "class_laid st p \<longleftrightarrow>
     8 dvd cls_size p \<and> 0 < cls_size p \<and> cls_size p \<le> st_slab_chunk_size_max st \<and>
     perslab p = st_slab_page_size st div cls_size p \<and>
     slots p = 0 \<and> sl_curr p = 0 \<and> slabs p = 0 \<and> slab_list p = [] \<and> list_size p = 0"

lemma floor_growth:
  assumes "(1 :: rat) \<le> f"
  shows "n \<le> nat \<lfloor>of_nat n * f\<rfloor>"
proof -
  have "(of_nat n :: rat) * 1 \<le> of_nat n * f" using assms by (intro mult_left_mono) simp_all
  then have "(of_int (int n) :: rat) \<le> of_nat n * f" by simp
  then have "int n \<le> \<lfloor>of_nat n * f\<rfloor>" by (simp only: le_floor_iff)
  then show ?thesis by linarith
qed

lemma chunk_size_fits:
  assumes c: "config_ok st f szs" and sz: "0 < sz" and i: "i < 63"
    and go: "\<not> (case szs of Some ss \<Rightarrow> ss ! (i - 1) = 0 | None \<Rightarrow> of_nat sz \<ge> of_nat (st_slab_chunk_size_max st) / f)"
    and w: "w = (case szs of Some ss \<Rightarrow> ss ! (i - 1) | None \<Rightarrow> sz)"
  shows "0 < w \<and> w \<le> st_slab_chunk_size_max st"
proof (cases szs)
  case None
  let ?m = "st_slab_chunk_size_max st"
  have f: "1 \<le> f" using c by (simp add: config_ok_def)
  have "of_nat sz < of_nat ?m / f" using go None by simp
  also have "of_nat ?m / f \<le> of_nat ?m" using f mult_left_mono [of 1 f "of_nat ?m"] by (simp add: divide_le_eq)
  finally have "sz < ?m" by (simp only: of_nat_less_iff)
  then show ?thesis using None sz w by simp
next
  case (Some ss)
  then have "ss ! (i - 1) \<in> set ss" using c i by (simp add: config_ok_def)
  then show ?thesis using Some c go w by (auto simp: config_ok_def)
qed

text \<open>The result of the loop entered at class \<open>i\<close> with size \<open>sz\<close> and left at class \<open>k\<close>.\<close>

definition lays :: "settings \<Rightarrow> bool \<Rightarrow> nat \<Rightarrow> nat \<Rightarrow> slabclass_t list \<Rightarrow> nat \<Rightarrow> slabclass_t list \<Rightarrow> bool" where
  "lays st grow i sz cs k cs' \<longleftrightarrow>
     i \<le> k \<and> k \<le> 63 \<and> length cs' = 64 \<and> (\<forall>j. j < i \<longrightarrow> cs' ! j = cs ! j) \<and>
     (\<forall>j. k \<le> j \<longrightarrow> j < 64 \<longrightarrow> cs' ! j = blank_class) \<and> (\<forall>j. i \<le> j \<longrightarrow> j < k \<longrightarrow> class_laid st (cs' ! j)) \<and>
     (grow \<longrightarrow> (\<forall>j. i \<le> j \<longrightarrow> j < k \<longrightarrow> sz \<le> cls_size (cs' ! j)) \<and>
       (\<forall>j l. i \<le> j \<longrightarrow> j \<le> l \<longrightarrow> l < k \<longrightarrow> cls_size (cs' ! j) \<le> cls_size (cs' ! l)))"

lemma lays_step:
  assumes c: "class_laid st c" "grow \<Longrightarrow> sz \<le> cls_size c \<and> cls_size c \<le> sz2" and i: "i < 63" "length cs = 64"
    and l: "lays st grow (i + 1) sz2 (cs[i := c]) k cs'"
  shows "lays st grow i sz cs k cs'"
proof -
  have at: "cs' ! i = c" using l i by (simp add: lays_def)
  have below: "cs' ! j = cs ! j" if "j < i" for j using l that by (auto simp: lays_def)
  have split: "j = i \<or> i + 1 \<le> j" if "i \<le> j" for j using that by linarith
  have laid: "class_laid st (cs' ! j)" if "i \<le> j" "j < k" for j using split [OF that(1)] at c(1) l that(2) by (auto simp: lays_def)
  have above: "sz2 \<le> cls_size (cs' ! j)" if "i + 1 \<le> j" "j < k" grow for j using l that by (simp add: lays_def)
  have ge: "sz \<le> cls_size (cs' ! j)" if "i \<le> j" "j < k" grow for j
    using split [OF that(1)] at c(2) [OF that(3)] above [OF _ that(2,3)] by auto
  have mono: "cls_size (cs' ! j) \<le> cls_size (cs' ! m)" if "i \<le> j" "j \<le> m" "m < k" grow for j m
  proof (cases "i + 1 \<le> j")
    case True
    with l that show ?thesis by (simp add: lays_def)
  next
    case False
    with that have j: "j = i" by simp
    then show ?thesis using split [of m] that at c(2) [OF that(4)] above [OF _ that(3,4)] by fastforce
  qed
  show ?thesis using l laid ge mono below unfolding lays_def by auto
qed

lemma init_classes_laid:
  assumes "config_ok st f szs" "init_classes st f szs i sz cs = (k, cs')" "i \<le> 63" "0 < sz" "length cs = 64"
    and "\<And>j. i \<le> j \<Longrightarrow> j < 64 \<Longrightarrow> cs ! j = blank_class"
  shows "lays st (szs = None) i sz cs k cs'"
  using assms
proof (induction "63 - i" arbitrary: i sz cs rule: less_induct)
  case less
  define stop where "stop = (case szs of Some ss \<Rightarrow> ss ! (i - 1) = 0 | None \<Rightarrow> of_nat sz \<ge> of_nat (st_slab_chunk_size_max st) / f)"
  define w where "w = (case szs of Some ss \<Rightarrow> ss ! (i - 1) | None \<Rightarrow> sz)"
  define c where "c = (cs ! i)\<lparr>cls_size := align_chunk w, perslab := st_slab_page_size st div align_chunk w\<rparr>"
  define sz2 where "sz2 = (if szs = None then nat \<lfloor>of_nat (align_chunk w) * f\<rfloor> else align_chunk w)"
  have eq: "init_classes st f szs i sz cs = (if i < 63 \<and> \<not> stop then init_classes st f szs (i + 1) sz2 (cs[i := c]) else (i, cs))"
    by (subst init_classes.simps) (simp add: Let_def stop_def w_def c_def sz2_def)
  show ?case
  proof (cases "i < 63 \<and> \<not> stop")
    case False
    then have "k = i" "cs' = cs" using less.prems(2) eq by auto
    with less.prems(3-6) show ?thesis by (simp add: lays_def)
  next
    case True
    have w: "0 < w" "align_chunk w \<le> st_slab_chunk_size_max st"
      using chunk_size_fits [OF less.prems(1,4) _ _ w_def] True align_chunk_props(3) [of w "st_slab_chunk_size_max st"] less.prems(1)
      by (auto simp: stop_def config_ok_def)
    then have pos: "0 < align_chunk w" using align_chunk_props(2) [of w] by linarith
    have f: "1 \<le> f" using less.prems(1) by (simp add: config_ok_def)
    have gr: "align_chunk w \<le> sz2" unfolding sz2_def using floor_growth [OF f, of "align_chunk w"] by (cases "szs = None") (simp_all only: if_True if_False simp_thms order_refl)
    have laid: "class_laid st c" using w pos align_chunk_props(1) less.prems(6) [of i] True by (simp add: c_def class_laid_def blank_class_def)
    have "lays st (szs = None) (i + 1) sz2 (cs[i := c]) k cs'"
    proof (rule less.hyps)
      show "init_classes st f szs (i + 1) sz2 (cs[i := c]) = (k, cs')" using less.prems(2) eq True by simp
      show "0 < sz2" using pos gr by linarith
      show "(cs[i := c]) ! j = blank_class" if "i + 1 \<le> j" "j < 64" for j using less.prems(6) [of j] that by simp
      show "63 - (i + 1) < 63 - i" using conjunct1 [OF True] by linarith
    qed (use less.prems(1,5) True in simp_all)
    then show ?thesis
    proof (rule lays_step [rotated -1])
      show "sz \<le> cls_size c \<and> cls_size c \<le> sz2" if "szs = None" using that gr align_chunk_props(2) [of sz] by (simp add: c_def w_def)
    qed (use laid less.prems(5) True in auto)
  qed
qed

lemma perslab_bounds:
  assumes "class_laid st p" "st_slab_chunk_size_max st \<le> st_slab_page_size st"
  shows "0 < perslab p" "cls_size p * perslab p \<le> st_slab_page_size st"
proof -
  have "cls_size p \<le> st_slab_page_size st" "0 < cls_size p" using assms by (auto simp: class_laid_def)
  then show "0 < perslab p" using assms(1) by (simp add: class_laid_def div_greater_zero_iff)
  show "cls_size p * perslab p \<le> st_slab_page_size st" using assms(1) by (simp add: class_laid_def)
qed

lemma init_slabclass_laid:
  assumes c: "config_ok (settings s) factor szs"
  shows "length (slabclass (init_slabclass factor szs s)) = 64"
    "1 \<le> power_largest (init_slabclass factor szs s)" "power_largest (init_slabclass factor szs s) < 64"
    "\<And>j. class_range (init_slabclass factor szs s) j \<Longrightarrow> class_laid (settings s) (slabclass (init_slabclass factor szs s) ! j)"
    "slabclass (init_slabclass factor szs s) ! 0 = blank_class"
    "cls_size (slabclass (init_slabclass factor szs s) ! power_largest (init_slabclass factor szs s)) = st_slab_chunk_size_max (settings s)"
    "\<And>j l. szs = None \<Longrightarrow> 1 \<le> j \<Longrightarrow> j \<le> l \<Longrightarrow> l \<le> power_largest (init_slabclass factor szs s) \<Longrightarrow>
       cls_size (slabclass (init_slabclass factor szs s) ! j) \<le> cls_size (slabclass (init_slabclass factor szs s) ! l)"
proof -
  let ?st = "settings s" and ?s = "init_slabclass factor szs s" and ?m = "st_slab_chunk_size_max (settings s)"
  let ?z = "replicate 64 blank_class"
  obtain k cs where e: "init_classes ?st factor szs 1 (48 + st_chunk_size ?st) ?z = (k, cs)" by fastforce
  have "lays ?st (szs = None) 1 (48 + st_chunk_size ?st) ?z k cs" by (rule init_classes_laid [OF c e]) simp_all
  note l = this [unfolded lays_def]
  let ?last = "(cs ! k)\<lparr>cls_size := ?m, perslab := st_slab_page_size ?st div ?m\<rparr>"
  have s: "power_largest ?s = k" "slabclass ?s = cs[k := ?last]" by (simp_all add: init_slabclass_def Let_def e [simplified])
  show "length (slabclass ?s) = 64" "1 \<le> power_largest ?s" "power_largest ?s < 64" using l by (simp_all add: s)
  show "slabclass ?s ! 0 = blank_class" using l by (auto simp: s)
  have last: "slabclass ?s ! k = ?last" using l by (simp add: s)
  then show "cls_size (slabclass ?s ! power_largest ?s) = ?m" by (simp add: s)
  have "class_laid ?st ?last" using l c by (simp add: class_laid_def blank_class_def config_ok_def)
  then show laid: "class_laid ?st (slabclass ?s ! j)" if "class_range ?s j" for j
    using that l by (cases "j = k") (auto simp: class_range_def s)
  show "cls_size (slabclass ?s ! j) \<le> cls_size (slabclass ?s ! m)" if "szs = None" "1 \<le> j" "j \<le> m" "m \<le> power_largest ?s" for j m
  proof (cases "m = k")
    case True
    have "class_range ?s j" using that True by (simp add: class_range_def s)
    from laid [OF this] show ?thesis using True last by (simp add: class_laid_def)
  next
    case False
    then have m: "m < k" using that(4) s(1) by linarith
    then have "cls_size (cs ! j) \<le> cls_size (cs ! m)" using that l by blast
    with that(2,3) m show ?thesis by (simp add: s)
  qed
qed

lemma init_slabclass_fields [simp]:
  "settings (init_slabclass factor szs s) = settings s" "heap (init_slabclass factor szs s) = heap s"
  "mem_base (init_slabclass factor szs s) = mem_base s" "mem_current (init_slabclass factor szs s) = mem_current s"
  by (simp_all add: init_slabclass_def Let_def split: prod.split)

lemma init_slabclass_inv:
  assumes c: "config_ok (settings s) factor szs" and m: "mem_base s \<noteq> 0 \<Longrightarrow> mem_current s \<noteq> 0"
  shows "slabs_inv (init_slabclass factor szs s)" "slab_live (init_slabclass factor szs s) = {}"
proof -
  let ?s = "init_slabclass factor szs s"
  note I = init_slabclass_laid [OF c]
  have page: "st_slab_chunk_size_max (settings s) \<le> st_slab_page_size (settings s)" using c by (simp add: config_ok_def)
  have empty: "slabs (slabclass ?s ! j) = 0 \<and> slab_list (slabclass ?s ! j) = [] \<and> list_size (slabclass ?s ! j) = 0 \<and>
      sl_curr (slabclass ?s ! j) = 0 \<and> slots (slabclass ?s ! j) = 0" if "j \<le> power_largest ?s" for j
    using I(4) [of j] I(5) that by (cases "j = 0") (simp_all add: class_laid_def blank_class_def class_range_def)
  have P: "pages ?s j = []" for j using empty [of j] by (simp add: pages_def)
  have F: "free_list ?s j = []" for j using empty [of j] by (simp add: free_list_def class_range_def)
  have ch: "chunks ?s j = {}" for j by (simp add: chunks_def P)
  have C: "classes_ok ?s"
    unfolding classes_ok_def using I(1-3) empty perslab_bounds [OF I(4) page] I(4) by (simp add: class_laid_def)
  have "free_ok ?s (free_list ?s)"
    unfolding free_ok_def using empty by (simp add: F lists_ok_def class_range_def)
  then show "slabs_inv ?s" unfolding slabs_inv_def using C m by (simp add: pages_ok_def P F ch)
  show "slab_live ?s = {}" by (simp add: slab_live_def ch)
qed

section \<open>Preallocation\<close>

text \<open>What start-up fixes for good: the sizes of the classes and their number.\<close>

definition same_classes :: "'a slabs_state_scheme \<Rightarrow> 'a slabs_state_scheme \<Rightarrow> bool" where
  "same_classes s t \<longleftrightarrow>
     settings t = settings s \<and> power_largest t = power_largest s \<and> mem_base t = mem_base s \<and>
     (\<forall>d. cls_size (slabclass t ! d) = cls_size (slabclass s ! d))"

lemma preallocate_inv:
  assumes "slabs_inv s" "mem_base s \<noteq> 0" "n + 1 \<le> 64" "slab_live s = {}"
    "preallocate_loop ro mr (power_largest s) [n + 1..<64] n s = Some t"
  shows "slabs_inv t \<and> same_classes s t \<and> slab_live t = {}"
  using assms
proof (induction "64 - n" arbitrary: n s rule: less_induct)
  case less
  show ?case
  proof (cases "n + 1 < 64 \<and> n + 1 \<le> power_largest s")
    case False
    then have "t = s" using less.prems(5) by (cases "n + 1 < 64") (auto simp: upt_conv_Cons split: if_splits)
    with less.prems show ?thesis by (simp add: same_classes_def)
  next
    case True
    have c: "class_range s (n + 1)" using True by (simp add: class_range_def)
    have "malloc_fresh s mr (page_len s (n + 1))" using less.prems(2) by (simp add: malloc_fresh_def)
    from newslab_inv [OF less.prems(1) c this, where ro = ro] obtain b X u where
      u: "do_slabs_newslab ro mr (n + 1) s = Some (b, u)" and g: "grown (n + 1) X s u" by blast
    have same: "slabs_inv u" "same_classes s u" using g by (simp_all add: grown_def same_classes_def)
    have up: "[n + 1..<64] = (n + 1) # [n + 1 + 1..<64]" using True by (simp add: upt_conv_Cons)
    have step: "preallocate_loop ro mr (power_largest u) [n + 1 + 1..<64] (n + 1) u = Some t"
      using less.prems(5) True u same(2) unfolding up by (cases b) (simp_all add: same_classes_def)
    have "slabs_inv t \<and> same_classes u t \<and> slab_live t = {}"
      by (rule less.hyps [OF _ same(1) _ _ _ step])
        (use True less.prems(2,4) same(2) grown_live(1) [OF less.prems(1) g] in \<open>auto simp: same_classes_def\<close>)
    with same(2) show ?thesis by (auto simp: same_classes_def)
  qed
qed

section \<open>Choosing a class\<close>

lemma clsid_loop_spec:
  assumes "res \<le> largest" "largest < 64"
  shows "res \<le> clsid_loop cs largest sz res \<and> clsid_loop cs largest sz res \<le> largest \<and>
    (\<forall>d. res \<le> d \<longrightarrow> d < clsid_loop cs largest sz res \<longrightarrow> cls_size (cs ! d) < sz) \<and>
    (sz \<le> cls_size (cs ! clsid_loop cs largest sz res) \<or> clsid_loop cs largest sz res = largest)"
  using assms
proof (induction cs largest sz res rule: clsid_loop.induct)
  case (1 cs largest sz res)
  show ?case
  proof (cases "cls_size (cs ! res) < sz \<and> res \<noteq> largest")
    case True
    with "1.prems" have e: "clsid_loop cs largest sz res = clsid_loop cs largest sz (res + 1)"
      by (subst clsid_loop.simps) simp
    have IH: "res + 1 \<le> clsid_loop cs largest sz (res + 1) \<and> clsid_loop cs largest sz (res + 1) \<le> largest \<and>
        (\<forall>d. res + 1 \<le> d \<longrightarrow> d < clsid_loop cs largest sz (res + 1) \<longrightarrow> cls_size (cs ! d) < sz) \<and>
        (sz \<le> cls_size (cs ! clsid_loop cs largest sz (res + 1)) \<or> clsid_loop cs largest sz (res + 1) = largest)"
      using "1.prems" True by (intro "1.IH") auto
    have "cls_size (cs ! d) < sz" if "res \<le> d" "d < clsid_loop cs largest sz (res + 1)" for d
      using IH that True by (cases "d = res") auto
    with IH show ?thesis unfolding e by auto
  next
    case False
    with "1.prems" have "clsid_loop cs largest sz res = res" by (subst clsid_loop.simps) auto
    with "1.prems" False show ?thesis by auto
  qed
qed

section \<open>The state after start-up\<close>

definition laid_out :: "nat list option \<Rightarrow> settings \<Rightarrow> 'a slabs_state_scheme \<Rightarrow> bool" where
  "laid_out szs st t \<longleftrightarrow>
     slabs_inv t \<and> slab_live t = {} \<and> power_largest t \<le> 63 \<and>
     (\<forall>c. class_range t c \<longrightarrow> 8 dvd cls_size (slabclass t ! c) \<and> 0 < cls_size (slabclass t ! c) \<and>
        cls_size (slabclass t ! c) \<le> st_slab_chunk_size_max st \<and> 0 < perslab (slabclass t ! c)) \<and>
     cls_size (slabclass t ! power_largest t) = st_slab_chunk_size_max st \<and>
     (szs = None \<longrightarrow> (\<forall>c d. 1 \<le> c \<longrightarrow> c \<le> d \<longrightarrow> d \<le> power_largest t \<longrightarrow>
        cls_size (slabclass t ! c) \<le> cls_size (slabclass t ! d)))"

lemma laid_out_same:
  assumes "config_ok (settings s) factor szs" "slabs_inv t" "slab_live t = {}" "same_classes (init_slabclass factor szs s) t"
  shows "laid_out szs (settings s) t"
proof -
  note I = init_slabclass_laid [OF assms(1)]
  have e: "power_largest t = power_largest (init_slabclass factor szs s)"
    "\<And>d. cls_size (slabclass t ! d) = cls_size (slabclass (init_slabclass factor szs s) ! d)"
    using assms(4) by (simp_all add: same_classes_def)
  have r: "class_range t = class_range (init_slabclass factor szs s)" using e(1) by (simp add: class_range_def fun_eq_iff)
  show ?thesis using assms(2,3) I classes_okD(5) [OF slabs_invD(1) [OF assms(2)]] unfolding laid_out_def e r class_laid_def by auto
qed

section \<open>A small configuration\<close>

text \<open>Pages of 256 bytes; the factor 5/4 gives classes of 96 and 128 bytes.\<close>

definition sample_settings :: settings where
  "sample_settings = \<lparr>st_maxbytes = 1024, st_chunk_size = 48, st_item_size_max = 1024, st_slab_chunk_size_max = 128,
     st_slab_page_size = 256, st_slab_reassign = True, st_slab_automove = 0, st_use_cas = True, st_lru_segmented = True,
     st_temp_lru = False, st_temporary_ttl = 61, st_evict_to_free = True, st_oldest_live = 0, st_oldest_cas = 0,
     st_tail_repair_time = 0, st_hot_lru_pct = 20, st_warm_lru_pct = 40,
     st_hot_max_factor = 1 / 5, st_warm_max_factor = 2\<rparr>"

definition sample_slabs :: slabs_state where
  "sample_slabs = \<lparr>settings = sample_settings, heap = (\<lambda>_. zero_item), slabclass = [], mem_limit = 1024, mem_malloced = 0,
     mem_limit_reached = False, power_largest = 0, mem_base = 0, mem_current = 0, mem_avail = 0,
     slab_rebal = \<lparr>slab_start = 0, slab_end = 0, slab_pos = 0, s_clsid = 0, d_clsid = 0, busy_items = 0, rescues = 0,
       evictions_nomem = 0, inline_reclaim = 0, chunk_rescues = 0, busy_deletes = 0, busy_loops = 0, rebal_done = 0\<rparr>,
     slab_rebalance_signal = 0, pick_cur = 0\<rparr>"

definition sample_started :: slabs_state where
  "sample_started = init_slabclass (5 / 4) None sample_slabs"

lemma sample_started_inv: "slabs_inv sample_started" "slab_live sample_started = {}"
proof -
  have c: "config_ok (settings sample_slabs) (5 / 4) None" by (simp add: config_ok_def sample_slabs_def sample_settings_def)
  show "slabs_inv sample_started" "slab_live sample_started = {}"
    unfolding sample_started_def by (rule init_slabclass_inv [OF c], simp add: sample_slabs_def)+
qed

lemma sample_started_eq:
  "sample_started = sample_slabs\<lparr>power_largest := 2, slabclass := (replicate 64 blank_class)
     [1 := blank_class\<lparr>cls_size := 96, perslab := 2\<rparr>, 2 := blank_class\<lparr>cls_size := 128, perslab := 2\<rparr>]\<rparr>"
proof -
  have "\<lfloor>(120 :: rat)\<rfloor> = 120" by (rule floor_numeral)
  then have "init_classes sample_settings (5 / 4) None 1 96 cs = (2, cs[1 := (cs ! 1)\<lparr>cls_size := 96, perslab := 2\<rparr>])" for cs
    by (subst init_classes.simps, subst init_classes.simps)
      (simp add: sample_settings_def align_chunk_def Let_def)
  then show ?thesis
    by (simp add: sample_started_def init_slabclass_def Let_def sample_slabs_def sample_settings_def)
qed

lemma sample_alloc:
  "fst (slab_alloc (True, 1000, 0) 1 sample_started) = 1096"
  by (simp add: slab_alloc_def do_slabs_alloc_def sample_started_eq sample_slabs_def sample_settings_def blank_class_def
    do_slabs_newslab_def page_len_def grow_slab_list_def get_page_from_global_pool_def memory_allocate_def Let_def
    split_slab_page_into_freelist_def upd_class_def upd_item_def add_page_def do_slabs_free_def push_slot_def link_head_def
    zero_range_def zero_item_def pop_slot_def numeral_2_eq_2)

lemma sample_can_alloc: "slab_can_alloc (True, 1000, 0) 1 sample_started"
proof -
  have "pages sample_started c = []" for c
    by (simp add: pages_def sample_started_eq sample_slabs_def nth_list_update blank_class_def)
  then show ?thesis by (simp add: slab_can_alloc_def malloc_fresh_def fresh_range_def)
qed

definition sample_write :: item where
  "sample_write = zero_item\<lparr>it_flags := ITEM_LINKED, it_nkey := 3\<rparr>"

definition sample_ops :: "(slab_request, item) pool_op list" where
  "sample_ops = [Alloc (True, 1000, 0) 1, Write 1 1096 sample_write, Alloc (True, 0, 0) 1, Release 1 1096]"

lemma sample_ops_legal:
  "legal_run (pool_step slab_alloc slab_release slab_write)
     (pool_legal slab_live heap slab_can_alloc plain_item used_item) sample_ops sample_started"
proof -
  define s1 where "s1 = snd (slab_alloc (True, 1000, 0) 1 sample_started)"
  define s2 where "s2 = slab_write 1 1096 sample_write s1"
  define s3 where "s3 = snd (slab_alloc (True, 0, 0) 1 s2)"
  have 1: "slabs_inv s1" "slab_live s1 = {(1, 1096)}"
    using slab_alloc_spec [OF sample_started_inv(1) sample_can_alloc] by (simp_all add: sample_alloc s1_def sample_started_inv(2) del: One_nat_def)
  have u: "it_flags ((\<lambda>_. sample_write) (heap s1 1096)) \<noteq> ITEM_SLABBED" by (simp add: sample_write_def)
  have l1: "(1, 1096) \<in> slab_live s1" using 1 by simp
  have 2: "slabs_inv s2" "slab_live s2 = {(1, 1096)}" "heap s2 1096 = sample_write"
    using write_inv [OF 1(1) l1 u] 1(2) by (simp_all add: s2_def slab_write_def del: One_nat_def)
  have c2: "slab_can_alloc (True, 0, 0) 1 s2" by (simp add: slab_can_alloc_def malloc_fresh_def)
  have 3: "(1, 1096) \<in> slab_live s3" "heap s3 1096 = sample_write"
    using slab_alloc_spec [OF 2(1) c2] 2(2,3) by (auto simp: s3_def simp del: One_nat_def split: if_splits)
  have "used_item sample_write" "plain_item sample_write" by (simp_all add: used_item_def plain_item_def sample_write_def)
  then show ?thesis using sample_can_alloc c2 l1 3
    by (simp add: sample_ops_def s1_def [symmetric] s2_def [symmetric] s3_def [symmetric] sample_alloc del: One_nat_def)
qed

section \<open>Properties\<close>

text \<open>
  C38.  Start-up establishes the allocator's invariant: with an accepted configuration the classes laid out by
  \<^verbatim>\<open>slabs_init\<close> are at most 63, every chunk size is a positive multiple of 8 that is at most the largest chunk, at
  least one chunk fits a page, the last class has the largest chunk, sizes computed from the growth
  factor never decrease, the page lists and free lists (with the pages preallocated on request) are well formed,
  and no chunk is in use.  The program gives up only when preallocation fails.
\<close>

theorem slabs_init_layout:
  assumes "config_ok (settings s) factor szs" and "mem_base s = 0"
  shows "case slabs_init ro mr tim large limit factor prealloc szs external reuse_mem s of
      None \<Rightarrow> prealloc \<and> \<not> reuse_mem
    | Some s' \<Rightarrow> laid_out szs (settings s) s'"
proof -
  obtain b s1 where m: "init_memory limit prealloc external reuse_mem large s = (b, s1)" by fastforce
  define s2 where "s2 = init_slabclass factor szs s1"
  define s3 where "s3 = (case tim of None \<Rightarrow> s2 | Some n \<Rightarrow> s2\<lparr>mem_malloced := n\<rparr>)"
  have s1: "settings s1 = settings s" "b \<Longrightarrow> mem_base s1 \<noteq> 0 \<and> prealloc" "mem_base s1 \<noteq> 0 \<Longrightarrow> mem_current s1 \<noteq> 0"
    using m assms(2) by (auto simp: init_memory_def Let_def split: if_splits)
  have c1: "config_ok (settings s1) factor szs" using assms(1) s1(1) by simp
  note J = init_slabclass_inv [OF c1 s1(3), folded s2_def]
  have lay: "same_layout s2 s3" "mem_current s2 \<le> mem_current s3"
    unfolding s3_def by (simp_all add: same_layout_def split: option.split)
  have i3: "slabs_inv s3" "slab_live s3 = {}" "same_classes s2 s3"
    using same_layout_inv [OF lay J(1)] J(2) same_layout_eq [OF lay(1)] lay(1)
    by (simp_all add: slab_live_def same_layout_def same_classes_def)
  have base: "mem_base s3 = mem_base s1" using lay(1) by (simp add: same_layout_def s2_def)
  have eq: "slabs_init ro mr tim large limit factor prealloc szs external reuse_mem s =
      (if b \<and> \<not> reuse_mem then slabs_preallocate ro mr (power_largest s3) s3 else Some s3)"
    unfolding slabs_init_def m s3_def s2_def Let_def by simp
  have good: "laid_out szs (settings s) t" if "slabs_inv t" "slab_live t = {}" "same_classes s2 t" for t
    using laid_out_same [OF c1 that(1,2)] that(3) s1(1) by (simp add: s2_def)
  have "laid_out szs (settings s) t" if p: "slabs_preallocate ro mr (power_largest s3) s3 = Some t" and "b" for t
  proof -
    have p': "preallocate_loop ro mr (power_largest s3) [0 + 1..<64] 0 s3 = Some t" using p by (simp add: slabs_preallocate_def)
    have "slabs_inv t \<and> same_classes s3 t \<and> slab_live t = {}"
      by (rule preallocate_inv [OF i3(1) _ _ i3(2) p']) (use s1(2) [OF \<open>b\<close>] base in simp_all)
    then show ?thesis using i3(3) by (intro good) (auto simp: same_classes_def)
  qed
  then show ?thesis unfolding eq using good [OF i3] s1(2) by (auto split: option.split)
qed

theorem slabs_init_layout_witness:
  "config_ok (settings sample_slabs) (5 / 4) None \<and> mem_base sample_slabs = 0 \<and>
   (case slabs_init True 0 None 0 0 (5 / 4) False None 0 False sample_slabs of
      None \<Rightarrow> False | Some s' \<Rightarrow> laid_out None (settings sample_slabs) s')"
proof -
  have c: "config_ok (settings sample_slabs) (5 / 4) None" "mem_base sample_slabs = 0"
    by (simp_all add: config_ok_def sample_slabs_def sample_settings_def)
  with slabs_init_layout [OF c, where ro = True and mr = 0 and tim = None and large = 0 and limit = 0 and prealloc = False and
      external = 0 and reuse_mem = False] show ?thesis by (simp split: option.splits)
qed

text \<open>
  C39.  The class chosen for a size is the first that fits: sizes that are zero or above the item limit get class 0, the
  error value; any other size gets a class of the table, every smaller class is too small for it, and it fits the
  chosen class unless that is the largest class, to which bigger items are sent to be stored in chunks.
\<close>

theorem slabs_clsid_first_fit:
  assumes "slabs_inv s" and "c = slabs_clsid s sz"
  shows "if sz = 0 \<or> sz > st_item_size_max (settings s) then c = 0
    else class_range s c \<and> (\<forall>d. class_range s d \<longrightarrow> d < c \<longrightarrow> cls_size (slabclass s ! d) < sz) \<and>
      (sz \<le> cls_size (slabclass s ! c) \<or> c = power_largest s)"
proof -
  note C = classes_okD(2,3) [OF slabs_invD(1) [OF assms(1)]]
  show ?thesis using clsid_loop_spec [OF C, of "slabclass s" sz] assms(2) by (auto simp: slabs_clsid_def class_range_def)
qed

theorem slabs_clsid_first_fit_witness:
  "slabs_inv sample_started \<and> slabs_clsid sample_started 100 = 2 \<and> class_range sample_started 2 \<and>
   cls_size (slabclass sample_started ! 1) < 100 \<and> 100 \<le> cls_size (slabclass sample_started ! 2)"
proof -
  have c: "slabs_clsid sample_started 100 = 2"
    by (simp add: slabs_clsid_def sample_started_eq sample_slabs_def sample_settings_def clsid_loop.simps blank_class_def)
  have m: "st_item_size_max (settings sample_started) = 1024"
    by (simp add: sample_started_eq sample_slabs_def sample_settings_def)
  have "class_range sample_started 1" by (simp add: class_range_def sample_started_eq)
  with slabs_clsid_first_fit [OF sample_started_inv(1) c [symmetric]] m c sample_started_inv(1) show ?thesis
    by (auto simp: sample_started_eq blank_class_def)
qed

text \<open>
  C40.  The slab allocator is a map of held chunks: over any sequence of allocations (from any class, with any
  outcome of \<^verbatim>\<open>malloc\<close> and \<^verbatim>\<open>realloc\<close>), frees and writes by the holders, a chunk is held exactly when it
  was handed out and not freed since, a chunk handed out was not held before, its contents are what its holder last
  wrote, and the memory blocks of held chunks never overlap.  The assumption on \<^verbatim>\<open>malloc\<close> is that a page it returns
  does not overlap one it returned before.
\<close>

theorem slab_pool_trace:
  assumes "slabs_inv s" and "pool_agrees slab_live heap s M"
    and "legal_run (pool_step slab_alloc slab_release slab_write)
      (pool_legal slab_live heap slab_can_alloc plain_item used_item) ops s"
    and "pool_run (pool_step slab_alloc slab_release slab_write) ops (s, M) = (s', M')"
  shows "slabs_inv s' \<and> pool_agrees slab_live heap s' M' \<and>
    (\<forall>x \<in> dom M'. \<forall>y \<in> dom M'. x \<noteq> y \<longrightarrow> slab_block s' x \<inter> slab_block s' y = {})"
  by (rule pool.run_agrees [OF assms])

theorem slab_pool_trace_witness:
  "slabs_inv sample_started \<and>
   legal_run (pool_step slab_alloc slab_release slab_write)
     (pool_legal slab_live heap slab_can_alloc plain_item used_item) sample_ops sample_started \<and>
   (case pool_run (pool_step slab_alloc slab_release slab_write) sample_ops (sample_started, Map.empty) of
      (s', M') \<Rightarrow> slabs_inv s' \<and> pool_agrees slab_live heap s' M')"
proof -
  obtain s' M' where e: "pool_run (pool_step slab_alloc slab_release slab_write) sample_ops (sample_started, Map.empty) = (s', M')"
    by fastforce
  have a: "pool_agrees slab_live heap sample_started Map.empty" by (simp add: pool_agrees_def sample_started_inv(2))
  from slab_pool_trace [OF sample_started_inv(1) a sample_ops_legal e] sample_started_inv(1) sample_ops_legal e show ?thesis by simp
qed

end
