(* ===== verification/Items.thy ===== *)
theory Items
  imports Slab_Init Assoc
begin

text \<open>
  The item store (\<^verbatim>\<open>src/memcached-sr/items.c\<close>) on top of the slab allocator and the hash table: LRU queues,
  linking and unlinking, reference counts, lookup with lazy expiry, and the eviction of items from the tails.  The
  state extends the allocator's; an item's key and \<^verbatim>\<open>h_next\<close> are in the hash table's memory.  The build
  without external storage is modelled (\<^verbatim>\<open>EXTSTORE\<close> is off by default), so \<^verbatim>\<open>STORAGE_delete\<close> does
  nothing.  Which item locks can be taken is an argument, as are the outcomes of \<^verbatim>\<open>malloc\<close>, \<^verbatim>\<open>realloc\<close> and
  of a request for room in the bump buffer.  Logging is not modelled.
\<close>

record itemstats_t =
  n_evicted :: u64
  n_evicted_nonzero :: u64
  n_reclaimed :: u64
  n_outofmemory :: u64
  n_tailrepairs :: u64
  n_expired_unfetched :: u64
  n_evicted_unfetched :: u64
  n_evicted_active :: u64
  n_lrutail_reflocked :: u64
  n_moves_to_cold :: u64
  n_moves_to_warm :: u64
  n_moves_within_lru :: u64
  n_direct_reclaims :: u64
  n_evicted_time :: u32

record items_state = slabs_state +
  heads :: "u8 \<Rightarrow> nat"
  tails :: "u8 \<Rightarrow> nat"
  itemstats :: "u8 \<Rightarrow> itemstats_t"
  lru_sizes :: "u8 \<Rightarrow> u32"
  sizes_bytes :: "u8 \<Rightarrow> u64"
  stats_sizes_hist :: "u32 list option"
  stats_sizes_cas_min :: u64
  cas_id :: u64
  current_time :: u32
  curr_bytes :: u64
  curr_items :: u64
  total_items :: u64
  tab :: assoc
  bump_buf :: "(nat \<times> u32) list"
  bumps_dropped :: u64
  get_flushed :: u64
  get_expired :: u64

abbreviation (input) HOT_LRU :: u8 where "HOT_LRU \<equiv> 0"
abbreviation (input) WARM_LRU :: u8 where "WARM_LRU \<equiv> 64"
abbreviation (input) COLD_LRU :: u8 where "COLD_LRU \<equiv> 128"
abbreviation (input) TEMP_LRU :: u8 where "TEMP_LRU \<equiv> 192"
abbreviation (input) ITEM_UPDATE_INTERVAL :: u32 where "ITEM_UPDATE_INTERVAL \<equiv> 60"
abbreviation (input) LRU_PULL_EVICT :: u8 where "LRU_PULL_EVICT \<equiv> 1"
abbreviation (input) LRU_PULL_CRAWL_BLOCKS :: u8 where "LRU_PULL_CRAWL_BLOCKS \<equiv> 2"
abbreviation (input) LRU_PULL_RETURN_ITEM :: u8 where "LRU_PULL_RETURN_ITEM \<equiv> 4"

definition item_key :: "items_state \<Rightarrow> nat \<Rightarrow> u8 list" where
  "item_key s a = hkey (items (tab s) a)"

definition item_hv :: "items_state \<Rightarrow> nat \<Rightarrow> u32" where
  "item_hv s a = hash_fn (tab s) (item_key s a)"

section \<open>CAS ids, flushing, sizes\<close>

definition get_cas_id :: "items_state \<Rightarrow> u64 \<times> items_state" where
  "get_cas_id s = (cas_id s + 1, s\<lparr>cas_id := cas_id s + 1\<rparr>)"

definition set_cas_id :: "u64 \<Rightarrow> items_state \<Rightarrow> items_state" where
  "set_cas_id new_cas s = s\<lparr>cas_id := new_cas\<rparr>"

definition ITEM_get_cas :: "item \<Rightarrow> u64" where
  "ITEM_get_cas i = (if it_flags i AND ITEM_CAS \<noteq> 0 then it_cas i else 0)"

definition ITEM_set_cas :: "u64 \<Rightarrow> item \<Rightarrow> item" where
  "ITEM_set_cas v i = (if it_flags i AND ITEM_CAS \<noteq> 0 then i\<lparr>it_cas := v\<rparr> else i)"

definition item_is_flushed :: "items_state \<Rightarrow> item \<Rightarrow> bool" where
  "item_is_flushed s i =
     (let oldest_live = st_oldest_live (settings s);
          cas = ITEM_get_cas i;
          oldest_cas = st_oldest_cas (settings s)
      in if oldest_live = 0 \<or> oldest_live > current_time s then False
         else it_time i \<le> oldest_live \<or> oldest_cas \<noteq> 0 \<and> cas \<noteq> 0 \<and> cas < oldest_cas)"

definition item_make_header :: "u8 \<Rightarrow> u32 \<Rightarrow> u32 \<Rightarrow> u8 \<times> u64" where
  "item_make_header nkey flags nbytes =
     (let nsuffix = (if flags = 0 then 0 else 4) in (nsuffix, 48 + ucast nkey + ucast nsuffix + scast nbytes))"

definition item_size_ok :: "u8 \<Rightarrow> u32 \<Rightarrow> u32 \<Rightarrow> items_state \<Rightarrow> bool" where
  "item_size_ok nkey flags nbytes s =
     (if sint nbytes < 2 then False
      else
        let ntotal = snd (item_make_header (nkey + 1) flags nbytes);
            ntotal = (if st_use_cas (settings s) then ntotal + 8 else ntotal)
        in slabs_clsid s (unat ntotal) \<noteq> 0)"

text \<open>The histogram of item sizes, when it is enabled.\<close>

definition size_bucket :: "item \<Rightarrow> nat" where
  "size_bucket i = (let ntotal = unat (ITEM_ntotal i) in if ntotal mod 32 \<noteq> 0 then ntotal div 32 + 1 else ntotal div 32)"

definition item_stats_sizes_add :: "nat \<Rightarrow> items_state \<Rightarrow> items_state" where
  "item_stats_sizes_add it s =
     (case stats_sizes_hist s of
        None \<Rightarrow> s
      | Some hist \<Rightarrow>
          if stats_sizes_cas_min s > ITEM_get_cas (heap s it) then s
          else let b = size_bucket (heap s it) in
               if b < length hist then s\<lparr>stats_sizes_hist := Some (hist[b := hist ! b + 1])\<rparr> else s)"

definition item_stats_sizes_remove :: "nat \<Rightarrow> items_state \<Rightarrow> items_state" where
  "item_stats_sizes_remove it s =
     (case stats_sizes_hist s of
        None \<Rightarrow> s
      | Some hist \<Rightarrow>
          if stats_sizes_cas_min s > ITEM_get_cas (heap s it) then s
          else let b = size_bucket (heap s it) in
               if b < length hist then s\<lparr>stats_sizes_hist := Some (hist[b := hist ! b - 1])\<rparr> else s)"

section \<open>LRU queues\<close>

definition do_item_link_q :: "nat \<Rightarrow> items_state \<Rightarrow> items_state" where
  "do_item_link_q it s =
     (let q = it_clsid (heap s it);
          s1 = s\<lparr>heap := link_head (heap s) it (heads s q), heads := (heads s)(q := it)\<rparr>;
          s2 = (if tails s1 q = 0 then s1\<lparr>tails := (tails s1)(q := it)\<rparr> else s1)
      in s2\<lparr>lru_sizes := (lru_sizes s2)(q := lru_sizes s2 q + 1),
            sizes_bytes := (sizes_bytes s2)(q := sizes_bytes s2 q + ITEM_ntotal (heap s2 it))\<rparr>)"

definition do_item_unlink_q :: "nat \<Rightarrow> items_state \<Rightarrow> items_state" where
  "do_item_unlink_q it s =
     (let q = it_clsid (heap s it);
          s1 = (if heads s q = it then s\<lparr>heads := (heads s)(q := it_next (heap s it))\<rparr> else s);
          s2 = (if tails s1 q = it then s1\<lparr>tails := (tails s1)(q := it_prev (heap s1 it))\<rparr> else s1);
          s3 = s2\<lparr>heap := unlink_cell (heap s2) it\<rparr>
      in s3\<lparr>lru_sizes := (lru_sizes s3)(q := lru_sizes s3 q - 1),
            sizes_bytes := (sizes_bytes s3)(q := sizes_bytes s3 q - ITEM_ntotal (heap s3 it))\<rparr>)"

definition upd_stats :: "u8 \<Rightarrow> (itemstats_t \<Rightarrow> itemstats_t) \<Rightarrow> items_state \<Rightarrow> items_state" where
  "upd_stats q f s = s\<lparr>itemstats := (itemstats s)(q := f (itemstats s q))\<rparr>"

definition item_link_q_warm :: "nat \<Rightarrow> items_state \<Rightarrow> items_state" where
  "item_link_q_warm it s =
     (let s1 = do_item_link_q it s
      in upd_stats (it_clsid (heap s1 it)) (\<lambda>t. t\<lparr>n_moves_to_warm := n_moves_to_warm t + 1\<rparr>) s1)"

section \<open>Linking, unlinking, reference counts\<close>

definition refcount_incr :: "nat \<Rightarrow> items_state \<Rightarrow> items_state" where
  "refcount_incr it s = upd_item it (\<lambda>i. i\<lparr>it_refcount := it_refcount i + 1\<rparr>) s"

definition refcount_decr :: "nat \<Rightarrow> items_state \<Rightarrow> items_state" where
  "refcount_decr it s = upd_item it (\<lambda>i. i\<lparr>it_refcount := it_refcount i - 1\<rparr>) s"

definition do_item_link :: "nat \<Rightarrow> u32 \<Rightarrow> items_state \<Rightarrow> items_state" where
  "do_item_link it hv s =
     (let s1 = upd_item it (\<lambda>i. i\<lparr>it_flags := it_flags i OR ITEM_LINKED, it_time := current_time s\<rparr>) s;
          s2 = s1\<lparr>curr_bytes := curr_bytes s1 + ITEM_ntotal (heap s1 it), curr_items := curr_items s1 + 1,
                  total_items := total_items s1 + 1\<rparr>;
          (cas, s3) = (if st_use_cas (settings s2) then get_cas_id s2 else (0, s2));
          s4 = upd_item it (ITEM_set_cas cas) s3;
          s5 = s4\<lparr>tab := assoc_insert (tab s4) it hv\<rparr>
      in item_stats_sizes_add it (refcount_incr it (do_item_link_q it s5)))"

definition item_free :: "nat \<Rightarrow> items_state \<Rightarrow> items_state option" where
  "item_free it s = do_slabs_free it (unat (ITEM_clsid (heap s it))) s"

definition do_item_remove :: "nat \<Rightarrow> items_state \<Rightarrow> items_state option" where
  "do_item_remove it s =
     (let s1 = refcount_decr it s in if it_refcount (heap s1 it) = 0 then item_free it s1 else Some s1)"

text \<open>Deleting a key the table does not have fails an assertion that the production build does not check.\<close>

definition index_remove :: "u8 list \<Rightarrow> u32 \<Rightarrow> items_state \<Rightarrow> items_state option" where
  "index_remove key hv s =
     (case assoc_delete (tab s) key hv of
        None \<Rightarrow> None
      | Some None \<Rightarrow> Some s
      | Some (Some t) \<Rightarrow> Some (s\<lparr>tab := t\<rparr>))"

definition do_item_unlink :: "nat \<Rightarrow> u32 \<Rightarrow> items_state \<Rightarrow> items_state option" where
  "do_item_unlink it hv s =
     (if it_flags (heap s it) AND ITEM_LINKED \<noteq> 0 then
        let s1 = upd_item it (\<lambda>i. i\<lparr>it_flags := it_flags i AND NOT ITEM_LINKED\<rparr>) s;
            s2 = s1\<lparr>curr_bytes := curr_bytes s1 - ITEM_ntotal (heap s1 it), curr_items := curr_items s1 - 1\<rparr>;
            s3 = item_stats_sizes_remove it s2
        in Option.bind (index_remove (item_key s3 it) hv s3)
             (\<lambda>s4. do_item_remove it (do_item_unlink_q it s4))
      else Some s)"

text \<open>The variant for callers that hold the queue's lock does the same.\<close>

definition do_item_unlink_nolock :: "nat \<Rightarrow> u32 \<Rightarrow> items_state \<Rightarrow> items_state option" where
  "do_item_unlink_nolock it hv s =
     (if it_flags (heap s it) AND ITEM_LINKED \<noteq> 0 then
        let s1 = upd_item it (\<lambda>i. i\<lparr>it_flags := it_flags i AND NOT ITEM_LINKED\<rparr>) s;
            s2 = s1\<lparr>curr_bytes := curr_bytes s1 - ITEM_ntotal (heap s1 it), curr_items := curr_items s1 - 1\<rparr>;
            s3 = item_stats_sizes_remove it s2
        in Option.bind (index_remove (item_key s3 it) hv s3)
             (\<lambda>s4. do_item_remove it (do_item_unlink_q it s4))
      else Some s)"

definition do_item_update :: "nat \<Rightarrow> items_state \<Rightarrow> items_state" where
  "do_item_update it s =
     (if st_lru_segmented (settings s) then
        if it_flags (heap s it) AND ITEM_LINKED \<noteq> 0 then
          if ITEM_lruid (heap s it) = COLD_LRU \<and> it_flags (heap s it) AND ITEM_ACTIVE \<noteq> 0 then
            let s1 = do_item_unlink_q it (upd_item it (\<lambda>i. i\<lparr>it_time := current_time s\<rparr>) s)
            in item_link_q_warm it
                 (upd_item it (\<lambda>i. i\<lparr>it_clsid := ITEM_clsid i OR WARM_LRU, it_flags := it_flags i AND NOT ITEM_ACTIVE\<rparr>) s1)
          else upd_item it (\<lambda>i. i\<lparr>it_time := current_time s\<rparr>) s
        else s
      else if it_time (heap s it) < current_time s - ITEM_UPDATE_INTERVAL then
        if it_flags (heap s it) AND ITEM_LINKED \<noteq> 0 then
          do_item_link_q it (do_item_unlink_q it (upd_item it (\<lambda>i. i\<lparr>it_time := current_time s\<rparr>) s))
        else s
      else s)"

definition do_item_replace :: "nat \<Rightarrow> nat \<Rightarrow> u32 \<Rightarrow> items_state \<Rightarrow> items_state option" where
  "do_item_replace it new_it hv s = map_option (do_item_link new_it hv) (do_item_unlink it hv s)"

section \<open>Lookup\<close>

text \<open>\<open>room\<close>: the bump buffer has room for another entry.\<close>

definition lru_bump_async :: "bool \<Rightarrow> nat \<Rightarrow> u32 \<Rightarrow> items_state \<Rightarrow> bool \<times> items_state" where
  "lru_bump_async room it hv s =
     (let s1 = refcount_incr it s in
      if room then (True, s1\<lparr>bump_buf := bump_buf s1 @ [(it, hv)]\<rparr>)
      else (False, refcount_decr it (s1\<lparr>bumps_dropped := bumps_dropped s1 + 1\<rparr>)))"

definition do_item_bump :: "bool \<Rightarrow> nat \<Rightarrow> u32 \<Rightarrow> items_state \<Rightarrow> items_state" where
  "do_item_bump room it hv s =
     (if st_lru_segmented (settings s) then
        if it_flags (heap s it) AND ITEM_ACTIVE = 0 then
          if it_flags (heap s it) AND ITEM_FETCHED = 0 then
            upd_item it (\<lambda>i. i\<lparr>it_flags := it_flags i OR ITEM_FETCHED\<rparr>) s
          else
            let s1 = upd_item it (\<lambda>i. i\<lparr>it_flags := it_flags i OR ITEM_ACTIVE\<rparr>) s in
            if ITEM_lruid (heap s1 it) \<noteq> COLD_LRU then upd_item it (\<lambda>i. i\<lparr>it_time := current_time s1\<rparr>) s1
            else
              let (ok, s2) = lru_bump_async room it hv s1 in
              if \<not> ok then upd_item it (\<lambda>i. i\<lparr>it_flags := it_flags i AND NOT ITEM_ACTIVE\<rparr>) s2 else s2
        else s
      else do_item_update it (upd_item it (\<lambda>i. i\<lparr>it_flags := it_flags i OR ITEM_FETCHED\<rparr>) s))"

text \<open>The result is the item's address, or 0.\<close>

definition do_item_get :: "bool \<Rightarrow> u8 list \<Rightarrow> u32 \<Rightarrow> bool \<Rightarrow> items_state \<Rightarrow> (nat \<times> items_state) option" where
  "do_item_get room key hv do_update s =
     (case assoc_find (tab s) key hv of
        None \<Rightarrow> None
      | Some None \<Rightarrow> Some (0, s)
      | Some (Some it) \<Rightarrow>
          let s1 = refcount_incr it s in
          if item_is_flushed s1 (heap s1 it) then
            Option.bind (do_item_unlink it hv s1) (\<lambda>s2. Option.bind (do_item_remove it s2)
              (\<lambda>s3. Some (0, s3\<lparr>get_flushed := get_flushed s3 + 1\<rparr>)))
          else if it_exptime (heap s1 it) \<noteq> 0 \<and> it_exptime (heap s1 it) \<le> current_time s1 then
            Option.bind (do_item_unlink it hv s1) (\<lambda>s2. Option.bind (do_item_remove it s2)
              (\<lambda>s3. Some (0, s3\<lparr>get_expired := get_expired s3 + 1\<rparr>)))
          else Some (it, if do_update then do_item_bump room it hv s1 else s1))"

definition do_item_touch :: "bool \<Rightarrow> u8 list \<Rightarrow> u32 \<Rightarrow> u32 \<Rightarrow> items_state \<Rightarrow> (nat \<times> items_state) option" where
  "do_item_touch room key exptime hv s =
     Option.bind (do_item_get room key hv True s)
       (\<lambda>(it, s1). Some (it, if it \<noteq> 0 then upd_item it (\<lambda>i. i\<lparr>it_exptime := exptime\<rparr>) s1 else s1))"

end
