(* ===== verification/Item_Lru.thy ===== *)
theory Item_Lru
  imports Items
begin

text \<open>
  The LRU queues are doubly linked lists with exact counts: linking puts an item in front of the queue its
  \<^verbatim>\<open>slabs_clsid\<close> names, unlinking takes it out wherever it stands, and no other queue is affected.
\<close>

definition lru_ok :: "items_state \<Rightarrow> (u8 \<Rightarrow> nat list) \<Rightarrow> bool" where
  "lru_ok s L \<longleftrightarrow>
     lists_ok (heap s) L \<and>
     (\<forall>q. heads s q = first (L q) \<and> tails s q = final 0 (L q) \<and> lru_sizes s q = of_nat (length (L q)) \<and>
        sizes_bytes s q = (\<Sum>a\<leftarrow>L q. ITEM_ntotal (heap s a)) \<and> (\<forall>a \<in> set (L q). it_clsid (heap s a) = q))"

lemma lru_okD:
  assumes "lru_ok s L"
  shows "lists_ok (heap s) L" "heads s q = first (L q)" "tails s q = final 0 (L q)" "lru_sizes s q = of_nat (length (L q))"
    "sizes_bytes s q = (\<Sum>a\<leftarrow>L q. ITEM_ntotal (heap s a))" "a \<in> set (L q) \<Longrightarrow> it_clsid (heap s a) = q"
  using assms by (auto simp: lru_ok_def)

lemma ntotal_same:
  assumes "it_nkey i = it_nkey j" "it_nbytes i = it_nbytes j" "it_flags i AND ITEM_CFLAGS = it_flags j AND ITEM_CFLAGS"
    "it_flags i AND ITEM_CAS = it_flags j AND ITEM_CAS"
  shows "ITEM_ntotal i = ITEM_ntotal j"
  using assms by (simp add: ITEM_ntotal_def)

lemma ntotal_links: "same_but_links i j \<Longrightarrow> ITEM_ntotal i = ITEM_ntotal j"
  by (rule ntotal_same) (simp_all add: same_but_links_simps)

lemma do_item_link_q_heap: "heap (do_item_link_q it s) = link_head (heap s) it (heads s (it_clsid (heap s it)))"
  by (simp add: do_item_link_q_def Let_def)

lemma do_item_unlink_q_heap: "heap (do_item_unlink_q it s) = unlink_cell (heap s) it"
  by (simp add: do_item_unlink_q_def Let_def)

lemma do_item_link_q_bytes:
  "sizes_bytes (do_item_link_q it s) =
     (let q = it_clsid (heap s it) in (sizes_bytes s)(q := sizes_bytes s q + ITEM_ntotal (heap (do_item_link_q it s) it)))"
  by (simp add: do_item_link_q_def Let_def)

lemma do_item_unlink_q_bytes:
  "sizes_bytes (do_item_unlink_q it s) =
     (let q = it_clsid (heap s it) in (sizes_bytes s)(q := sizes_bytes s q - ITEM_ntotal (heap (do_item_unlink_q it s) it)))"
  by (simp add: do_item_unlink_q_def Let_def)

lemma final_zero_iff: "0 \<notin> set xs \<Longrightarrow> final 0 xs = 0 \<longleftrightarrow> xs = []"
  using last_in_set [of xs] by (cases "last xs = 0") (auto simp: final_def)

lemma lru_link:
  assumes ok: "lru_ok s L" and it: "it \<noteq> 0" "\<And>r. it \<notin> set (L r)" and q: "q = it_clsid (heap s it)"
  shows "lru_ok (do_item_link_q it s) (L(q := it # L q))"
proof -
  let ?t = "do_item_link_q it s" and ?L = "L(q := it # L q)"
  note D = lru_okD [OF ok]
  have null: "0 \<notin> set (L q)" using lists_okD(4) [OF D(1)] .
  have h: "heap ?t = link_head (heap s) it (first (L q))" by (simp add: do_item_link_q_heap q [symmetric] D)
  have same: "same_but_links (heap ?t a) (heap s a)" for a by (simp add: h link_head_same)
  have "lists_ok (heap ?t) ?L" unfolding h by (rule lists_ok_link [OF D(1) it])
  moreover have "heads ?t r = first (?L r) \<and> tails ?t r = final 0 (?L r) \<and> lru_sizes ?t r = of_nat (length (?L r))" for r
    using D(2-4) [of r] final_zero_iff [OF null] it(1)
    by (cases "r = q") (auto simp: do_item_link_q_def Let_def q [symmetric] D(3) final_def)
  moreover have "sizes_bytes ?t r = (\<Sum>a\<leftarrow>?L r. ITEM_ntotal (heap ?t a))" for r
    using D(5) [of r] ntotal_links [OF same]
    by (cases "r = q") (simp_all add: do_item_link_q_def Let_def q [symmetric] add.commute)
  moreover have "it_clsid (heap ?t a) = r" if "a \<in> set (?L r)" for a r
    using that D(6) same_but_links_simps(6) [OF same] q by (auto split: if_splits)
  ultimately show ?thesis unfolding lru_ok_def by blast
qed

lemma lru_unlink:
  assumes ok: "lru_ok s L" and L: "L q = ys @ it # zs"
  shows "lru_ok (do_item_unlink_q it s) (L(q := ys @ zs))"
proof -
  let ?t = "do_item_unlink_q it s" and ?L = "L(q := ys @ zs)"
  note D = lru_okD [OF ok]
  have dl: "dll (heap s) 0 (ys @ it # zs) 0" "distinct (ys @ it # zs)" using lists_okD(1,2) [OF D(1), of q] by (simp_all only: L)
  note n = dll_neighbours [OF dl]
  have q: "it_clsid (heap s it) = q" using D(6) [of it q] L by simp
  have same: "same_but_links (heap ?t a) (heap s a)" for a by (simp add: do_item_unlink_q_heap unlink_cell_same)
  have it: "it \<noteq> 0" using lists_okD(4) [OF D(1), of q] L by auto
  have "lists_ok (heap ?t) ?L" unfolding do_item_unlink_q_heap by (rule lists_ok_unlink [OF D(1) L])
  moreover have "heads ?t r = first (?L r)" for r
  proof (cases "r = q")
    case True
    have "first (ys @ it # zs) = it \<longleftrightarrow> ys = []" using dl(2) by (cases ys) auto
    then show ?thesis using True n(1) L D(2) [of q] by (cases ys) (auto simp: do_item_unlink_q_def Let_def q)
  qed (simp add: do_item_unlink_q_def Let_def q D(2))
  moreover have "tails ?t r = final 0 (?L r)" for r
  proof (cases "r = q")
    case True
    have "final 0 (ys @ it # zs) = it \<longleftrightarrow> zs = []" using dl(2) by (cases zs rule: rev_cases) (auto simp: final_append)
    then show ?thesis using True n(2) L D(3) [of q]
      by (cases "zs = []") (simp_all add: do_item_unlink_q_def Let_def q final_append final_def)
  qed (simp add: do_item_unlink_q_def Let_def q D(3))
  moreover have "lru_sizes ?t r = of_nat (length (?L r))" for r
    using D(4) [of r] L by (cases "r = q") (simp_all add: do_item_unlink_q_def Let_def q)
  moreover have "sizes_bytes ?t r = (\<Sum>a\<leftarrow>?L r. ITEM_ntotal (heap ?t a))" for r
    using D(5) [of r] L ntotal_links [OF same]
    by (cases "r = q") (simp_all add: do_item_unlink_q_def Let_def q)
  moreover have "it_clsid (heap ?t a) = r" if "a \<in> set (?L r)" for a r
    using that D(6) [of a r] same_but_links_simps(6) [OF same] L by (auto split: if_splits)
  ultimately show ?thesis unfolding lru_ok_def by blast
qed

end
