(* ===== verification/Item_Store.thy ===== *)
theory Item_Store
  imports Item_Lru
begin

text \<open>
  The invariant of the item store, which ties the allocator, the queues, the hash table and the reference counts
  together, and that linking, unlinking, taking and dropping references, and lookups keep it.  \<open>L\<close> gives
  the items of each queue and \<open>R\<close> the references held outside the store; the invariant says that an
  item's memory is in use exactly as long as it is linked or referenced.
\<close>

section \<open>Writing items in use\<close>

text \<open>States that differ in the fields of the item store only.\<close>

definition same_core :: "'a slabs_state_scheme \<Rightarrow> 'b slabs_state_scheme \<Rightarrow> bool" where
  "same_core s t \<longleftrightarrow>
     slabclass t = slabclass s \<and> settings t = settings s \<and> power_largest t = power_largest s \<and>
     mem_base t = mem_base s \<and> mem_current t = mem_current s"

lemma same_core_eq:
  assumes "same_core s t"
  shows "pages t = pages s" "page_extent t = page_extent s" "page_len t = page_len s"
    "class_range t = class_range s" "chunks t = chunks s" "classes_ok t = classes_ok s"
proof -
  note d = assms [unfolded same_core_def]
  show c: "class_range t = class_range s" using d by (simp add: class_range_def fun_eq_iff)
  show p: "pages t = pages s" using d by (simp add: pages_def fun_eq_iff)
  show "chunks t = chunks s" using d c p by (simp add: chunks_def fun_eq_iff)
  show l: "page_len t = page_len s" using d by (simp add: page_len_def fun_eq_iff)
  show "page_extent t = page_extent s" using d l by (simp add: page_extent_def fun_eq_iff)
  show "classes_ok t = classes_ok s" using d c by (simp add: classes_ok_def)
qed

lemma same_pages_core: "same_core s t \<Longrightarrow> same_pages s t"
  using same_core_eq [of s t] by (simp add: same_pages_def same_core_def)

lemma rewrite_live:
  assumes inv: "slabs_inv s" and core: "same_core s t"
    and frame: "\<And>b. (\<And>c. (c, b) \<notin> slab_live s) \<Longrightarrow> heap t b = heap s b"
    and flags: "\<And>c b. (c, b) \<in> slab_live s \<Longrightarrow> it_flags (heap t b) \<noteq> ITEM_SLABBED"
  shows "slabs_inv t" "slab_live t = slab_live s" "free_list t = free_list s"
proof -
  note D = slabs_invD [OF inv] and e = same_core_eq [OF core] and d = core [unfolded same_core_def]
  have off: "heap t b = heap s b" if "b \<in> set (free_list s r)" for b r
    using that live_not_free(1) [OF inv] by (intro frame) blast
  have "lists_ok (heap t) (free_list s)" by (rule lists_ok_cong [OF free_okD(1) [OF D(3)]]) (simp add: off)
  then have f: "free_ok t (free_list s)" using D(3) d off unfolding free_ok_def e by simp
  show F: "free_list t = free_list s" by (rule free_ok_list [OF f])
  then show "slab_live t = slab_live s" by (simp add: slab_live_def e)
  have "b \<in> set (free_list s c)" if "b \<in> chunks s c" "it_flags (heap t b) = ITEM_SLABBED" for b c
    using flags [of c b] that by (auto simp: slab_live_def)
  then show "slabs_inv t" unfolding slabs_inv_def F e using D(1,2,4,6,7) f d by simp
qed

section \<open>The invariant\<close>

definition is_linked :: "(u8 \<Rightarrow> nat list) \<Rightarrow> nat \<Rightarrow> bool" where
  "is_linked L a \<longleftrightarrow> (\<exists>q. a \<in> set (L q))"

definition in_use :: "(u8 \<Rightarrow> nat list) \<Rightarrow> (nat \<Rightarrow> nat) \<Rightarrow> nat \<Rightarrow> bool" where
  "in_use L R a \<longleftrightarrow> 0 < R a \<or> is_linked L a"

definition item_cls :: "items_state \<Rightarrow> nat \<Rightarrow> nat" where
  "item_cls s a = unat (ITEM_clsid (heap s a))"

text \<open>The header of an item in use: an unchunked item whose count covers its references and its link.\<close>

definition item_ok :: "item \<Rightarrow> bool \<Rightarrow> nat \<Rightarrow> bool" where
  "item_ok i linked r \<longleftrightarrow>
     it_refcount i = of_nat (r + of_bool linked) \<and> r + of_bool linked < 2 ^ 16 \<and>
     (bit (it_flags i) 0 \<longleftrightarrow> linked) \<and> \<not> bit (it_flags i) 2 \<and> \<not> bit (it_flags i) 5"

definition store_inv :: "items_state \<Rightarrow> (u8 \<Rightarrow> nat list) \<Rightarrow> (nat \<Rightarrow> nat) \<Rightarrow> bool" where
  "store_inv s L R \<longleftrightarrow>
     slabs_inv s \<and> assoc_wf (tab s) \<and> lru_ok s L \<and>
     slab_live s = {(item_cls s a, a) | a. in_use L R a} \<and>
     (\<forall>a. in_use L R a \<longrightarrow> item_ok (heap s a) (is_linked L a) (R a)) \<and>
     (\<forall>k a. index_find (tab s) k = Some a \<longleftrightarrow> is_linked L a \<and> item_key s a = k) \<and>
     curr_items s = (\<Sum>q\<in>UNIV. of_nat (length (L q))) \<and> curr_bytes s = (\<Sum>q\<in>UNIV. sizes_bytes s q)"

lemma store_invD:
  assumes "store_inv s L R"
  shows "slabs_inv s" "assoc_wf (tab s)" "lru_ok s L" "slab_live s = {(item_cls s a, a) | a. in_use L R a}"
    "in_use L R a \<Longrightarrow> item_ok (heap s a) (is_linked L a) (R a)"
    "index_find (tab s) k = Some a \<longleftrightarrow> is_linked L a \<and> item_key s a = k"
    "curr_items s = (\<Sum>q\<in>UNIV. of_nat (length (L q)))" "curr_bytes s = (\<Sum>q\<in>UNIV. sizes_bytes s q)"
    "in_use L R a \<Longrightarrow> (item_cls s a, a) \<in> slab_live s" "in_use L R a \<Longrightarrow> a \<noteq> 0"
proof -
  note d = assms [unfolded store_inv_def]
  show i: "slabs_inv s" "assoc_wf (tab s)" "lru_ok s L" "slab_live s = {(item_cls s a, a) | a. in_use L R a}" using d by blast+
  show "in_use L R a \<Longrightarrow> item_ok (heap s a) (is_linked L a) (R a)" "index_find (tab s) k = Some a \<longleftrightarrow> is_linked L a \<and> item_key s a = k"
    using d by blast+
  show "curr_items s = (\<Sum>q\<in>UNIV. of_nat (length (L q)))" "curr_bytes s = (\<Sum>q\<in>UNIV. sizes_bytes s q)" using d by blast+
  show l: "in_use L R a \<Longrightarrow> (item_cls s a, a) \<in> slab_live s" using i(4) by blast
  then show "in_use L R a \<Longrightarrow> a \<noteq> 0" using live_not_free(2) [OF i(1)] by blast
qed

text \<open>Testing a flag is testing a bit.\<close>

lemma flag_bits:
  fixes w :: u16
  shows "w AND ITEM_LINKED \<noteq> 0 \<longleftrightarrow> bit w 0" "w AND ITEM_LINKED = 0 \<longleftrightarrow> \<not> bit w 0"
    "w AND ITEM_CHUNKED = 0 \<longleftrightarrow> \<not> bit w 5" "w = ITEM_SLABBED \<Longrightarrow> bit w 2"
proof -
  have b: "w AND 2 ^ n = 0 \<longleftrightarrow> \<not> bit w n" for n by (simp add: and_exp_eq_0_iff_not_bit)
  from b [of 0] show "w AND ITEM_LINKED \<noteq> 0 \<longleftrightarrow> bit w 0" "w AND ITEM_LINKED = 0 \<longleftrightarrow> \<not> bit w 0" by simp_all
  from b [of 5] show "w AND ITEM_CHUNKED = 0 \<longleftrightarrow> \<not> bit w 5" by simp
  show "bit w 2" if "w = ITEM_SLABBED" unfolding that by (simp add: bit_numeral_rec flip: numeral_2_eq_2)
qed

lemma item_okD:
  assumes "item_ok i l r"
  shows "it_refcount i = of_nat (r + of_bool l)" "r + of_bool l < 2 ^ 16" "bit (it_flags i) 0 \<longleftrightarrow> l" "\<not> bit (it_flags i) 2"
    "\<not> bit (it_flags i) 5" "it_flags i \<noteq> ITEM_SLABBED"
proof -
  show b: "it_refcount i = of_nat (r + of_bool l)" "r + of_bool l < 2 ^ 16" "bit (it_flags i) 0 \<longleftrightarrow> l" "\<not> bit (it_flags i) 2"
    "\<not> bit (it_flags i) 5" using assms by (simp_all add: item_ok_def)
  show "it_flags i \<noteq> ITEM_SLABBED" using b(4) flag_bits(4) by blast
qed

lemma more_fields:
  fixes s t :: items_state
  assumes "slabs_state.more t = slabs_state.more s"
  shows "heads t = heads s" "tails t = tails s" "lru_sizes t = lru_sizes s" "sizes_bytes t = sizes_bytes s" "tab t = tab s"
    "curr_items t = curr_items s" "curr_bytes t = curr_bytes s" "current_time t = current_time s" "item_key t = item_key s"
    "bump_buf t = bump_buf s"
proof -
  show "heads t = heads s" "tails t = tails s" "lru_sizes t = lru_sizes s" "sizes_bytes t = sizes_bytes s" and tb: "tab t = tab s"
    and "curr_items t = curr_items s" "curr_bytes t = curr_bytes s" "current_time t = current_time s" "bump_buf t = bump_buf s"
    using assms by (cases s; cases t; simp)+
  show "item_key t = item_key s" by (simp add: fun_eq_iff item_key_def tb)
qed

section \<open>Writing a header\<close>

text \<open>Changes of a header that the queues and the allocator do not see.\<close>

definition same_place :: "item \<Rightarrow> item \<Rightarrow> bool" where
  "same_place i j \<longleftrightarrow>
     it_next i = it_next j \<and> it_prev i = it_prev j \<and> it_clsid i = it_clsid j \<and> ITEM_ntotal i = ITEM_ntotal j"

lemma lru_ok_heap:
  assumes ok: "lru_ok s L" and same: "\<And>a. is_linked L a \<Longrightarrow> same_place (heap t a) (heap s a)"
    and f: "heads t = heads s" "tails t = tails s" "lru_sizes t = lru_sizes s" "sizes_bytes t = sizes_bytes s"
  shows "lru_ok t L"
proof -
  note D = lru_okD [OF ok]
  have same': "same_place (heap t a) (heap s a)" if "a \<in> set (L q)" for a q using same that unfolding is_linked_def by blast
  have "lists_ok (heap t) L" by (rule lists_ok_cong [OF D(1)]) (use same' in \<open>simp add: same_place_def\<close>)
  moreover have "(\<Sum>a\<leftarrow>L q. ITEM_ntotal (heap t a)) = (\<Sum>a\<leftarrow>L q. ITEM_ntotal (heap s a))" for q
    by (intro arg_cong [of _ _ sum_list] map_cong refl) (use same' in \<open>simp add: same_place_def\<close>)
  moreover have "it_clsid (heap t a) = q" if "a \<in> set (L q)" for a q using D(6) [OF that] same' [OF that] by (simp add: same_place_def)
  ultimately show ?thesis using D(2-5) unfolding lru_ok_def f by simp
qed

lemma store_write:
  assumes inv: "store_inv s L R" and use: "in_use L R a" and g: "same_place (g (heap s a)) (heap s a)"
    and ok: "item_ok (g (heap s a)) (is_linked L a) r" and r: "0 < r \<or> is_linked L a"
  shows "store_inv (upd_item a g s) L (R(a := r))"
proof -
  let ?t = "upd_item a g s" and ?R = "R(a := r)"
  note D = store_invD [OF inv]
  have cls: "item_cls ?t b = item_cls s b" for b using g by (simp add: item_cls_def same_place_def ITEM_clsid_def)
  have use_eq: "in_use L ?R b = in_use L R b" for b using use r by (auto simp: in_use_def)
  have fl: "it_flags (g (heap s a)) \<noteq> ITEM_SLABBED" using item_okD(6) [OF ok] .
  note w = write_inv [OF D(1) D(9) [OF use], of g, OF fl]
  have "lru_ok ?t L" by (rule lru_ok_heap [OF D(3)]) (use g in \<open>auto simp: same_place_def upd_item_def\<close>)
  moreover have "slab_live ?t = {(item_cls ?t b, b) | b. in_use L ?R b}" unfolding w cls use_eq by (rule D(4))
  moreover have "item_ok (heap ?t b) (is_linked L b) (?R b)" if "in_use L ?R b" for b
    using that ok D(5) [of b] by (simp add: use_eq)
  moreover have "tab ?t = tab s" "item_key ?t = item_key s" "curr_items ?t = curr_items s" "curr_bytes ?t = curr_bytes s"
    "sizes_bytes ?t = sizes_bytes s" by (rule more_fields, simp)+
  ultimately show ?thesis unfolding store_inv_def using w(1) D(2,6-8) by simp
qed

lemma refcount_incr_inv:
  assumes inv: "store_inv s L R" and use: "in_use L R a" and few: "R a + 1 + of_bool (is_linked L a) < 2 ^ 16"
  shows "store_inv (refcount_incr a s) L (R(a := R a + 1))"
  unfolding refcount_incr_def
proof (rule store_write [OF inv use])
  show "item_ok ((heap s a)\<lparr>it_refcount := it_refcount (heap s a) + 1\<rparr>) (is_linked L a) (R a + 1)"
    using item_okD [OF store_invD(5) [OF inv use]] few by (simp add: item_ok_def)
qed (simp_all add: same_place_def ITEM_ntotal_def)

section \<open>Dropping a reference\<close>

text \<open>Headers that agree on what decides whether the item is expired or flushed.\<close>

definition same_life :: "item \<Rightarrow> item \<Rightarrow> bool" where
  "same_life i j \<longleftrightarrow> it_exptime i = it_exptime j \<and> it_time i = it_time j \<and> ITEM_get_cas i = ITEM_get_cas j"

lemma same_life_refl [simp]: "same_life i i"
  by (simp add: same_life_def)

lemma same_life_trans: "same_life i j \<Longrightarrow> same_life j k \<Longrightarrow> same_life i k"
  by (simp add: same_life_def)

lemma same_life_links: "same_but_links i j \<Longrightarrow> same_life i j"
  by (simp add: same_life_def same_but_links_simps ITEM_get_cas_def)

lemma refcount_zero_iff:
  assumes "r + of_bool l < 2 ^ 16"
  shows "(of_nat (r + of_bool l) :: u16) = 0 \<longleftrightarrow> r = 0 \<and> \<not> l"
proof -
  have "unat (of_nat (r + of_bool l) :: u16) = r + of_bool l" using assms by (intro unat_of_nat_u16) simp
  then show ?thesis by (auto simp: unat_eq_0 [symmetric])
qed

lemma item_free_inv:
  assumes inv: "store_inv s L R" and a: "R a = 1" "\<not> is_linked L a"
  shows "\<exists>t. item_free a (refcount_decr a s) = Some t \<and> store_inv t L (R(a := 0)) \<and> tab t = tab s \<and>
    slabs_state.more t = slabs_state.more s \<and> settings t = settings s \<and> (\<forall>b. is_linked L b \<longrightarrow> heap t b = heap s b) \<and> same_pages s t"
proof -
  let ?u = "refcount_decr a s" and ?R = "R(a := 0)"
  note D = store_invD [OF inv]
  have use: "in_use L R a" using a by (simp add: in_use_def)
  note ok = item_okD [OF D(5) [OF use]]
  let ?g = "\<lambda>i. i\<lparr>it_refcount := it_refcount i - 1\<rparr>"
  have w: "slabs_inv ?u" "slab_live ?u = slab_live s"
    using write_inv [OF D(1) D(9) [OF use], of ?g] ok(6) by (simp_all add: refcount_decr_def)
  have l: "(item_cls ?u a, a) \<in> slab_live ?u" unfolding w(2) using D(9) [OF use] by (simp add: refcount_decr_def item_cls_def ITEM_clsid_def)
  have plain: "it_flags (heap ?u a) AND ITEM_CHUNKED = 0" using ok(5) by (simp add: flag_bits refcount_decr_def)
  from do_slabs_free_spec [OF w(1) l plain] obtain t where t: "do_slabs_free a (item_cls ?u a) ?u = Some t" "slabs_inv t"
    "slab_live t = slab_live ?u - {(item_cls ?u a, a)}" "only_free (item_cls ?u a) ?u t"
    and frame: "\<And>d b. (d, b) \<in> slab_live ?u \<Longrightarrow> (d, b) \<noteq> (item_cls ?u a, a) \<Longrightarrow> heap t b = heap ?u b" by blast
  have more: "slabs_state.more t = slabs_state.more s" "settings t = settings s"
    using only_free_state(1,9) [OF t(4)] by (simp_all add: refcount_decr_def)
  note m = more_fields [OF more(1)]
  have keep: "heap t b = heap s b" if "in_use L R b" "b \<noteq> a" for b
    using frame [of "item_cls s b" b] D(9) [OF that(1)] that(2) w(2) by (simp add: refcount_decr_def)
  have use_eq: "in_use L ?R b \<longleftrightarrow> in_use L R b \<and> b \<noteq> a" for b using a by (auto simp: in_use_def)
  have "item_cls ?u a = item_cls s a" by (simp add: refcount_decr_def item_cls_def ITEM_clsid_def)
  then have "slab_live t = {(item_cls s b, b) | b. in_use L R b} - {(item_cls s a, a)}" using t(3) w(2) D(4) by simp
  also have "\<dots> = {(item_cls s b, b) | b. in_use L R b \<and> b \<noteq> a}" by blast
  also have "\<dots> = {(item_cls t b, b) | b. in_use L ?R b}"
    unfolding use_eq by (intro Collect_cong ex_cong1) (use keep in \<open>auto simp: item_cls_def\<close>)
  finally have live: "slab_live t = {(item_cls t b, b) | b. in_use L ?R b}" .
  have na: "b \<noteq> a" "in_use L R b" if "is_linked L b" for b using that a by (auto simp: in_use_def)
  have lru: "lru_ok t L"
    by (rule lru_ok_heap [OF D(3)]) (use keep na m in \<open>simp_all add: same_place_def\<close>)
  have items: "item_ok (heap t b) (is_linked L b) (?R b)" if "in_use L ?R b" for b using that D(5) [of b] keep [of b] by (simp add: use_eq)
  have "store_inv t L ?R" unfolding store_inv_def using t(2) D(2,6-8) lru live items m by simp
  moreover have "same_pages s t"
    by (rule same_pages_trans [OF same_pages_core same_pages_free [OF t(4)]]) (simp add: refcount_decr_def upd_item_def same_core_def)
  ultimately show ?thesis using t(1) more m(5) keep na by (simp add: item_free_def item_cls_def)
qed

lemma do_item_remove_inv:
  assumes inv: "store_inv s L R" and a: "0 < R a"
  shows "\<exists>t. do_item_remove a s = Some t \<and> store_inv t L (R(a := R a - 1)) \<and> tab t = tab s \<and>
    slabs_state.more t = slabs_state.more s \<and> settings t = settings s \<and> (\<forall>b. is_linked L b \<longrightarrow> same_life (heap t b) (heap s b)) \<and> same_pages s t"
proof -
  note D = store_invD [OF inv]
  have use: "in_use L R a" using a by (simp add: in_use_def)
  note ok = item_okD [OF D(5) [OF use]]
  have cnt: "it_refcount (heap (refcount_decr a s) a) = of_nat (R a - 1 + of_bool (is_linked L a))"
    using a ok(1) by (simp add: refcount_decr_def of_nat_diff)
  have zero: "it_refcount (heap (refcount_decr a s) a) = 0 \<longleftrightarrow> R a - 1 = 0 \<and> \<not> is_linked L a"
    unfolding cnt using ok(2) by (intro refcount_zero_iff) linarith
  show ?thesis
  proof (cases "R a - 1 = 0 \<and> \<not> is_linked L a")
    case True
    then have "R a = 1" "\<not> is_linked L a" using a by auto
    from item_free_inv [OF inv this] True zero show ?thesis by (auto simp: do_item_remove_def Let_def)
  next
    case False
    have "store_inv (refcount_decr a s) L (R(a := R a - 1))"
      unfolding refcount_decr_def
    proof (rule store_write [OF inv use])
      show "item_ok ((heap s a)\<lparr>it_refcount := it_refcount (heap s a) - 1\<rparr>) (is_linked L a) (R a - 1)"
        using ok cnt by (simp add: item_ok_def refcount_decr_def)
    qed (use False in \<open>auto simp: same_place_def ITEM_ntotal_def\<close>)
    moreover have "do_item_remove a s = Some (refcount_decr a s)"
      unfolding do_item_remove_def Let_def zero if_not_P [OF False] ..
    moreover have "same_pages s (refcount_decr a s)" by (rule same_pages_core) (simp add: refcount_decr_def upd_item_def same_core_def)
    ultimately show ?thesis by (simp add: refcount_decr_def upd_item_def same_life_def ITEM_get_cas_def)
  qed
qed

section \<open>Linking\<close>

lemma sum_fun_upd:
  fixes f :: "u8 \<Rightarrow> 'b :: ab_group_add"
  shows "(\<Sum>q\<in>UNIV. (f(p := x)) q) = (\<Sum>q\<in>UNIV. f q) - f p + x"
proof -
  have "(\<Sum>q\<in>UNIV. (f(p := x)) q) = x + (\<Sum>q\<in>UNIV - {p}. f q)"
    by (subst sum.remove [of _ p]) (auto intro!: sum.cong)
  moreover have "(\<Sum>q\<in>UNIV. f q) = f p + (\<Sum>q\<in>UNIV - {p}. f q)" by (subst sum.remove [of _ p]) auto
  ultimately show ?thesis by simp
qed

lemma sum_length_upd:
  fixes L :: "u8 \<Rightarrow> nat list"
  shows "(\<Sum>q\<in>UNIV. of_nat (length ((L(p := xs)) q))) = (\<Sum>q\<in>UNIV. of_nat (length (L q))) - of_nat (length (L p)) + (of_nat (length xs) :: u64)"
proof -
  have eq: "(\<lambda>q. of_nat (length ((L(p := xs)) q)) :: u64) = (\<lambda>q. of_nat (length (L q)))(p := of_nat (length xs))"
    by (simp add: fun_eq_iff)
  show ?thesis unfolding eq by (rule sum_fun_upd)
qed

lemma is_linked_upd: "L q = ys @ zs \<Longrightarrow> is_linked (L(q := ys @ it # zs)) a \<longleftrightarrow> a = it \<or> is_linked L a"
  unfolding is_linked_def by (auto split: if_splits) (metis Un_iff set_append)+

lemma is_linked_removed:
  assumes "lru_ok s L" and L: "L q = ys @ it # zs"
  shows "is_linked (L(q := ys @ zs)) b \<longleftrightarrow> is_linked L b \<and> b \<noteq> it"
proof -
  have "\<not> is_linked (L(q := ys @ zs)) it"
    using lists_okD(2,3) [OF lru_okD(1) [OF assms(1)], of q] L by (auto simp: is_linked_def)
  then show ?thesis using is_linked_upd [of "L(q := ys @ zs)" q ys zs it b] L by (metis fun_upd_same fun_upd_triv fun_upd_upd)
qed

lemma item_ok_links: "same_but_links i j \<Longrightarrow> item_ok i l r = item_ok j l r"
  by (simp add: item_ok_def same_but_links_simps)

text \<open>
  An operation on the queues rewrites the item it works on and the links of linked items; when it leaves the
  queues, that item, the table and the counts consistent, it keeps the invariant.
\<close>

lemma store_assemble:
  assumes inv: "store_inv s L R" and core: "same_core s t"
    and same: "\<And>b. b \<noteq> it \<Longrightarrow> same_but_links (heap t b) (heap s b)"
    and frame: "\<And>b. b \<noteq> it \<Longrightarrow> \<not> is_linked L b \<Longrightarrow> b \<noteq> 0 \<Longrightarrow> heap t b = heap s b" and null: "heap t 0 = heap s 0"
    and it: "in_use L R it" "ITEM_clsid (heap t it) = ITEM_clsid (heap s it)" "item_ok (heap t it) (is_linked L' it) (R' it)"
    and lru: "lru_ok t L'" and use_eq: "\<And>b. in_use L' R' b = in_use L R b"
    and others: "\<And>b. b \<noteq> it \<Longrightarrow> is_linked L' b = is_linked L b" "\<And>b. b \<noteq> it \<Longrightarrow> R' b = R b"
    and index: "assoc_wf (tab t)" "\<And>k b. index_find (tab t) k = Some b \<longleftrightarrow> is_linked L' b \<and> item_key t b = k"
    and counts: "curr_items t = (\<Sum>q\<in>UNIV. of_nat (length (L' q)))" "curr_bytes t = (\<Sum>q\<in>UNIV. sizes_bytes t q)"
  shows "store_inv t L' R'"
proof -
  note D = store_invD [OF inv]
  have ok: "item_ok (heap t b) (is_linked L' b) (R' b)" if "in_use L R b" for b
    using that it(3) D(5) [OF that] item_ok_links [OF same] others by (cases "b = it") auto
  have fl: "it_flags (heap t b) \<noteq> ITEM_SLABBED" if "(c, b) \<in> slab_live s" for c b
    using that D(4) item_okD(6) [OF ok] by auto
  have fr: "heap t b = heap s b" if "\<And>c. (c, b) \<notin> slab_live s" for b
  proof -
    have "\<not> in_use L R b" using D(9) [of b] that by blast
    then have "b \<noteq> it" "\<not> is_linked L b" using it(1) by (auto simp: in_use_def)
    then show ?thesis using frame null by (cases "b = 0") auto
  qed
  have w: "slabs_inv t" "slab_live t = slab_live s" using fr fl by (metis rewrite_live(1) [OF D(1) core], metis rewrite_live(2) [OF D(1) core])
  have cls: "item_cls t b = item_cls s b" for b
    using it(2) same_but_links_simps(6) [OF same] by (cases "b = it") (simp_all add: item_cls_def ITEM_clsid_def)
  show ?thesis unfolding store_inv_def use_eq w(2) cls using w(1) lru index counts ok D(4) by simp
qed

lemma link_head_null: "it \<noteq> 0 \<Longrightarrow> link_head h it x 0 = h 0"
  by (simp add: link_head_def Let_def)

text \<open>\<open>u\<close> is \<open>s\<close> with the header of \<open>it\<close> rewritten to \<open>j\<close>, apart from the table and the counters.\<close>

definition rewritten :: "items_state \<Rightarrow> nat \<Rightarrow> item \<Rightarrow> items_state \<Rightarrow> bool" where
  "rewritten s it j u \<longleftrightarrow>
     heap u = (heap s)(it := j) \<and> same_core s u \<and> ITEM_clsid j = ITEM_clsid (heap s it) \<and> ITEM_ntotal j = ITEM_ntotal (heap s it) \<and>
     heads u = heads s \<and> tails u = tails s \<and> lru_sizes u = lru_sizes s \<and> sizes_bytes u = sizes_bytes s"

lemma link_core:
  assumes inv: "store_inv s L R" and it: "0 < R it" "\<not> is_linked L it" and new: "index_find (tab s) (item_key s it) = None"
    and u: "rewritten s it j u" and ok: "item_ok j True (R it - 1)"
    and tb: "tab u = index_insert (tab s) it" and cnt: "curr_items u = curr_items s + 1" "curr_bytes u = curr_bytes s + ITEM_ntotal j"
    and q: "q = it_clsid j"
  shows "store_inv (do_item_link_q it u) (L(q := it # L q)) (R(it := R it - 1))" (is "store_inv ?t ?L ?R")
proof -
  note D = store_invD [OF inv]
  have h: "heap u = (heap s)(it := j)" and core: "same_core s u" and f: "heads u = heads s" "tails u = tails s"
    "lru_sizes u = lru_sizes s" "sizes_bytes u = sizes_bytes s" using u by (simp_all add: rewritten_def)
  have use: "in_use L R it" and nl: "it \<notin> set (L r)" for r using it by (auto simp: in_use_def is_linked_def)
  have link: "is_linked ?L b \<longleftrightarrow> b = it \<or> is_linked L b" for b using is_linked_upd [of L q "[]"] by simp
  have "lru_ok u L" by (rule lru_ok_heap [OF D(3)]) (use it(2) f in \<open>auto simp: h same_place_def\<close>)
  then have lru: "lru_ok ?t ?L" by (rule lru_link) (use D(10) [OF use] nl q in \<open>simp_all add: h\<close>)
  have th: "heap ?t = link_head (heap u) it (first (L q))"
    using lru_okD(2) [OF D(3)] by (simp add: do_item_link_q_heap h q [symmetric] f)
  have tf: "tab ?t = tab u" "curr_items ?t = curr_items u" "curr_bytes ?t = curr_bytes u"
    "sizes_bytes ?t = (sizes_bytes s)(q := sizes_bytes s q + ITEM_ntotal j)"
    using ntotal_links [OF link_head_same] by (simp_all add: do_item_link_q_def Let_def h q [symmetric] f)
  have itj: "same_but_links (heap ?t it) j" using link_head_same [of "heap u" it _ it] by (simp add: th h)
  have ins: "assoc_wf (index_insert (tab s) it)" "index_find (index_insert (tab s) it) = (index_find (tab s))(item_key s it \<mapsto> it)"
    "item_key ?t = item_key s"
    using index_insert_index [OF D(2), of it] new by (simp_all add: item_key_def index_key_def fun_eq_iff tf tb)
  show ?thesis
  proof (rule store_assemble [OF inv _ _ _ _ use])
    show "same_core s ?t" using core by (simp add: same_core_def do_item_link_q_def Let_def)
    show "same_but_links (heap ?t b) (heap s b)" if "b \<noteq> it" for b using that link_head_same [of "heap u" it _ b] by (simp add: th h)
    show "heap ?t b = heap s b" if "b \<noteq> it" "\<not> is_linked L b" "b \<noteq> 0" for b
      using that first_in_set [of "L q"] by (cases "b = first (L q)") (auto simp: th h link_head_other is_linked_def)
    show "heap ?t 0 = heap s 0" using D(10) [OF use] by (simp add: th h link_head_null)
    show "ITEM_clsid (heap ?t it) = ITEM_clsid (heap s it)"
      using u same_but_links_simps(6) [OF itj] by (simp add: rewritten_def ITEM_clsid_def)
    show "item_ok (heap ?t it) (is_linked ?L it) (?R it)" using ok item_ok_links [OF itj] by (simp add: link)
    show "in_use ?L ?R b = in_use L R b" for b using use by (auto simp: in_use_def link)
    show "assoc_wf (tab ?t)" by (simp add: tf tb ins)
    show "index_find (tab ?t) k = Some b \<longleftrightarrow> is_linked ?L b \<and> item_key ?t b = k" for k b
      using D(6) [of k b] new it(2) by (auto simp: tf tb ins link) 
    show "curr_items ?t = (\<Sum>r\<in>UNIV. of_nat (length (?L r)))"
      unfolding sum_length_upd tf cnt D(7) by simp
    show "curr_bytes ?t = (\<Sum>r\<in>UNIV. sizes_bytes ?t r)" unfolding tf sum_fun_upd cnt D(8) by simp
  qed (use lru link in auto)
qed

lemma store_inv_other:
  assumes inv: "store_inv s L R" and h: "heap t = heap s" and core: "same_core s t"
    and f: "heads t = heads s" "tails t = tails s" "lru_sizes t = lru_sizes s" "sizes_bytes t = sizes_bytes s"
      "tab t = tab s" "curr_items t = curr_items s" "curr_bytes t = curr_bytes s"
  shows "store_inv t L R"
proof -
  note D = store_invD [OF inv]
  have fl: "it_flags (heap t b) \<noteq> ITEM_SLABBED" if "(c, b) \<in> slab_live s" for c b
    using that D(4) item_okD(6) [OF D(5)] by (auto simp: h)
  have w: "slabs_inv t" "slab_live t = slab_live s"
    using h fl by (metis rewrite_live(1) [OF D(1) core], metis rewrite_live(2) [OF D(1) core])
  have "lru_ok t L" by (rule lru_ok_heap [OF D(3)]) (use f in \<open>simp_all add: h same_place_def\<close>)
  moreover have "item_cls t = item_cls s" "item_key t = item_key s" by (simp_all add: fun_eq_iff item_cls_def item_key_def h f)
  ultimately show ?thesis unfolding store_inv_def f w(2) h using w(1) D(2,4-8) by simp
qed

lemma sizes_inv:
  assumes "store_inv s L R"
  shows "store_inv (item_stats_sizes_add it s) L R" "store_inv (item_stats_sizes_remove it s) L R"
proof -
  show "store_inv (item_stats_sizes_add it s) L R"
    by (rule store_inv_other [OF assms]) (simp_all add: item_stats_sizes_add_def same_core_def Let_def split: option.split)
  show "store_inv (item_stats_sizes_remove it s) L R"
    by (rule store_inv_other [OF assms]) (simp_all add: item_stats_sizes_remove_def same_core_def Let_def split: option.split)
qed

text \<open>
  Setting and clearing \<^verbatim>\<open>ITEM_LINKED\<close>, \<^verbatim>\<open>ITEM_FETCHED\<close> and \<^verbatim>\<open>ITEM_ACTIVE\<close>, with the
  complements as the simplifier writes them, and the flags that decide an item's size.
\<close>

lemma set_flag_bit:
  fixes w :: u16
  assumes "k < 16"
  shows "bit (w OR 2 ^ k) n \<longleftrightarrow> n = k \<or> bit w n" "bit (w AND NOT (2 ^ k)) n \<longleftrightarrow> bit w n \<and> n \<noteq> k"
  using assms bit_imp_le_length [of w n] by (auto simp: bit_simps)

lemma size_flag:
  fixes v w :: u16
  assumes "\<And>n. n \<in> {1, 8} \<Longrightarrow> bit v n = bit w n"
  shows "v AND ITEM_CAS = w AND ITEM_CAS" "v AND ITEM_CFLAGS = w AND ITEM_CFLAGS"
proof -
  have b: "v AND 2 ^ k = w AND 2 ^ k" if "k \<in> {1, 8}" for k
    using assms [OF that] by (intro bit_word_eqI) (auto simp: bit_simps)
  from b [of 1] b [of 8] show "v AND ITEM_CAS = w AND ITEM_CAS" "v AND ITEM_CFLAGS = w AND ITEM_CFLAGS" by simp_all
qed

lemma flag_simps:
  fixes w :: u16
  shows "bit (w OR ITEM_LINKED) n \<longleftrightarrow> n = 0 \<or> bit w n" "bit (w OR ITEM_FETCHED) n \<longleftrightarrow> n = 3 \<or> bit w n"
    "bit (w OR ITEM_ACTIVE) n \<longleftrightarrow> n = 4 \<or> bit w n"
    "bit (w AND - 2) n \<longleftrightarrow> bit w n \<and> n \<noteq> 0" "bit (w AND - 17) n \<longleftrightarrow> bit w n \<and> n \<noteq> 4"
proof -
  show "bit (w OR ITEM_LINKED) n \<longleftrightarrow> n = 0 \<or> bit w n" using set_flag_bit(1) [of 0 w n] by simp
  show "bit (w OR ITEM_FETCHED) n \<longleftrightarrow> n = 3 \<or> bit w n" using set_flag_bit(1) [of 3 w n] by simp
  show "bit (w OR ITEM_ACTIVE) n \<longleftrightarrow> n = 4 \<or> bit w n" using set_flag_bit(1) [of 4 w n] by simp
  show "bit (w AND - 2) n \<longleftrightarrow> bit w n \<and> n \<noteq> 0" using set_flag_bit(2) [of 0 w n] by simp
  show "bit (w AND - 17) n \<longleftrightarrow> bit w n \<and> n \<noteq> 4" using set_flag_bit(2) [of 4 w n] by simp
qed

lemma size_flag_simps:
  fixes w :: u16
  shows "(w OR ITEM_LINKED) AND ITEM_CAS = w AND ITEM_CAS" "(w OR ITEM_LINKED) AND ITEM_CFLAGS = w AND ITEM_CFLAGS"
    "(w OR ITEM_FETCHED) AND ITEM_CAS = w AND ITEM_CAS" "(w OR ITEM_FETCHED) AND ITEM_CFLAGS = w AND ITEM_CFLAGS"
    "(w OR ITEM_ACTIVE) AND ITEM_CAS = w AND ITEM_CAS" "(w OR ITEM_ACTIVE) AND ITEM_CFLAGS = w AND ITEM_CFLAGS"
    "(w AND - 2) AND ITEM_CAS = w AND ITEM_CAS" "(w AND - 2) AND ITEM_CFLAGS = w AND ITEM_CFLAGS"
    "(w AND - 17) AND ITEM_CAS = w AND ITEM_CAS" "(w AND - 17) AND ITEM_CFLAGS = w AND ITEM_CFLAGS"
  by (rule size_flag; auto simp: flag_simps)+

lemma do_item_link_inv:
  assumes inv: "store_inv s L R" and it: "0 < R it" "\<not> is_linked L it" and new: "index_find (tab s) (item_key s it) = None"
    and hv: "hv = item_hv s it" and q: "q = it_clsid (heap s it)" and few: "R it + 1 < 2 ^ 16"
  shows "store_inv (do_item_link it hv s) (L(q := it # L q)) R"
    "index_find (tab (do_item_link it hv s)) = (index_find (tab s))(item_key s it \<mapsto> it)"
proof -
  let ?cas = "if st_use_cas (settings s) then cas_id s + 1 else 0"
  let ?j = "ITEM_set_cas ?cas ((heap s it)\<lparr>it_flags := it_flags (heap s it) OR ITEM_LINKED, it_time := current_time s\<rparr>)"
  define v where "v = upd_item it (\<lambda>i. i\<lparr>it_flags := it_flags i OR ITEM_LINKED, it_time := current_time s\<rparr>) s"
  define w where "w = v\<lparr>curr_bytes := curr_bytes v + ITEM_ntotal (heap v it), curr_items := curr_items v + 1, total_items := total_items v + 1\<rparr>"
  define x where "x = (if st_use_cas (settings w) then get_cas_id w else (0, w))"
  define y where "y = upd_item it (ITEM_set_cas (fst x)) (snd x)"
  define u where "u = y\<lparr>tab := assoc_insert (tab y) it hv\<rparr>"
  have eq: "do_item_link it hv s = item_stats_sizes_add it (refcount_incr it (do_item_link_q it u))"
    by (simp add: do_item_link_def Let_def u_def y_def x_def w_def v_def split_beta)
  have fields: "heap u = (heap s)(it := ?j)" "same_core s u" "heads u = heads s" "tails u = tails s" "lru_sizes u = lru_sizes s"
    "sizes_bytes u = sizes_bytes s" "curr_items u = curr_items s + 1" "curr_bytes u = curr_bytes s + ITEM_ntotal ?j"
    "tab u = index_insert (tab s) it"
    by (simp_all add: u_def y_def x_def w_def v_def get_cas_id_def upd_item_def same_core_def ITEM_set_cas_def ITEM_ntotal_def flag_simps size_flag_simps
        hv item_hv_def item_key_def index_insert_def)
  note D = store_invD [OF inv]
  have use: "in_use L R it" using it by (simp add: in_use_def)
  note ok = item_okD [OF D(5) [OF use]]
  have rw: "rewritten s it ?j u"
    using fields(1-6) by (simp add: rewritten_def ITEM_set_cas_def ITEM_clsid_def ITEM_ntotal_def flag_simps size_flag_simps)
  have okj: "item_ok ?j True (R it - 1)" using ok it by (simp add: item_ok_def ITEM_set_cas_def flag_simps size_flag_simps)
  have qj: "q = it_clsid ?j" by (simp add: q ITEM_set_cas_def)
  have i: "store_inv (do_item_link_q it u) (L(q := it # L q)) (R(it := R it - 1))"
    by (rule link_core [OF inv it new rw okj _ _ _ qj]) (use fields in simp_all)
  have use2: "in_use (L(q := it # L q)) (R(it := R it - 1)) it" by (auto simp: in_use_def is_linked_def)
  have "store_inv (refcount_incr it (do_item_link_q it u)) (L(q := it # L q)) R"
    using refcount_incr_inv [OF i use2] few it(1) by (simp add: is_linked_def of_bool_def split: if_splits)
  then show "store_inv (do_item_link it hv s) (L(q := it # L q)) R" unfolding eq by (rule sizes_inv)
  show "index_find (tab (do_item_link it hv s)) = (index_find (tab s))(item_key s it \<mapsto> it)"
    using index_insert_index [OF D(2), of it] new
    by (simp add: eq item_stats_sizes_add_def Let_def refcount_incr_def upd_item_def do_item_link_q_def fields(9) index_key_def item_key_def
        split: option.split)
qed

section \<open>Unlinking\<close>

lemma unlink_core:
  assumes inv: "store_inv s L R" and it: "L q = ys @ it # zs"
    and u: "rewritten s it j u" and ok: "item_ok j False (R it + 1)" and j: "same_place j (heap s it)"
    and tb: "tab u = index_delete (tab s) (item_key s it)"
    and cnt: "curr_items u = curr_items s - 1" "curr_bytes u = curr_bytes s - ITEM_ntotal j"
  shows "store_inv (do_item_unlink_q it u) (L(q := ys @ zs)) (R(it := R it + 1))" (is "store_inv ?t ?L ?R")
proof -
  note D = store_invD [OF inv]
  note E = lru_okD [OF D(3)]
  have h: "heap u = (heap s)(it := j)" and core: "same_core s u" and f: "heads u = heads s" "tails u = tails s"
    "lru_sizes u = lru_sizes s" "sizes_bytes u = sizes_bytes s" using u by (simp_all add: rewritten_def)
  have lit: "is_linked L it" using it unfolding is_linked_def by (metis in_set_conv_decomp)
  then have use: "in_use L R it" by (simp add: in_use_def)
  have lu: "lru_ok u L" by (rule lru_ok_heap [OF D(3)]) (use j f in \<open>auto simp: h same_place_def\<close>)
  have dl: "dll (heap u) 0 (ys @ it # zs) 0" "distinct (ys @ it # zs)"
    using lists_okD(1,2) [OF lru_okD(1) [OF lu], of q] by (simp_all only: it)
  note link = is_linked_removed [OF D(3) it]
  have q: "it_clsid j = q" using E(6) [of it q] j it by (simp add: same_place_def)
  have lru: "lru_ok ?t ?L" by (rule lru_unlink [OF lu it])
  have th: "heap ?t = unlink_cell (heap u) it" by (rule do_item_unlink_q_heap)
  have tf: "tab ?t = tab u" "curr_items ?t = curr_items u" "curr_bytes ?t = curr_bytes u"
    "sizes_bytes ?t = (sizes_bytes s)(q := sizes_bytes s q - ITEM_ntotal j)"
    using ntotal_links [OF unlink_cell_same] by (simp_all add: do_item_unlink_q_def Let_def h q f)
  have itj: "same_but_links (heap ?t it) j" using unlink_cell_same [of "heap u" it it] by (simp add: th h)
  have found: "index_find (tab s) (item_key s it) = Some it" using D(6) lit by blast
  then have del: "assoc_wf (tab u)" "index_find (tab u) = (index_find (tab s))(item_key s it := None)"
    "item_key ?t = item_key s"
    using index_delete_index [OF D(2), of "item_key s it"] by (simp_all add: item_key_def index_key_def fun_eq_iff tf tb)
  show ?thesis
  proof (rule store_assemble [OF inv _ _ _ _ use])
    show "same_core s ?t" using core by (simp add: same_core_def do_item_unlink_q_def Let_def)
    show "same_but_links (heap ?t b) (heap s b)" if "b \<noteq> it" for b using that unlink_cell_same [of "heap u" it b] by (simp add: th h)
    show "heap ?t b = heap s b" if "b \<noteq> it" "\<not> is_linked L b" for b
    proof -
      have "b \<notin> set (L q)" using that(2) by (auto simp: is_linked_def)
      then show ?thesis using that(1) unlink_cell_frame [OF dl, of b] it by (simp add: th h)
    qed
    show "heap ?t 0 = heap s 0"
      using unlink_cell_frame [OF dl, of 0] lists_okD(4) [OF E(1), of q] it D(10) [OF use] by (auto simp: th h)
    show "ITEM_clsid (heap ?t it) = ITEM_clsid (heap s it)"
      using u same_but_links_simps(6) [OF itj] by (simp add: rewritten_def ITEM_clsid_def)
    show "item_ok (heap ?t it) (is_linked ?L it) (?R it)" using ok item_ok_links [OF itj] link by simp
    show "in_use ?L ?R b = in_use L R b" for b using lit link by (auto simp: in_use_def)
    show "assoc_wf (tab ?t)" by (simp add: tf del)
    show "index_find (tab ?t) k = Some b \<longleftrightarrow> is_linked ?L b \<and> item_key ?t b = k" for k b
      using D(6) [of k b] D(6) [of k it] link [of b] found unfolding tf del by (cases "k = item_key s it") auto
    show "curr_items ?t = (\<Sum>r\<in>UNIV. of_nat (length (?L r)))"
      unfolding sum_length_upd tf cnt D(7) it by simp
    show "curr_bytes ?t = (\<Sum>r\<in>UNIV. sizes_bytes ?t r)" unfolding tf sum_fun_upd cnt D(8) by simp
  qed (use lru link in auto)
qed

end
