(* ===== verification/Item_Access.thy ===== *)
theory Item_Access
  imports Item_Store
begin

text \<open>
  The operations of the item store that its clients call: unlinking, moving an item between queues, bumping, lookup
  with lazy expiry, touching and replacing.  Each keeps the invariant, and each lemma says what becomes of the
  index, of the queues and of the references.
\<close>

section \<open>Unlinking\<close>

text \<open>The parts of the state that only the clock, the configuration and the keys determine.\<close>

definition same_setting :: "items_state \<Rightarrow> items_state \<Rightarrow> bool" where
  "same_setting s t \<longleftrightarrow>
     same_pages s t \<and> settings t = settings s \<and> current_time t = current_time s \<and> item_key t = item_key s \<and> hash_fn (tab t) = hash_fn (tab s)"

lemma same_setting_refl [simp]: "same_setting s s"
  by (simp add: same_setting_def)

lemma same_setting_trans: "same_setting s t \<Longrightarrow> same_setting t u \<Longrightarrow> same_setting s u"
  using same_pages_trans [of s t u] by (simp add: same_setting_def)

lemma same_setting_hv: "same_setting s t \<Longrightarrow> item_hv t a = item_hv s a"
  by (simp add: same_setting_def item_hv_def)

lemma same_setting_more:
  assumes "slabs_state.more t = slabs_state.more s" "settings t = settings s" "same_pages s t"
  shows "same_setting s t"
  using more_fields(5,8,9) [OF assms(1)] assms(2,3) by (simp add: same_setting_def)

lemma index_remove_found:
  assumes wf: "assoc_wf (tab s)" and found: "index_find (tab s) k = Some a" and hv: "hv = hash_fn (tab s) k"
  shows "index_remove k hv s = Some (s\<lparr>tab := index_delete (tab s) k\<rparr>)" "hash_fn (index_delete (tab s) k) = hash_fn (tab s)"
proof -
  obtain C where "table_inv (tab s) C" using wf by (auto simp: assoc_wf_def)
  from delete_table [OF this found] obtain t where "assoc_delete (tab s) k (hash_fn (tab s) k) = Some (Some t)" "hash_fn t = hash_fn (tab s)"
    by blast
  then show "index_remove k hv s = Some (s\<lparr>tab := index_delete (tab s) k\<rparr>)" "hash_fn (index_delete (tab s) k) = hash_fn (tab s)"
    by (simp_all add: index_remove_def index_delete_def hv)
qed

lemma do_item_unlink_inv:
  assumes inv: "store_inv s L R" and it: "L q = ys @ it # zs" and hv: "hv = item_hv s it"
  shows "\<exists>t. do_item_unlink it hv s = Some t \<and> store_inv t (L(q := ys @ zs)) R \<and>
    index_find (tab t) = (index_find (tab s))(item_key s it := None) \<and> same_setting s t \<and> bump_buf t = bump_buf s \<and>
    (\<forall>b. is_linked (L(q := ys @ zs)) b \<longrightarrow> same_life (heap t b) (heap s b))"
proof -
  note D = store_invD [OF inv]
  have lit: "is_linked L it" using it unfolding is_linked_def by (metis in_set_conv_decomp)
  then have use: "in_use L R it" by (simp add: in_use_def)
  note ok = item_okD [OF D(5) [OF use]]
  have found: "index_find (tab s) (item_key s it) = Some it" using D(6) lit by blast
  let ?j = "(heap s it)\<lparr>it_flags := it_flags (heap s it) AND NOT ITEM_LINKED\<rparr>"
  define v where "v = upd_item it (\<lambda>i. i\<lparr>it_flags := it_flags i AND NOT ITEM_LINKED\<rparr>) s"
  define w where "w = item_stats_sizes_remove it (v\<lparr>curr_bytes := curr_bytes v - ITEM_ntotal (heap v it), curr_items := curr_items v - 1\<rparr>)"
  have wf: "heap w = (heap s)(it := ?j)" "same_core s w" "heads w = heads s" "tails w = tails s" "lru_sizes w = lru_sizes s"
    "sizes_bytes w = sizes_bytes s" "curr_items w = curr_items s - 1" "curr_bytes w = curr_bytes s - ITEM_ntotal ?j" "tab w = tab s"
    "current_time w = current_time s" "settings w = settings s" "bump_buf w = bump_buf s"
    by (simp_all add: w_def v_def item_stats_sizes_remove_def upd_item_def same_core_def Let_def split: option.split)
  define u where "u = w\<lparr>tab := index_delete (tab s) (item_key s it)\<rparr>"
  have key: "item_key w it = item_key s it" "item_hv s it = hash_fn (tab s) (item_key s it)" by (simp_all add: item_key_def item_hv_def wf)
  note rem = index_remove_found [of w "item_key s it" it hv, unfolded wf, OF D(2) found hv [unfolded key]]
  have eq: "do_item_unlink it hv s = do_item_remove it (do_item_unlink_q it u)"
  proof -
    have lf: "it_flags (heap s it) AND ITEM_LINKED \<noteq> 0" using ok(3) lit by (simp add: flag_bits)
    have "do_item_unlink it hv s = Option.bind (index_remove (item_key w it) hv w) (\<lambda>s4. do_item_remove it (do_item_unlink_q it s4))"
      unfolding do_item_unlink_def Let_def if_P [OF lf] v_def w_def ..
    then show ?thesis unfolding key rem(1) by (simp add: u_def)
  qed
  have nt: "ITEM_ntotal ?j = ITEM_ntotal (heap s it)" by (simp add: ITEM_ntotal_def flag_simps size_flag_simps)
  have rw: "rewritten s it ?j u" using wf nt by (simp add: rewritten_def u_def same_core_def ITEM_clsid_def)
  have okj: "item_ok ?j False (R it + 1)" using ok lit by (simp add: item_ok_def flag_simps size_flag_simps)
  have i: "store_inv (do_item_unlink_q it u) (L(q := ys @ zs)) (R(it := R it + 1))"
    by (rule unlink_core [OF inv it rw okj]) (use nt in \<open>simp_all add: same_place_def u_def wf\<close>)
  from do_item_remove_inv [OF i, of it] obtain t where t: "do_item_remove it (do_item_unlink_q it u) = Some t"
    "store_inv t (L(q := ys @ zs)) R" "tab t = tab (do_item_unlink_q it u)"
    "slabs_state.more t = slabs_state.more (do_item_unlink_q it u)" "settings t = settings (do_item_unlink_q it u)"
    "\<And>b. is_linked (L(q := ys @ zs)) b \<Longrightarrow> same_life (heap t b) (heap (do_item_unlink_q it u) b)"
    "same_pages (do_item_unlink_q it u) t" by auto
  have tb: "tab (do_item_unlink_q it u) = index_delete (tab s) (item_key s it)" by (simp add: do_item_unlink_q_def Let_def u_def)
  note del = index_delete_index [OF D(2), of "item_key s it"]
  have "same_pages s (do_item_unlink_q it u)"
    using wf(2) by (intro same_pages_core) (simp add: same_core_def do_item_unlink_q_def Let_def u_def)
  then have "same_setting s (do_item_unlink_q it u)" unfolding same_setting_def item_key_def
    using del found rem(2) by (simp add: do_item_unlink_q_def Let_def u_def wf tb index_key_def fun_eq_iff item_key_def)
  with same_setting_more [OF t(4,5,7)] have "same_setting s t" by (metis same_setting_trans)
  moreover have "index_find (tab t) = (index_find (tab s))(item_key s it := None)" using del found t(3) by (simp add: tb)
  moreover have "bump_buf t = bump_buf s" using more_fields(10) [OF t(4)] by (simp add: do_item_unlink_q_def Let_def u_def wf)
  moreover have "same_life (heap t b) (heap s b)" if "is_linked (L(q := ys @ zs)) b" for b
  proof -
    have "same_life (unlink_cell (heap u) it b) (heap u b)" by (rule same_life_links [OF unlink_cell_same])
    moreover have "same_life (heap u b) (heap s b)" by (simp add: u_def wf same_life_def ITEM_get_cas_def size_flag_simps)
    ultimately show ?thesis using t(6) [OF that] unfolding do_item_unlink_q_heap by (metis same_life_trans)
  qed
  ultimately show ?thesis using eq t(1,2) by auto
qed

lemma nolock_eq: "do_item_unlink_nolock = do_item_unlink"
  by (simp add: fun_eq_iff do_item_unlink_nolock_def do_item_unlink_def)

section \<open>Moving an item to the front of a queue\<close>

text \<open>The queues after \<open>it\<close> has been taken out of \<open>q\<close> and put in front of \<open>r\<close>.\<close>

definition move_front :: "(u8 \<Rightarrow> nat list) \<Rightarrow> u8 \<Rightarrow> u8 \<Rightarrow> nat \<Rightarrow> (u8 \<Rightarrow> nat list)" where
  "move_front L q r it = (let L1 = L(q := remove1 it (L q)) in L1(r := it # L1 r))"

lemma move_front_split:
  assumes "L q = ys @ it # zs" "it \<notin> set ys"
  shows "move_front L q r it = (L(q := ys @ zs))(r := it # (L(q := ys @ zs)) r)"
  using assms by (simp add: move_front_def Let_def remove1_append)

lemma move_front_linked:
  assumes "it \<in> set (L q)"
  shows "is_linked (move_front L q r it) a = is_linked L a"
proof -
  obtain ys zs where L: "L q = ys @ it # zs" "it \<notin> set ys" using split_list_first [OF assms] by blast
  let ?L = "L(q := ys @ zs)"
  have "is_linked (?L(r := it # ?L r)) a \<longleftrightarrow> a = it \<or> is_linked ?L a" using is_linked_upd [of ?L r "[]" "?L r" it a] by simp
  moreover have "is_linked (?L(q := ys @ it # zs)) a \<longleftrightarrow> a = it \<or> is_linked ?L a" using is_linked_upd [of ?L q ys zs it a] by simp
  moreover have "?L(q := ys @ it # zs) = L" using L(1) by auto
  ultimately show ?thesis by (simp only: move_front_split [of L q ys it zs, OF L])
qed

text \<open>
  The state after the header of a linked item was rewritten, the item taken out of its queue, rewritten again and
  put in front of the queue its new header names.
\<close>

definition requeue :: "nat \<Rightarrow> (item \<Rightarrow> item) \<Rightarrow> (item \<Rightarrow> item) \<Rightarrow> items_state \<Rightarrow> items_state" where
  "requeue it f g s = do_item_link_q it (upd_item it g (do_item_unlink_q it (upd_item it f s)))"

lemma requeue_fields [simp]:
  "same_core s (requeue it f g s)" "tab (requeue it f g s) = tab s" "curr_items (requeue it f g s) = curr_items s"
  "curr_bytes (requeue it f g s) = curr_bytes s" "settings (requeue it f g s) = settings s" "current_time (requeue it f g s) = current_time s"
  "bump_buf (requeue it f g s) = bump_buf s" "item_key (requeue it f g s) = item_key s"
  by (simp_all add: requeue_def same_core_def do_item_link_q_def do_item_unlink_q_def Let_def upd_item_def item_key_def fun_eq_iff)

lemma requeue_core [simp]:
  "slabclass (requeue it f g s) = slabclass s" "power_largest (requeue it f g s) = power_largest s"
  "mem_base (requeue it f g s) = mem_base s" "mem_current (requeue it f g s) = mem_current s"
  "mem_avail (requeue it f g s) = mem_avail s"
  by (simp_all add: requeue_def do_item_link_q_def do_item_unlink_q_def Let_def upd_item_def)

text \<open>A function on headers that does not look at the links.\<close>

definition link_free :: "(item \<Rightarrow> item) \<Rightarrow> bool" where
  "link_free g \<longleftrightarrow> (\<forall>i j. same_but_links i j \<longrightarrow> same_but_links (g i) (g j))"

lemma requeue_same:
  assumes "link_free g"
  shows "same_but_links (heap (requeue it f g s) b) (if b = it then g (f (heap s it)) else heap s b)"
proof -
  let ?w = "do_item_unlink_q it (upd_item it f s)"
  have w: "same_but_links (heap ?w b) (heap (upd_item it f s) b)" unfolding do_item_unlink_q_heap by (rule unlink_cell_same)
  then have "same_but_links (heap (upd_item it g ?w) b) (if b = it then g (f (heap s it)) else heap s b)"
    using assms by (cases "b = it") (auto simp: link_free_def)
  then show ?thesis unfolding requeue_def do_item_link_q_heap by (rule same_but_links_trans [OF link_head_same])
qed

lemma requeue_inv:
  assumes inv: "store_inv s L R" and it: "L q = ys @ it # zs"
    and f: "same_place (f (heap s it)) (heap s it)"
    and g: "link_free g" "ITEM_clsid (g (f (heap s it))) = ITEM_clsid (heap s it)" "ITEM_ntotal (g (f (heap s it))) = ITEM_ntotal (heap s it)"
      "item_ok (g (f (heap s it))) True (R it)"
    and r: "r = it_clsid (g (f (heap s it)))"
  shows "store_inv (requeue it f g s) (move_front L q r it) R" (is "store_inv ?t ?M R")
proof -
  note D = store_invD [OF inv]
  let ?v = "upd_item it f s" and ?L = "L(q := ys @ zs)"
  let ?w = "do_item_unlink_q it ?v"
  let ?x = "upd_item it g ?w" and ?j = "g (f (heap s it))"
  have lit: "is_linked L it" using it unfolding is_linked_def by (metis in_set_conv_decomp)
  then have use: "in_use L R it" by (simp add: in_use_def)
  have ne: "it \<noteq> 0" using D(10) [OF use] .
  have lv: "lru_ok ?v L" by (rule lru_ok_heap [OF D(3)]) (use f in \<open>auto simp: same_place_def upd_item_def\<close>)
  have dl: "dll (heap ?v) 0 (ys @ it # zs) 0" "distinct (ys @ it # zs)"
    using lists_okD(1,2) [OF lru_okD(1) [OF lv], of q] by (simp_all only: it)
  have nin: "it \<notin> set (?L p)" for p using dl(2) lists_okD(3) [OF lru_okD(1) [OF D(3)], of q p it] it by auto
  have "\<not> is_linked ?L it" using nin by (auto simp: is_linked_def)
  then have lx: "lru_ok ?x ?L"
    by (intro lru_ok_heap [OF lru_unlink [OF lv it]]) (auto simp: same_place_def upd_item_def)
  have wj: "same_but_links (heap ?w it) (f (heap s it))" using unlink_cell_same [of "heap ?v" it it] by (simp add: do_item_unlink_q_heap)
  have xj: "same_but_links (heap ?x it) ?j" using g(1) wj by (auto simp: link_free_def)
  have xr: "it_clsid (heap ?x it) = r" using same_but_links_simps(6) [OF xj] r by simp
  have M: "?M = ?L(r := it # ?L r)" using move_front_split [of L q ys it zs r] it dl(2) by simp
  have lru: "lru_ok ?t ?M" unfolding M requeue_def by (rule lru_link [OF lx ne nin xr [symmetric]])
  have th: "heap ?t = link_head (heap ?x) it (first (?L r))"
    unfolding requeue_def do_item_link_q_heap xr lru_okD(2) [OF lx] ..
  have q: "it_clsid (f (heap s it)) = q" using f lru_okD(6) [OF D(3), of it q] it by (simp add: same_place_def)
  have nt: "ITEM_ntotal (heap ?w it) = ITEM_ntotal (heap s it)" "ITEM_ntotal (heap ?t it) = ITEM_ntotal (heap s it)"
    using ntotal_links [OF wj] f ntotal_links [OF xj] g(3) ntotal_links [OF link_head_same] by (simp_all add: same_place_def th)
  show ?thesis
  proof (rule store_assemble [OF inv _ _ _ _ use])
    show "same_core s ?t" by simp
    show sm: "same_but_links (heap ?t b) (heap s b)" if "b \<noteq> it" for b
      using same_but_links_trans [OF link_head_same, of "heap ?x" b "heap s b" it "first (?L r)"] unlink_cell_same [of "heap ?v" it b] that
      by (simp add: th do_item_unlink_q_heap)
    show fr: "heap ?t b = heap s b" if "b \<noteq> it" "\<not> is_linked L b" "b \<noteq> 0" for b
    proof -
      have "b \<notin> set (L p)" for p using that(2) by (auto simp: is_linked_def)
      note nb = this this [of q, unfolded it]
      have "first (?L r) \<noteq> b" using first_in_set [of "?L r"] that(3) nb by (auto split: if_splits)
      then show ?thesis using that(1) unlink_cell_frame [OF dl, of b] nb(2) by (simp add: th link_head_other do_item_unlink_q_heap)
    qed
    show "heap ?t 0 = heap s 0" using ne unlink_cell_frame [OF dl, of 0] dll_not_null [OF dl(1)] by (simp add: th link_head_null do_item_unlink_q_heap)
    have tj: "same_but_links (heap ?t it) ?j" unfolding th by (rule same_but_links_trans [OF link_head_same [of "heap ?x" it "first (?L r)" it] xj])
    show "ITEM_clsid (heap ?t it) = ITEM_clsid (heap s it)" using same_but_links_simps(6) [OF tj] g(2) by (simp add: ITEM_clsid_def)
    show "item_ok (heap ?t it) (is_linked ?M it) (R it)"
      using g(4) item_ok_links [OF tj] lit move_front_linked [of it L q r it] it by simp
    show "lru_ok ?t ?M" by (rule lru)
    show "in_use ?M R b = in_use L R b" "is_linked ?M b = is_linked L b" for b
      using move_front_linked [of it L q r b] it by (simp_all add: in_use_def)
    show "assoc_wf (tab ?t)" using D(2) by simp
    show "index_find (tab ?t) k = Some b \<longleftrightarrow> is_linked ?M b \<and> item_key ?t b = k" for k b
      using D(6) [of k b] move_front_linked [of it L q r b] it by simp
    show "curr_items ?t = (\<Sum>p\<in>UNIV. of_nat (length (?M p)))"
      unfolding M sum_length_upd using D(7) it by simp
    show "curr_bytes ?t = (\<Sum>p\<in>UNIV. sizes_bytes ?t p)"
    proof -
      have "sizes_bytes ?t = (let b = (sizes_bytes s)(q := sizes_bytes s q - ITEM_ntotal (heap s it)) in b(r := b r + ITEM_ntotal (heap s it)))"
        using nt unfolding requeue_def do_item_link_q_bytes xr by (simp add: do_item_unlink_q_bytes q upd_item_def)
      then show ?thesis unfolding requeue_fields D(8) by (simp only: Let_def sum_fun_upd) simp
    qed
  qed simp
qed

section \<open>Bumping\<close>

text \<open>Operations that touch neither the index nor the clock nor the configuration.\<close>

definition same_index_state :: "items_state \<Rightarrow> items_state \<Rightarrow> bool" where
  "same_index_state s t \<longleftrightarrow> same_core s t \<and> tab t = tab s \<and> settings t = settings s \<and> current_time t = current_time s"

lemma same_index_state_setting: "same_index_state s t \<Longrightarrow> same_setting s t"
  using same_pages_core [of s t] by (simp add: same_index_state_def same_setting_def item_key_def fun_eq_iff)

lemma same_index_state_refl [simp]: "same_index_state s s"
  by (simp add: same_index_state_def same_core_def)

lemma upd_item_fields [simp]:
  fixes s :: items_state
  shows "same_index_state s (upd_item a g s)" "bump_buf (upd_item a g s) = bump_buf s" "tab (upd_item a g s) = tab s"
    "current_time (upd_item a g s) = current_time s" "item_key (upd_item a g s) = item_key s"
  by (simp_all add: upd_item_def same_index_state_def same_core_def item_key_def fun_eq_iff)

lemma upd_item_id: "upd_item a (\<lambda>i. i) s = s"
  by (simp add: upd_item_def)

lemma store_touch:
  assumes "store_inv s L R" "in_use L R a" "same_place (g (heap s a)) (heap s a)" "item_ok (g (heap s a)) (is_linked L a) (R a)"
  shows "store_inv (upd_item a g s) L R"
  using store_write [of s L R a g "R a"] assms by (simp add: in_use_def)

lemma upd_stats_inv: "store_inv s L R \<Longrightarrow> store_inv (upd_stats q f s) L R"
  by (rule store_inv_other) (simp_all add: upd_stats_def same_core_def)

lemma clsid_or:
  assumes "y AND NOT (push_bit 6 3) = 0"
  shows "(ITEM_clsid i OR y) AND NOT (push_bit 6 3) = ITEM_clsid i"
proof -
  have "(ITEM_clsid i OR y) AND NOT (push_bit 6 3) = (ITEM_clsid i AND NOT (push_bit 6 3)) OR (y AND NOT (push_bit 6 3))"
    by (rule bit.conj_disj_distrib2)
  also have "\<dots> = ITEM_clsid i AND NOT (push_bit 6 3)" using assms by simp
  also have "\<dots> = ITEM_clsid i" unfolding ITEM_clsid_def and.assoc by (simp only: and.idem)
  finally show ?thesis .
qed

text \<open>The queues after \<^verbatim>\<open>do_item_update\<close>.\<close>

definition updated_queues :: "items_state \<Rightarrow> (u8 \<Rightarrow> nat list) \<Rightarrow> nat \<Rightarrow> (u8 \<Rightarrow> nat list)" where
  "updated_queues s L it =
     (let i = heap s it in
      if \<not> is_linked L it then L
      else if st_lru_segmented (settings s) then
        if ITEM_lruid i = COLD_LRU \<and> it_flags i AND ITEM_ACTIVE \<noteq> 0 then move_front L (it_clsid i) (ITEM_clsid i OR WARM_LRU) it else L
      else if it_time i < current_time s - ITEM_UPDATE_INTERVAL then move_front L (it_clsid i) (it_clsid i) it else L)"

lemma updated_queues_linked: "store_inv s L R \<Longrightarrow> is_linked (updated_queues s L it) a = is_linked L a"
proof -
  assume inv: "store_inv s L R"
  have "it \<in> set (L (it_clsid (heap s it)))" if "is_linked L it"
    using that lru_okD(6) [OF store_invD(3) [OF inv]] by (auto simp: is_linked_def)
  then show ?thesis by (simp add: updated_queues_def Let_def move_front_linked)
qed

lemma link_free_warm:
  "link_free (\<lambda>i. i\<lparr>it_clsid := ITEM_clsid i OR x, it_flags := it_flags i AND y\<rparr>)"
  unfolding link_free_def
proof (intro allI impI)
  fix i j assume "same_but_links i j"
  then show "same_but_links (i\<lparr>it_clsid := ITEM_clsid i OR x, it_flags := it_flags i AND y\<rparr>)
      (j\<lparr>it_clsid := ITEM_clsid j OR x, it_flags := it_flags j AND y\<rparr>)"
    by (cases i; cases j; simp add: same_but_links_def ITEM_clsid_def)
qed

lemma link_free_id: "link_free (\<lambda>i. i)"
  by (simp add: link_free_def)

lemma do_item_update_inv:
  assumes inv: "store_inv s L R" and use: "in_use L R it"
  shows "store_inv (do_item_update it s) (updated_queues s L it) R" "same_index_state s (do_item_update it s)"
    "bump_buf (do_item_update it s) = bump_buf s"
proof -
  note D = store_invD [OF inv]
  note okD = D(5) [OF use]
  note ok = item_okD [OF okD]
  let ?i = "heap s it" and ?f = "\<lambda>i. i\<lparr>it_time := current_time s\<rparr>"
  let ?g = "\<lambda>i. i\<lparr>it_clsid := ITEM_clsid i OR WARM_LRU, it_flags := it_flags i AND NOT ITEM_ACTIVE\<rparr>"
  have f: "same_place (?f ?i) ?i" by (simp add: same_place_def ITEM_ntotal_def)
  have touch: "store_inv (upd_item it ?f s) L R"
    by (rule store_touch [OF inv use]) (use f okD in \<open>simp_all add: item_ok_def\<close>)
  have split: "\<exists>ys zs. L (it_clsid ?i) = ys @ it # zs" if "is_linked L it"
    using that lru_okD(6) [OF D(3)] by (auto simp: is_linked_def dest: split_list)
  have warm: "store_inv (requeue it ?f ?g s) (move_front L (it_clsid ?i) (ITEM_clsid ?i OR WARM_LRU) it) R" if l: "is_linked L it"
  proof -
    obtain ys zs where L: "L (it_clsid ?i) = ys @ it # zs" using split [OF l] by blast
    show ?thesis
    proof (rule requeue_inv [OF inv L _ link_free_warm])
      show "ITEM_clsid (?g (?f ?i)) = ITEM_clsid ?i" using clsid_or [of WARM_LRU ?i] by (simp add: ITEM_clsid_def)
      show "item_ok (?g (?f ?i)) True (R it)" using okD l by (simp add: item_ok_def flag_simps)
    qed (use f in \<open>simp_all add: ITEM_clsid_def ITEM_ntotal_def size_flag_simps\<close>)
  qed
  have front: "store_inv (requeue it ?f (\<lambda>i. i) s) (move_front L (it_clsid ?i) (it_clsid ?i) it) R" if l: "is_linked L it"
  proof -
    obtain ys zs where L: "L (it_clsid ?i) = ys @ it # zs" using split [OF l] by blast
    show ?thesis by (rule requeue_inv [OF inv L _ link_free_id]) (use f okD l in \<open>simp_all add: ITEM_clsid_def ITEM_ntotal_def item_ok_def\<close>)
  qed
  have eq: "do_item_update it s =
      (if st_lru_segmented (settings s) then
         if is_linked L it then
           if ITEM_lruid ?i = COLD_LRU \<and> it_flags ?i AND ITEM_ACTIVE \<noteq> 0
           then upd_stats (it_clsid (heap (requeue it ?f ?g s) it)) (\<lambda>t. t\<lparr>n_moves_to_warm := n_moves_to_warm t + 1\<rparr>) (requeue it ?f ?g s)
           else upd_item it ?f s
         else s
       else if it_time ?i < current_time s - ITEM_UPDATE_INTERVAL then
         if is_linked L it then requeue it ?f (\<lambda>i. i) s else s
       else s)"
    unfolding do_item_update_def item_link_q_warm_def requeue_def Let_def flag_bits(1) ok(3) upd_item_id ..
  show "store_inv (do_item_update it s) (updated_queues s L it) R"
    unfolding eq updated_queues_def Let_def using warm [THEN upd_stats_inv] front touch inv by auto
  show "same_index_state s (do_item_update it s)" "bump_buf (do_item_update it s) = bump_buf s"
    unfolding eq by (simp_all add: upd_stats_def same_index_state_def same_core_def)
qed

text \<open>The references to an item: those of the clients and those of the entries of the bump buffer.\<close>

definition refs :: "items_state \<Rightarrow> (nat \<Rightarrow> nat) \<Rightarrow> nat \<Rightarrow> nat" where
  "refs s R a = R a + count_list (map fst (bump_buf s)) a"

lemma refs_cong: "bump_buf t = bump_buf s \<Longrightarrow> refs t R = refs s R"
  by (simp add: refs_def fun_eq_iff)

lemma refs_upd: "refs s (R(a := R a + n)) = (refs s R)(a := refs s R a + n)"
  by (simp add: refs_def fun_eq_iff)

lemma lru_bump_async_inv:
  assumes inv: "store_inv s L (refs s R)" and use: "in_use L (refs s R) it" and few: "refs s R it + 2 < 2 ^ 16"
    and e: "lru_bump_async room it hv s = (ok, t)"
  shows "ok = room" "store_inv t L (refs t R)" "same_index_state s t"
    "refs s R it \<le> refs t R it"
proof -
  have up: "store_inv (refcount_incr it s) L ((refs s R)(it := refs s R it + 1))"
    by (rule refcount_incr_inv [OF inv use]) (use few in simp)
  have "ok = room \<and> store_inv t L (refs t R) \<and> same_index_state s t \<and> refs s R it \<le> refs t R it"
  proof (cases room)
    case True
    with e have t: "ok" "t = (refcount_incr it s)\<lparr>bump_buf := bump_buf s @ [(it, hv)]\<rparr>"
      by (auto simp: lru_bump_async_def Let_def refcount_incr_def)
    have "refs t R = (refs s R)(it := refs s R it + 1)" by (auto simp: t(2) refs_def fun_eq_iff)
    moreover have "store_inv t L ((refs s R)(it := refs s R it + 1))"
      by (rule store_inv_other [OF up]) (simp_all add: t(2) same_core_def)
    ultimately show ?thesis using True t by (simp add: same_index_state_def same_core_def refcount_incr_def upd_item_def)
  next
    case False
    with e have t: "\<not> ok" "t = s\<lparr>bumps_dropped := bumps_dropped s + 1\<rparr>"
      by (auto simp: lru_bump_async_def Let_def refcount_incr_def refcount_decr_def upd_item_def)
    have "store_inv t L (refs s R)" by (rule store_inv_other [OF inv]) (simp_all add: t(2) same_core_def)
    moreover have "refs t R = refs s R" by (rule refs_cong) (simp add: t(2))
    ultimately show ?thesis using False t by (simp add: same_index_state_def same_core_def)
  qed
  then show "ok = room" "store_inv t L (refs t R)" "same_index_state s t" "refs s R it \<le> refs t R it" by blast+
qed

lemma same_index_state_trans: "same_index_state s t \<Longrightarrow> same_index_state t u \<Longrightarrow> same_index_state s u"
  by (simp add: same_index_state_def same_core_def)

text \<open>Setting or clearing a hit marker.\<close>

lemma mark_inv:
  assumes inv: "store_inv s L R" and use: "in_use L R it"
  shows "store_inv (upd_item it (\<lambda>i. i\<lparr>it_flags := it_flags i OR ITEM_FETCHED\<rparr>) s) L R"
    "store_inv (upd_item it (\<lambda>i. i\<lparr>it_flags := it_flags i OR ITEM_ACTIVE\<rparr>) s) L R"
    "store_inv (upd_item it (\<lambda>i. i\<lparr>it_flags := it_flags i AND NOT ITEM_ACTIVE\<rparr>) s) L R"
    "store_inv (upd_item it (\<lambda>i. i\<lparr>it_time := x\<rparr>) s) L R" "store_inv (upd_item it (\<lambda>i. i\<lparr>it_exptime := x\<rparr>) s) L R"
  using store_invD(5) [OF inv use]
  by (auto intro!: store_touch [OF inv use] simp: same_place_def ITEM_ntotal_def size_flag_simps item_ok_def flag_simps)

text \<open>What a bump may change: the order of the queues, hit markers, the time of access, the bump buffer.\<close>

definition bump_ok :: "items_state \<Rightarrow> (u8 \<Rightarrow> nat list) \<Rightarrow> (nat \<Rightarrow> nat) \<Rightarrow> items_state \<Rightarrow> bool" where
  "bump_ok s L R t \<longleftrightarrow>
     (\<exists>L'. store_inv t L' (refs t R) \<and> (\<forall>a. is_linked L' a = is_linked L a)) \<and> same_index_state s t"

lemma bump_okI:
  assumes "store_inv t L' (refs s R)" "bump_buf t = bump_buf s" "\<And>a. is_linked L' a = is_linked L a" "same_index_state s t"
  shows "bump_ok s L R t"
  unfolding bump_ok_def using assms refs_cong [OF assms(2), of R] by auto

lemma bump_cold_inv:
  assumes inv: "store_inv s L (refs s R)" and use: "in_use L (refs s R) it" and few: "refs s R it + 2 < 2 ^ 16"
    and e: "lru_bump_async room it hv s = (ok, u)"
  shows "bump_ok s L R (if \<not> ok then upd_item it (\<lambda>i. i\<lparr>it_flags := it_flags i AND NOT ITEM_ACTIVE\<rparr>) u else u)" (is "bump_ok s L R ?t")
proof -
  note b = lru_bump_async_inv [OF inv use few e]
  have uu: "in_use L (refs u R) it" using use b(4) by (auto simp: in_use_def)
  have "store_inv ?t L (refs u R)" using mark_inv(3) [OF b(2) uu] b(2) by simp
  moreover have "refs ?t R = refs u R" by (rule refs_cong) simp
  ultimately have "store_inv ?t L (refs ?t R)" by simp
  moreover have "same_index_state s ?t" using b(3) by (simp add: same_index_state_def same_core_def)
  ultimately show ?thesis unfolding bump_ok_def by blast
qed

lemma do_item_bump_inv:
  assumes inv: "store_inv s L (refs s R)" and use: "in_use L (refs s R) it" and few: "refs s R it + 2 < 2 ^ 16"
  shows "bump_ok s L R (do_item_bump room it hv s)"
proof -
  let ?fetch = "upd_item it (\<lambda>i. i\<lparr>it_flags := it_flags i OR ITEM_FETCHED\<rparr>) s"
  let ?act = "upd_item it (\<lambda>i. i\<lparr>it_flags := it_flags i OR ITEM_ACTIVE\<rparr>) s"
  have f: "store_inv ?fetch L (refs s R)" and a: "store_inv ?act L (refs s R)" by (rule mark_inv [OF inv use])+
  have same: "bump_ok s L R s" by (rule bump_okI [OF inv]) simp_all
  have fetched: "bump_ok s L R ?fetch" by (rule bump_okI [OF f]) simp_all
  have timed: "bump_ok s L R (upd_item it (\<lambda>i. i\<lparr>it_time := current_time s\<rparr>) ?act)"
    by (rule bump_okI [OF mark_inv(4) [OF a use]]) (simp_all add: same_index_state_def same_core_def)
  have cold: "bump_ok s L R (if \<not> ok then upd_item it (\<lambda>i. i\<lparr>it_flags := it_flags i AND NOT ITEM_ACTIVE\<rparr>) u else u)"
    if "lru_bump_async room it hv ?act = (ok, u)" for ok u
  proof -
    have r: "refs ?act R = refs s R" by (rule refs_cong) simp
    have "bump_ok ?act L R (if \<not> ok then upd_item it (\<lambda>i. i\<lparr>it_flags := it_flags i AND NOT ITEM_ACTIVE\<rparr>) u else u)"
      by (rule bump_cold_inv [OF _ _ _ that]) (use a use few in \<open>simp_all only: r\<close>)
    then show ?thesis by (simp add: bump_ok_def same_index_state_def same_core_def)
  qed
  have compat: "bump_ok s L R (do_item_update it ?fetch)"
  proof (rule bump_okI)
    note u = do_item_update_inv [OF f use]
    show "store_inv (do_item_update it ?fetch) (updated_queues ?fetch L it) (refs s R)" by (rule u(1))
    show "is_linked (updated_queues ?fetch L it) a = is_linked L a" for a by (rule updated_queues_linked [OF f])
    show "bump_buf (do_item_update it ?fetch) = bump_buf s" using u(3) by simp
    show "same_index_state s (do_item_update it ?fetch)" by (rule same_index_state_trans [OF _ u(2)]) simp
  qed
  obtain ok u where e: "lru_bump_async room it hv ?act = (ok, u)" by fastforce
  show ?thesis unfolding do_item_bump_def Let_def e prod.case upd_item_fields(4)
    using same fetched timed cold [OF e] compat by (simp only: split: if_split) blast
qed

section \<open>Lookup\<close>

text \<open>An item that a lookup does not return: flushed, or past its expiry time.\<close>

definition item_dead :: "items_state \<Rightarrow> nat \<Rightarrow> bool" where
  "item_dead s a \<longleftrightarrow>
     item_is_flushed s (heap s a) \<or> it_exptime (heap s a) \<noteq> 0 \<and> it_exptime (heap s a) \<le> current_time s"

text \<open>The store is consistent when clients hold the references \<open>R\<close>.\<close>

definition store_ok :: "items_state \<Rightarrow> (nat \<Rightarrow> nat) \<Rightarrow> bool" where
  "store_ok s R \<longleftrightarrow> (\<exists>L. store_inv s L (refs s R))"

lemma store_okI: "store_inv t L (refs s R) \<Longrightarrow> bump_buf t = bump_buf s \<Longrightarrow> store_ok t R"
  unfolding store_ok_def using refs_cong [of t s R] by auto

lemma bump_store_ok: "bump_ok s L R t \<Longrightarrow> store_ok t R"
  unfolding bump_ok_def store_ok_def by blast

lemma assoc_find_index:
  assumes "assoc_wf s"
  shows "assoc_find s k (hash_fn s k) = Some (index_find s k)"
proof -
  obtain C where "table_inv s C" using assms by (auto simp: assoc_wf_def)
  then show ?thesis by (simp add: index_find_def assoc_find_table)
qed

text \<open>Unlinking a linked item to which the caller holds a reference, and dropping the reference.\<close>

lemma unlink_remove_inv:
  assumes inv: "store_inv s L R" and l: "is_linked L it" and hv: "hv = item_hv s it" and held: "0 < R it"
  shows "\<exists>t u L'. do_item_unlink it hv s = Some t \<and> do_item_remove it t = Some u \<and> store_inv u L' (R(it := R it - 1)) \<and>
    (\<forall>b. is_linked L' b \<longleftrightarrow> is_linked L b \<and> b \<noteq> it) \<and>
    index_find (tab u) = (index_find (tab s))(item_key s it := None) \<and> same_setting s u \<and> bump_buf u = bump_buf s \<and>
    (\<forall>b. is_linked L' b \<longrightarrow> same_life (heap u b) (heap s b)) \<and> (\<forall>r b. b \<noteq> it \<longrightarrow> b \<in> set (L r) \<longrightarrow> b \<in> set (L' r))"
proof -
  obtain q ys zs where q: "L q = ys @ it # zs" using l by (auto simp: is_linked_def dest: split_list)
  from do_item_unlink_inv [OF inv q hv] obtain t where t: "do_item_unlink it hv s = Some t" "store_inv t (L(q := ys @ zs)) R"
    "index_find (tab t) = (index_find (tab s))(item_key s it := None)" "same_setting s t" "bump_buf t = bump_buf s"
    "\<forall>b. is_linked (L(q := ys @ zs)) b \<longrightarrow> same_life (heap t b) (heap s b)" by blast
  from do_item_remove_inv [OF t(2) held] obtain u where u: "do_item_remove it t = Some u" "store_inv u (L(q := ys @ zs)) (R(it := R it - 1))"
    "tab u = tab t" "slabs_state.more u = slabs_state.more t" "settings u = settings t"
    "\<forall>b. is_linked (L(q := ys @ zs)) b \<longrightarrow> same_life (heap u b) (heap t b)" "same_pages t u" by blast
  have s: "same_setting s u" using same_setting_trans [OF t(4) same_setting_more [OF u(4,5,7)]] .
  have "is_linked (L(q := ys @ zs)) b \<longleftrightarrow> is_linked L b \<and> b \<noteq> it" for b by (rule is_linked_removed [OF store_invD(3) [OF inv] q])
  moreover have "\<forall>b. is_linked (L(q := ys @ zs)) b \<longrightarrow> same_life (heap u b) (heap s b)" using t(6) u(6) by (metis same_life_trans)
  moreover have "\<forall>r b. b \<noteq> it \<longrightarrow> b \<in> set (L r) \<longrightarrow> b \<in> set ((L(q := ys @ zs)) r)" using q by auto
  ultimately show ?thesis using t(1,3,5) u(1,2,3) s more_fields(10) [OF u(4)] by (intro exI [of _ t] exI [of _ u] exI [of _ "L(q := ys @ zs)"]) simp
qed

lemma do_item_get_inv:
  assumes inv: "store_inv s L (refs s R)" and hv: "hv = hash_fn (tab s) key" and few: "\<And>a. refs s R a + 3 < 2 ^ 16"
    and found: "index_find (tab s) key = Some a"
  shows "\<exists>t. do_item_get room key hv upd s = Some (if item_dead s a then 0 else a, t) \<and> same_setting s t \<and>
    index_find (tab t) = (if item_dead s a then (index_find (tab s))(key := None) else index_find (tab s)) \<and>
    store_ok t (if item_dead s a then R else R(a := R a + 1))"
proof -
  note D = store_invD [OF inv]
  let ?s = "refcount_incr a s" and ?R = "R(a := R a + 1)"
  have key: "is_linked L a" "item_key s a = key" using D(6) found by auto
  then have use: "in_use L (refs s R) a" by (simp add: in_use_def)
  have c1: "same_core s ?s" by (simp add: refcount_incr_def upd_item_def same_core_def)
  have b1: "bump_buf ?s = bump_buf s" "tab ?s = tab s" "settings ?s = settings s" "current_time ?s = current_time s" "item_key ?s = item_key s"
    by (simp_all add: refcount_incr_def)
  note b0 = same_pages_core [OF c1]
  have R1: "refs ?s ?R = (refs s R)(a := refs s R a + 1)" using refs_upd [of ?s R a 1] refs_cong [OF b1(1)] by simp
  have i1: "store_inv ?s L (refs ?s ?R)" unfolding R1 by (rule refcount_incr_inv [OF inv use]) (use few [of a] in simp)
  have hd: "item_is_flushed ?s (heap ?s a) = item_is_flushed s (heap s a)" "it_exptime (heap ?s a) = it_exptime (heap s a)"
    by (simp_all add: refcount_incr_def item_is_flushed_def ITEM_get_cas_def Let_def)
  have g: "do_item_get room key hv upd s =
      (if item_is_flushed s (heap s a) then Option.bind (do_item_unlink a hv ?s) (\<lambda>s2. Option.bind (do_item_remove a s2)
              (\<lambda>s3. Some (0, s3\<lparr>get_flushed := get_flushed s3 + 1\<rparr>)))
       else if it_exptime (heap s a) \<noteq> 0 \<and> it_exptime (heap s a) \<le> current_time s then
            Option.bind (do_item_unlink a hv ?s) (\<lambda>s2. Option.bind (do_item_remove a s2)
              (\<lambda>s3. Some (0, s3\<lparr>get_expired := get_expired s3 + 1\<rparr>)))
       else Some (a, if upd then do_item_bump room a hv ?s else ?s))"
    unfolding do_item_get_def hv assoc_find_index [OF D(2)] found option.case Let_def hd b1 ..
  show ?thesis
  proof (cases "item_dead s a")
    case True
    have "hv = item_hv ?s a" using key hv by (simp add: item_hv_def b1)
    moreover have "0 < refs ?s ?R a" by (simp only: R1 fun_upd_same)
    ultimately obtain t u L' where t: "do_item_unlink a hv ?s = Some t" "do_item_remove a t = Some u"
      "store_inv u L' ((refs ?s ?R)(a := refs ?s ?R a - 1))" "index_find (tab u) = (index_find (tab s))(key := None)" "same_setting ?s u"
      "bump_buf u = bump_buf s" using unlink_remove_inv [OF i1 key(1)] unfolding b1 key(2) by metis
    have u: "store_inv u L' (refs s R)" using t(3) unfolding R1 by simp
    have fin: ?thesis if "do_item_get room key hv upd s = Some (0, v)" and f: "heap v = heap u" "same_core u v" "heads v = heads u"
      "tails v = tails u" "lru_sizes v = lru_sizes u" "sizes_bytes v = sizes_bytes u" "tab v = tab u" "curr_items v = curr_items u"
      "curr_bytes v = curr_bytes u" "settings v = settings u" "current_time v = current_time u" "bump_buf v = bump_buf u" for v
    proof -
      have v: "store_inv v L' (refs s R)" by (rule store_inv_other [OF u f(1-9)])
      have "store_ok v R" by (rule store_okI [OF v]) (simp add: f(12) t(6))
      moreover have "same_pages s v"
        using t(5) same_pages_trans [OF same_pages_trans [OF b0] same_pages_core [OF f(2)]] by (simp add: same_setting_def)
      then have "same_setting s v" using t(5)
        by (simp add: same_setting_def item_key_def fun_eq_iff f b1)
      ultimately show ?thesis using that(1) True t(4) by (simp add: f(7))
    qed
    show ?thesis
    proof (cases "item_is_flushed s (heap s a)")
      case fl: True
      show ?thesis by (rule fin [of "u\<lparr>get_flushed := get_flushed u + 1\<rparr>"]) (simp_all add: g fl t(1,2) same_core_def)
    next
      case fl: False
      then have "it_exptime (heap s a) \<noteq> 0 \<and> it_exptime (heap s a) \<le> current_time s" using True by (simp add: item_dead_def)
      then show ?thesis by (intro fin [of "u\<lparr>get_expired := get_expired u + 1\<rparr>"]) (simp_all add: g fl t(1,2) same_core_def)
    qed
  next
    case False
    let ?t = "if upd then do_item_bump room a hv ?s else ?s"
    have use1: "in_use L (refs ?s ?R) a" using key(1) by (simp add: in_use_def)
    have "bump_ok ?s L ?R (do_item_bump room a hv ?s)"
      by (rule do_item_bump_inv [OF i1 use1]) (use few [of a] in \<open>simp add: R1 del: One_nat_def\<close>)
    moreover have "bump_ok ?s L ?R ?s" by (rule bump_okI [OF i1]) simp_all
    ultimately have ok: "bump_ok ?s L ?R ?t" by simp
    then have "same_index_state s ?t" using c1 by (simp add: bump_ok_def same_index_state_def same_core_def b1)
    note st = this
    have "do_item_get room key hv upd s = Some (a, ?t)"
    proof -
      have "\<not> item_is_flushed s (heap s a)" "\<not> (it_exptime (heap s a) \<noteq> 0 \<and> it_exptime (heap s a) \<le> current_time s)"
        using False unfolding item_dead_def by blast+
      then show ?thesis unfolding g by (simp only: if_False)
    qed
    moreover have "tab ?t = tab s" using st by (simp only: same_index_state_def)
    ultimately show ?thesis using False bump_store_ok [OF ok] same_index_state_setting [OF st] by (simp only: if_False) metis
  qed
qed

end
