(* ===== verification/Lru_Pull.thy ===== *)
theory Lru_Pull
  imports Item_Access
begin

text \<open>
  Reclaiming and evicting items (\<^verbatim>\<open>lru_pull_tail\<close>, \<^verbatim>\<open>do_item_alloc_pull\<close> and \<^verbatim>\<open>do_item_alloc\<close> of
  \<^verbatim>\<open>src/memcached-sr/items.c\<close>): the tail of a queue is searched for items to free or to move to another
  queue, and an allocation evicts from the tail of the cold queue until there is memory.
\<close>

section \<open>lru\_pull\_tail\<close>

text \<open>
  The arguments of a call.  \<open>p_trylock n hv\<close> tells whether \<^verbatim>\<open>item_trylock\<close> succeeds when \<open>n\<close> tries are
  left, \<open>p_reassign_lock\<close> whether the lock of a requested page move is free.
\<close>

record pull_args =
  p_orig_id :: u8
  p_cur_lru :: u8
  p_total_bytes :: u64
  p_flags :: u8
  p_max_age :: u32
  p_trylock :: "nat \<Rightarrow> u32 \<Rightarrow> bool"
  p_reassign_lock :: bool

definition p_id :: "pull_args \<Rightarrow> u8" where
  "p_id p = p_orig_id p OR p_cur_lru p"

text \<open>
  How the examination of one item ends: the search goes on, or it stops with this item, the queue it is to move to
  (0 for none) and the item to hand to the caller.
\<close>

datatype pull_step = Pull_on nat items_state | Pull_stop nat u8 nat "(nat \<times> u32) option" items_state

definition lru_limit :: "pull_args \<Rightarrow> items_state \<Rightarrow> u64" where
  "lru_limit p s =
     (let warm = p_total_bytes p * of_nat (st_warm_lru_pct (settings s)) div 100;
          hot = p_total_bytes p * of_nat (st_hot_lru_pct (settings s)) div 100
      in if p_cur_lru p = HOT_LRU \<and> hot \<noteq> 0 then hot else warm)"

text \<open>\<^verbatim>\<open>case HOT_LRU\<close> and \<^verbatim>\<open>case WARM_LRU\<close> of the switch.\<close>

definition pull_hot_warm :: "pull_args \<Rightarrow> nat \<Rightarrow> nat \<Rightarrow> items_state \<Rightarrow> pull_step option" where
  "pull_hot_warm p search removed s =
     (if it_flags (heap s search) AND ITEM_ACTIVE \<noteq> 0 then
        let s1 = upd_item search (\<lambda>i. i\<lparr>it_flags := it_flags i AND NOT ITEM_ACTIVE\<rparr>) s in
        if p_cur_lru p = WARM_LRU then
          let s2 = upd_stats (p_id p) (\<lambda>t. t\<lparr>n_moves_within_lru := n_moves_within_lru t + 1\<rparr>) s1
          in map_option (Pull_on (removed + 1)) (do_item_remove search (do_item_link_q search (do_item_unlink_q search s2)))
        else
          let s2 = upd_stats (p_id p) (\<lambda>t. t\<lparr>n_moves_to_warm := n_moves_to_warm t + 1\<rparr>) s1
          in Some (Pull_stop search WARM_LRU (removed + 1) None (do_item_unlink_q search s2))
      else if sizes_bytes s (p_id p) > lru_limit p s \<or> current_time s - it_time (heap s search) > p_max_age p then
        let s1 = upd_stats (p_id p) (\<lambda>t. t\<lparr>n_moves_to_cold := n_moves_to_cold t + 1\<rparr>) s
        in Some (Pull_stop search COLD_LRU (removed + 1) None (do_item_unlink_q search s1))
      else Some (Pull_stop search 0 removed None s))"

definition count_eviction :: "item \<Rightarrow> u32 \<Rightarrow> itemstats_t \<Rightarrow> itemstats_t" where
  "count_eviction i now t =
     (let t1 = t\<lparr>n_evicted := n_evicted t + 1, n_evicted_time := now - it_time i\<rparr>;
          t2 = (if it_exptime i \<noteq> 0 then t1\<lparr>n_evicted_nonzero := n_evicted_nonzero t1 + 1\<rparr> else t1);
          t3 = (if it_flags i AND ITEM_FETCHED = 0 then t2\<lparr>n_evicted_unfetched := n_evicted_unfetched t2 + 1\<rparr> else t2)
      in if it_flags i AND ITEM_ACTIVE \<noteq> 0 then t3\<lparr>n_evicted_active := n_evicted_active t3 + 1\<rparr> else t3)"

text \<open>\<^verbatim>\<open>case COLD_LRU\<close>.\<close>

definition pull_cold :: "pull_args \<Rightarrow> nat \<Rightarrow> u32 \<Rightarrow> nat \<Rightarrow> items_state \<Rightarrow> pull_step option" where
  "pull_cold p search hv removed s =
     (if p_flags p AND LRU_PULL_EVICT \<noteq> 0 then
        if \<not> st_evict_to_free (settings s) then Some (Pull_stop search 0 removed None s)
        else
          Option.bind (do_item_unlink_nolock search hv (upd_stats (p_id p) (count_eviction (heap s search) (current_time s)) s))
            (\<lambda>s1. Some (Pull_stop search 0 (removed + 1) None
              (if st_slab_automove (settings s1) = 2
               then snd (slabs_reassign (p_reassign_lock p) (-1) (uint (p_orig_id p)) s1) else s1)))
      else if p_flags p AND LRU_PULL_RETURN_ITEM \<noteq> 0 then Some (Pull_stop search 0 removed (Some (search, hv)) s)
      else if it_flags (heap s search) AND ITEM_ACTIVE \<noteq> 0 \<and> st_lru_segmented (settings s) then
        let s1 = upd_stats (p_id p) (\<lambda>t. t\<lparr>n_moves_to_warm := n_moves_to_warm t + 1\<rparr>) s;
            s2 = upd_item search (\<lambda>i. i\<lparr>it_flags := it_flags i AND NOT ITEM_ACTIVE\<rparr>) s1
        in Some (Pull_stop search WARM_LRU (removed + 1) None (do_item_unlink_q search s2))
      else Some (Pull_stop search 0 removed None s))"

text \<open>The item \<open>search\<close>, whose lock is held: reference count, repair, expiry, and the switch.\<close>

definition pull_item :: "pull_args \<Rightarrow> nat \<Rightarrow> u32 \<Rightarrow> nat \<Rightarrow> items_state \<Rightarrow> pull_step option" where
  "pull_item p search hv removed s0 =
     (let s = refcount_incr search s0;
          reflocked = (it_refcount (heap s search) \<noteq> 2);
          s1 = (if reflocked then upd_stats (p_id p) (\<lambda>t. t\<lparr>n_lrutail_reflocked := n_lrutail_reflocked t + 1\<rparr>) s else s);
          repair = st_tail_repair_time (settings s1)
      in if reflocked \<and> repair \<noteq> 0 \<and> it_time (heap s1 search) + repair < current_time s1 then
           let s2 = upd_item search (\<lambda>i. i\<lparr>it_refcount := 1\<rparr>)
                      (upd_stats (p_id p) (\<lambda>t. t\<lparr>n_tailrepairs := n_tailrepairs t + 1\<rparr>) s1)
           in map_option (Pull_on removed) (do_item_unlink_nolock search hv s2)
         else if it_exptime (heap s1 search) \<noteq> 0 \<and> it_exptime (heap s1 search) < current_time s1 \<or>
                 item_is_flushed s1 (heap s1 search) then
           let s2 = upd_stats (p_id p) (\<lambda>t. t\<lparr>n_reclaimed := n_reclaimed t + 1\<rparr>) s1;
               s3 = (if it_flags (heap s2 search) AND ITEM_FETCHED = 0
                     then upd_stats (p_id p) (\<lambda>t. t\<lparr>n_expired_unfetched := n_expired_unfetched t + 1\<rparr>) s2 else s2)
           in map_option (Pull_on (removed + 1))
                (Option.bind (do_item_unlink_nolock search hv s3) (do_item_remove search))
         else if p_cur_lru p = HOT_LRU \<or> p_cur_lru p = WARM_LRU then pull_hot_warm p search removed s1
         else if p_cur_lru p = COLD_LRU then pull_cold p search hv removed s1
         else if p_cur_lru p = TEMP_LRU then Some (Pull_stop search 0 removed None s1)
         else Some (Pull_on removed s1))"

text \<open>An entry the crawler thread has put into the queue.\<close>

definition is_crawler :: "item \<Rightarrow> bool" where
  "is_crawler i \<longleftrightarrow> it_nbytes i = 0 \<and> it_nkey i = 0 \<and> it_flags i = 1"

text \<open>The search; \<open>Inl\<close> is the return that a crawler in the way causes.\<close>

partial_function (option) pull_loop ::
  "pull_args \<Rightarrow> nat \<Rightarrow> nat \<Rightarrow> nat \<Rightarrow> items_state \<Rightarrow> (items_state + pull_step) option" where
  "pull_loop p tries search removed s =
     (if tries = 0 \<or> search = 0 then Some (Inr (Pull_on removed s))
      else
        let next_it = it_prev (heap s search) in
        if is_crawler (heap s search) then
          if p_flags p AND LRU_PULL_CRAWL_BLOCKS \<noteq> 0 then Some (Inl s)
          else pull_loop p tries next_it removed s
        else
          let hv = item_hv s search in
          if \<not> p_trylock p tries hv then pull_loop p (tries - 1) next_it removed s
          else
            Option.bind (pull_item p search hv removed s)
              (\<lambda>r. case r of
                 Pull_on removed' s' \<Rightarrow> pull_loop p (tries - 1) next_it removed' s'
               | Pull_stop it m removed' ret s' \<Rightarrow> Some (Inr r)))"

text \<open>What follows the loop: the number of items removed or moved, the item handed to the caller, and the state.\<close>

fun pull_end :: "pull_args \<Rightarrow> items_state + pull_step \<Rightarrow> (nat \<times> (nat \<times> u32) option \<times> items_state) option" where
  "pull_end p (Inl s) = Some (0, None, s)"
| "pull_end p (Inr (Pull_on removed s)) = Some (removed, None, s)"
| "pull_end p (Inr (Pull_stop it move_to_lru removed ret s)) =
     (let s1 = (if move_to_lru \<noteq> 0
                then do_item_link_q it (upd_item it (\<lambda>i. i\<lparr>it_clsid := ITEM_clsid i OR move_to_lru\<rparr>) s) else s)
      in if p_flags p AND LRU_PULL_RETURN_ITEM = 0 then map_option (\<lambda>s2. (removed, ret, s2)) (do_item_remove it s1)
         else Some (removed, ret, s1))"

definition lru_pull_tail :: "pull_args \<Rightarrow> items_state \<Rightarrow> (nat \<times> (nat \<times> u32) option \<times> items_state) option" where
  "lru_pull_tail p s =
     (if p_orig_id p = 0 then Some (0, None, s)
      else Option.bind (pull_loop p 5 (tails s (p_id p)) 0 s) (pull_end p))"

section \<open>do\_item\_alloc\<close>

text \<open>
  What one round of the allocation loop meets: the locks of its up to three searches, and the outcomes of
  \<^verbatim>\<open>realloc\<close> and \<^verbatim>\<open>malloc\<close>.
\<close>

record alloc_env =
  e_trylock :: "nat \<Rightarrow> nat \<Rightarrow> u32 \<Rightarrow> bool"
  e_reassign_lock :: bool
  e_realloc_ok :: bool
  e_malloc_ret :: nat

definition alloc_pull_args :: "alloc_env \<Rightarrow> nat \<Rightarrow> nat \<Rightarrow> u8 \<Rightarrow> u8 \<Rightarrow> pull_args" where
  "alloc_pull_args e k cid cur_lru flags =
     \<lparr>p_orig_id = of_nat cid, p_cur_lru = cur_lru, p_total_bytes = 0, p_flags = flags, p_max_age = 0,
      p_trylock = e_trylock e k, p_reassign_lock = e_reassign_lock e\<rparr>"

text \<open>The loop of \<^verbatim>\<open>do_item_alloc_pull\<close> from round \<open>i\<close> on: the address or 0, and the round it ended in.\<close>

function alloc_pull_loop :: "(nat \<Rightarrow> alloc_env) \<Rightarrow> nat \<Rightarrow> nat \<Rightarrow> items_state \<Rightarrow> (nat \<times> nat \<times> items_state) option" where
  "alloc_pull_loop env cid i s =
     (if i \<ge> 10 then Some (0, i, s)
      else
        Option.bind (if \<not> st_lru_segmented (settings s)
                     then map_option (\<lambda>(n, ret, t). t) (lru_pull_tail (alloc_pull_args (env i) 0 cid COLD_LRU 0) s)
                     else Some s) (\<lambda>s1.
        Option.bind (do_slabs_alloc (e_realloc_ok (env i)) (e_malloc_ret (env i)) cid 0 s1) (\<lambda>(it, s2).
        if it \<noteq> 0 then Some (it, i, s2)
        else
          Option.bind (lru_pull_tail (alloc_pull_args (env i) 1 cid COLD_LRU LRU_PULL_EVICT) s2) (\<lambda>(n, ret, s3).
          if n \<noteq> 0 then alloc_pull_loop env cid (i + 1) s3
          else if st_lru_segmented (settings s3) then
            Option.bind (lru_pull_tail (alloc_pull_args (env i) 2 cid HOT_LRU 0) s3) (\<lambda>(n, ret, s4).
            alloc_pull_loop env cid (i + 1) s4)
          else Some (0, i, s3)))))"
  by pat_completeness auto
termination
  by (relation "measure (\<lambda>(env, cid, i, s). 10 - i)") auto

declare alloc_pull_loop.simps [simp del]

definition do_item_alloc_pull :: "(nat \<Rightarrow> alloc_env) \<Rightarrow> nat \<Rightarrow> items_state \<Rightarrow> (nat \<times> items_state) option" where
  "do_item_alloc_pull env cid s =
     map_option (\<lambda>(it, i, t). (it, if i > 0 then upd_stats (of_nat cid) (\<lambda>x. x\<lparr>n_direct_reclaims := n_direct_reclaims x + of_nat i\<rparr>) t else t))
       (alloc_pull_loop env cid 0 s)"

text \<open>The key and \<^verbatim>\<open>h_next\<close> of an item are in the memory of the hash table.\<close>

definition set_item_key :: "nat \<Rightarrow> u8 list \<Rightarrow> items_state \<Rightarrow> items_state" where
  "set_item_key it key s = s\<lparr>tab := (tab s)\<lparr>items := (items (tab s))(it := (items (tab s) it)\<lparr>hkey := key, h_next := None\<rparr>)\<rparr>\<rparr>"

text \<open>The header of a new item; \<open>cid\<close> is its class and \<open>hdr_id\<close> the class of the header of a chunked one.\<close>

definition init_item :: "settings \<Rightarrow> u32 \<Rightarrow> nat \<Rightarrow> nat \<Rightarrow> u8 \<Rightarrow> u32 \<Rightarrow> u32 \<Rightarrow> u32 \<Rightarrow> item \<Rightarrow> item" where
  "init_item st now cid hdr_id nkey flags exptime nbytes i =
     (let q = (if st_temp_lru st \<and> exptime - now \<le> st_temporary_ttl st then of_nat cid OR TEMP_LRU
               else if st_lru_segmented st then of_nat cid OR HOT_LRU
               else of_nat cid OR COLD_LRU);
          i1 = i\<lparr>it_next := 0, it_prev := 0, it_clsid := q,
                 it_flags := it_flags i OR (if st_use_cas st then ITEM_CAS else 0) OR (if flags \<noteq> 0 then ITEM_CFLAGS else 0),
                 it_nkey := nkey, it_nbytes := nbytes, it_exptime := exptime\<rparr>;
          i2 = (if flags \<noteq> 0 then i1\<lparr>it_suffix := flags\<rparr> else i1)
      in if it_flags i2 AND ITEM_CHUNKED \<noteq> 0 then i2\<lparr>sch_next := 0, sch_orig := of_nat hdr_id\<rparr> else i2)"

definition do_item_alloc ::
  "(nat \<Rightarrow> alloc_env) \<Rightarrow> u8 list \<Rightarrow> u32 \<Rightarrow> u32 \<Rightarrow> u32 \<Rightarrow> items_state \<Rightarrow> (nat \<times> items_state) option" where
  "do_item_alloc env key flags exptime nbytes s =
     (if sint nbytes < 2 then Some (0, s)
      else
        let nkey = of_nat (length key) :: u8;
            (nsuffix, ntotal0) = item_make_header (nkey + 1) flags nbytes;
            ntotal = (if st_use_cas (settings s) then ntotal0 + 8 else ntotal0);
            cid = slabs_clsid s (unat ntotal)
        in if cid = 0 then Some (0, s)
           else if unat ntotal > st_slab_chunk_size_max (settings s) then
             let htotal = length key + 1 + unat nsuffix + 48 + 48 + (if st_use_cas (settings s) then 8 else 0);
                 hdr_id = slabs_clsid s htotal
             in map_option (\<lambda>(it, s1).
                  if it = 0 then (0, upd_stats (of_nat cid) (\<lambda>t. t\<lparr>n_outofmemory := n_outofmemory t + 1\<rparr>) s1)
                  else (it, set_item_key it key (upd_item it (\<lambda>i. init_item (settings s1) (current_time s1) cid hdr_id nkey flags exptime nbytes
                              (i\<lparr>it_flags := it_flags i OR ITEM_CHUNKED\<rparr>)) s1)))
                  (do_item_alloc_pull env hdr_id s)
           else
             map_option (\<lambda>(it, s1).
                  if it = 0 then (0, upd_stats (of_nat cid) (\<lambda>t. t\<lparr>n_outofmemory := n_outofmemory t + 1\<rparr>) s1)
                  else (it, set_item_key it key (upd_item it (\<lambda>i. init_item (settings s1) (current_time s1) cid 0 nkey flags exptime nbytes i) s1)))
                  (do_item_alloc_pull env cid s))"

end
