(* ===== verification/Lru_Correct.thy ===== *)
theory Lru_Correct
  imports Lru_Pull
begin

text \<open>
  Reclaiming and evicting keep the invariant of the store.  A search of the tail of a queue ends, forgets only dead
  items and at most one other, which it may do only in the cold queue and when it is asked to evict; an allocation
  finds memory as long as the coldest item can be evicted.
\<close>

section \<open>What a search may change\<close>

text \<open>\<open>X\<close> are the items unlinked on the way from \<open>s\<close>, with the queues \<open>L\<close>, to \<open>t\<close>, with the queues \<open>M\<close>.\<close>

definition pulled :: "items_state \<Rightarrow> (u8 \<Rightarrow> nat list) \<Rightarrow> nat set \<Rightarrow> items_state \<Rightarrow> (u8 \<Rightarrow> nat list) \<Rightarrow> bool" where
  "pulled s L X t M \<longleftrightarrow>
     same_setting s t \<and> bump_buf t = bump_buf s \<and> (\<forall>a. is_linked M a \<longleftrightarrow> is_linked L a \<and> a \<notin> X) \<and>
     (\<forall>a. is_linked M a \<longrightarrow> same_life (heap t a) (heap s a))"

lemma pulled_refl [simp]: "pulled s L {} s L"
  by (simp add: pulled_def)

lemma pulled_trans:
  assumes "pulled s L X t M" and "pulled t M Y u N"
  shows "pulled s L (X \<union> Y) u N"
  using assms same_life_trans unfolding pulled_def by (auto intro: same_setting_trans)

lemma pulled_dead: "pulled s L X t M \<Longrightarrow> is_linked M a \<Longrightarrow> item_dead t a = item_dead s a"
  unfolding pulled_def same_setting_def same_life_def item_dead_def item_is_flushed_def by (simp add: Let_def)

lemma pulled_hv: "pulled s L X t M \<Longrightarrow> item_hv t a = item_hv s a"
  by (simp add: pulled_def same_setting_hv)

text \<open>Changes that the queues do not see.\<close>

lemma pulled_same:
  assumes "same_index_state s t" "bump_buf t = bump_buf s" "\<And>a. is_linked M a = is_linked L a" "\<And>a. same_life (heap t a) (heap s a)"
  shows "pulled s L {} t M"
  using assms same_index_state_setting [OF assms(1)] by (simp add: pulled_def)

lemma upd_stats_fields [simp]:
  "heap (upd_stats q f s) = heap s" "tab (upd_stats q f s) = tab s" "settings (upd_stats q f s) = settings s"
  "current_time (upd_stats q f s) = current_time s" "bump_buf (upd_stats q f s) = bump_buf s" "same_index_state s (upd_stats q f s)"
  "item_hv (upd_stats q f s) a = item_hv s a" "item_key (upd_stats q f s) a = item_key s a" "sizes_bytes (upd_stats q f s) = sizes_bytes s"
  by (simp_all add: upd_stats_def same_index_state_def same_core_def item_hv_def item_key_def)

lemma pulled_stats: "pulled s L {} (upd_stats q f s) L"
  by (rule pulled_same) simp_all

lemma pick_loop_fields: "\<exists>c. snd (pick_loop n d s) = s\<lparr>pick_cur := c\<rparr>"
proof (induction n arbitrary: s)
  case 0
  have "s = s\<lparr>pick_cur := pick_cur s\<rparr>" by simp
  then show ?case by (metis pick_loop.simps(1) snd_conv)
next
  case (Suc n)
  have "\<exists>e. snd (pick_loop n d (s\<lparr>pick_cur := c\<rparr>)) = s\<lparr>pick_cur := e\<rparr>" for c using Suc.IH [of "s\<lparr>pick_cur := c\<rparr>"] by auto
  then show ?case by (auto simp: Let_def)
qed

lemma slabs_reassign_fields:
  "\<exists>c r g. snd (slabs_reassign l a d s) = s\<lparr>pick_cur := c, slab_rebal := r, slab_rebalance_signal := g\<rparr>"
proof -
  have same: "\<exists>c r g. s\<lparr>pick_cur := x\<rparr> = s\<lparr>pick_cur := c, slab_rebal := r, slab_rebalance_signal := g\<rparr>" for x
    by (intro exI [of _ x] exI [of _ "slab_rebal s"] exI [of _ "slab_rebalance_signal s"]) simp
  obtain src t where e: "(if a = -1 then slabs_reassign_pick_any d s else (a, s)) = (src, t)" by fastforce
  have "\<exists>x. t = s\<lparr>pick_cur := x\<rparr>"
  proof (cases "a = -1")
    case True
    then show ?thesis using e pick_loop_fields [of "power_largest s - POWER_SMALLEST + 1" d s] by (simp add: slabs_reassign_pick_any_def)
  next
    case False
    then have "t = s\<lparr>pick_cur := pick_cur s\<rparr>" using e by simp
    then show ?thesis by blast
  qed
  then obtain x where t: "t = s\<lparr>pick_cur := x\<rparr>" by blast
  have id: "s = s\<lparr>pick_cur := pick_cur s\<rparr>" by simp
  show ?thesis
    unfolding slabs_reassign_def do_slabs_reassign_def e Let_def prod.case
    using same [of x] same [of "pick_cur s"] by (auto simp: t)
qed

lemma slabs_reassign_inv:
  assumes "store_inv s L R"
  shows "store_inv (snd (slabs_reassign l a d s)) L R" "same_index_state s (snd (slabs_reassign l a d s))"
    "bump_buf (snd (slabs_reassign l a d s)) = bump_buf s" "heap (snd (slabs_reassign l a d s)) = heap s"
    "slabclass (snd (slabs_reassign l a d s)) = slabclass s"
proof -
  obtain c r g where t: "snd (slabs_reassign l a d s) = s\<lparr>pick_cur := c, slab_rebal := r, slab_rebalance_signal := g\<rparr>"
    using slabs_reassign_fields by blast
  show "store_inv (snd (slabs_reassign l a d s)) L R" by (rule store_inv_other [OF assms]) (simp_all add: t same_core_def)
  show "same_index_state s (snd (slabs_reassign l a d s))" "bump_buf (snd (slabs_reassign l a d s)) = bump_buf s"
    "heap (snd (slabs_reassign l a d s)) = heap s" "slabclass (snd (slabs_reassign l a d s)) = slabclass s"
    by (simp_all add: t same_index_state_def same_core_def)
qed

section \<open>One item\<close>

definition evicting :: "pull_args \<Rightarrow> items_state \<Rightarrow> bool" where
  "evicting p s \<longleftrightarrow> p_cur_lru p = COLD_LRU \<and> p_flags p AND LRU_PULL_EVICT \<noteq> 0 \<and> st_evict_to_free (settings s)"

text \<open>
  The outcome of examining \<open>search\<close>: either the search goes on, and the item was kept or dead; or it stops with
  the item, to which it holds a reference, perhaps taken out of its queue to be put into another.
\<close>

definition pull_on_ok :: "pull_args \<Rightarrow> items_state \<Rightarrow> (u8 \<Rightarrow> nat list) \<Rightarrow> (nat \<Rightarrow> nat) \<Rightarrow> nat \<Rightarrow> items_state \<Rightarrow> bool" where
  "pull_on_ok p s L R search t \<longleftrightarrow>
     (\<exists>M X. store_inv t M R \<and> pulled s L X t M \<and> X \<subseteq> {search} \<and> (\<forall>a\<in>X. item_dead s a) \<and>
        (evicting p s \<longrightarrow> search \<in> X) \<and>
        (\<forall>b\<in>set (L (p_id p)). b \<noteq> search \<longrightarrow> b \<in> set (M (p_id p))))"

definition pull_stop_ok ::
  "pull_args \<Rightarrow> items_state \<Rightarrow> (u8 \<Rightarrow> nat list) \<Rightarrow> (nat \<Rightarrow> nat) \<Rightarrow> nat \<Rightarrow> u8 \<Rightarrow> (nat \<times> u32) option \<Rightarrow> items_state \<Rightarrow> bool" where
  "pull_stop_ok p s L R it m ret t \<longleftrightarrow>
     (\<exists>u M X. store_inv u M (R(it := R it + 1)) \<and> pulled s L X u M \<and> X \<subseteq> {it} \<and> (X \<noteq> {} \<longleftrightarrow> evicting p s) \<and>
        (if m = 0 then t = u else m \<in> {WARM_LRU, COLD_LRU} \<and> it \<in> set (M (p_id p)) \<and> t = do_item_unlink_q it u)) \<and>
     (if p_flags p AND LRU_PULL_RETURN_ITEM = 0 then ret = None
      else p_cur_lru p = COLD_LRU \<and> p_flags p AND LRU_PULL_EVICT = 0 \<longrightarrow> m = 0 \<and> ret = Some (it, item_hv s it))"

fun pull_ok :: "pull_args \<Rightarrow> items_state \<Rightarrow> (u8 \<Rightarrow> nat list) \<Rightarrow> (nat \<Rightarrow> nat) \<Rightarrow> nat \<Rightarrow> pull_step \<Rightarrow> bool" where
  "pull_ok p s L R search (Pull_on n t) = pull_on_ok p s L R search t"
| "pull_ok p s L R search (Pull_stop it m n ret t) = (it = search \<and> pull_stop_ok p s L R search m ret t)"

lemma pull_ok_trans:
  assumes "pulled s L {} s1 L" "is_linked L search" "pull_ok p s1 L R search r"
  shows "pull_ok p s L R search r"
proof -
  have e: "evicting p s1 = evicting p s" using assms(1) by (simp add: evicting_def pulled_def same_setting_def)
  have d: "item_dead s1 search = item_dead s search" by (rule pulled_dead [OF assms(1,2)])
  have h: "item_hv s1 search = item_hv s search" by (rule pulled_hv [OF assms(1)])
  have t: "pulled s L X t M" if "pulled s1 L X t M" for X t M using pulled_trans [OF assms(1) that] by simp
  show ?thesis
  proof (cases r)
    case (Pull_on n u)
    with assms(3) obtain M X where x: "store_inv u M R" "pulled s1 L X u M" "X \<subseteq> {search}" "\<forall>a\<in>X. item_dead s1 a"
      "evicting p s1 \<longrightarrow> search \<in> X" "\<forall>b\<in>set (L (p_id p)). b \<noteq> search \<longrightarrow> b \<in> set (M (p_id p))" by (auto simp: pull_on_ok_def)
    moreover have "\<forall>a\<in>X. item_dead s a" using x(3,4) d by blast
    ultimately show ?thesis using t [OF x(2)] Pull_on unfolding e by (auto simp: pull_on_ok_def)
  next
    case (Pull_stop it m n ret u)
    with assms(3) t show ?thesis unfolding Pull_stop pull_ok.simps pull_stop_ok_def e h by blast
  qed
qed

lemma pull_dead_ok:
  assumes inv: "store_inv s L (R(it := R it + 1))" and l: "is_linked L it" and dead: "item_dead s it" and hv: "hv = item_hv s it"
  shows "\<exists>t. Option.bind (do_item_unlink_nolock it hv s) (do_item_remove it) = Some t \<and> pull_on_ok p s L R it t"
proof -
  have R: "0 < (R(it := R it + 1)) it" "(R(it := R it + 1))(it := (R(it := R it + 1)) it - 1) = R" by auto
  from unlink_remove_inv [OF inv l hv R(1), unfolded R(2)] obtain t u M where t: "do_item_unlink it hv s = Some t" "do_item_remove it t = Some u"
    "store_inv u M R" "\<forall>b. is_linked M b \<longleftrightarrow> is_linked L b \<and> b \<noteq> it" "same_setting s u" "bump_buf u = bump_buf s"
    "\<forall>b. is_linked M b \<longrightarrow> same_life (heap u b) (heap s b)" "\<forall>r b. b \<noteq> it \<longrightarrow> b \<in> set (L r) \<longrightarrow> b \<in> set (M r)" by blast
  have "pulled s L {it} u M" using t(4-7) by (simp add: pulled_def)
  then have "pull_on_ok p s L R it u" using t(3,8) dead unfolding pull_on_ok_def by blast
  then show ?thesis using t(1,2) by (simp add: nolock_eq)
qed

text \<open>Stopping at an item that stays where it is.\<close>

lemma pull_stop_okI:
  assumes "store_inv u M (R(it := R it + 1))" "pulled s L X u M" "X \<subseteq> {it}" "X \<noteq> {} \<longleftrightarrow> evicting p s"
    and "if m = 0 then t = u else m \<in> {WARM_LRU, COLD_LRU} \<and> it \<in> set (M (p_id p)) \<and> t = do_item_unlink_q it u"
    and "if p_flags p AND LRU_PULL_RETURN_ITEM = 0 then ret = None
      else p_cur_lru p = COLD_LRU \<and> p_flags p AND LRU_PULL_EVICT = 0 \<longrightarrow> m = 0 \<and> ret = Some (it, item_hv s it)"
  shows "pull_ok p s L R it (Pull_stop it m n ret t)"
  unfolding pull_ok.simps pull_stop_ok_def using assms by blast

lemma pull_keep_ok:
  assumes "store_inv s L (R(it := R it + 1))"
    and "\<not> evicting p s"
    and "if p_flags p AND LRU_PULL_RETURN_ITEM = 0 then ret = None
      else p_cur_lru p = COLD_LRU \<and> p_flags p AND LRU_PULL_EVICT = 0 \<longrightarrow> ret = Some (it, item_hv s it)"
  shows "pull_ok p s L R it (Pull_stop it 0 n ret s)"
  by (rule pull_stop_okI [OF assms(1), of s L "{}"]) (use assms(2,3) in \<open>auto split: if_splits\<close>)

text \<open>Stopping at an item that is to move to the queue \<open>m\<close>.\<close>

lemma pull_move_ok:
  assumes "store_inv u L (R(it := R it + 1))" "pulled s L {} u L" "m \<in> {WARM_LRU, COLD_LRU}" "it \<in> set (L (p_id p))"
    and "\<not> evicting p s" "p_flags p AND LRU_PULL_RETURN_ITEM = 0 \<or> p_cur_lru p \<noteq> COLD_LRU"
  shows "pull_ok p s L R it (Pull_stop it m n None (do_item_unlink_q it u))"
proof -
  have "m \<noteq> 0" using assms(3) by auto
  with assms show ?thesis by (intro pull_stop_okI [OF assms(1,2)]) auto
qed

text \<open>Clearing the activity marker.\<close>

lemma clear_active_inv:
  assumes inv: "store_inv s L R" and l: "is_linked L it"
  shows "store_inv (upd_item it (\<lambda>i. i\<lparr>it_flags := it_flags i AND NOT ITEM_ACTIVE\<rparr>) s) L R"
    "pulled s L {} (upd_item it (\<lambda>i. i\<lparr>it_flags := it_flags i AND NOT ITEM_ACTIVE\<rparr>) s) L"
proof -
  have use: "in_use L R it" using l by (simp add: in_use_def)
  show "store_inv (upd_item it (\<lambda>i. i\<lparr>it_flags := it_flags i AND NOT ITEM_ACTIVE\<rparr>) s) L R" by (rule mark_inv(3) [OF inv use])
  show "pulled s L {} (upd_item it (\<lambda>i. i\<lparr>it_flags := it_flags i AND NOT ITEM_ACTIVE\<rparr>) s) L"
    by (rule pulled_same) (simp_all add: same_life_def ITEM_get_cas_def size_flag_simps)
qed

text \<open>Requeueing in place, and with a change of the class's queue only.\<close>

lemma requeue_pulled:
  assumes inv: "store_inv s L R" and l: "it \<in> set (L q)" and lf: "link_free g" and life: "\<And>i. same_life (g i) i"
    and g: "ITEM_clsid (g (heap s it)) = ITEM_clsid (heap s it)" "ITEM_ntotal (g (heap s it)) = ITEM_ntotal (heap s it)"
      "\<And>r. item_ok (g (heap s it)) True r = item_ok (heap s it) True r" and r: "r = it_clsid (g (heap s it))"
  shows "store_inv (requeue it (\<lambda>i. i) g s) (move_front L q r it) R" "pulled s L {} (requeue it (\<lambda>i. i) g s) (move_front L q r it)"
proof -
  obtain ys zs where L: "L q = ys @ it # zs" using l by (auto dest: split_list)
  have lit: "is_linked L it" using l by (auto simp: is_linked_def)
  have ok: "item_ok (heap s it) True (R it)" using store_invD(5) [OF inv, of it] lit by (simp add: in_use_def)
  show "store_inv (requeue it (\<lambda>i. i) g s) (move_front L q r it) R"
    by (rule requeue_inv [OF inv L _ lf]) (use g r ok in \<open>simp_all add: same_place_def\<close>)
  show "pulled s L {} (requeue it (\<lambda>i. i) g s) (move_front L q r it)"
  proof (rule pulled_same)
    show "same_life (heap (requeue it (\<lambda>i. i) g s) b) (heap s b)" for b
      using same_life_links [OF requeue_same [OF lf, of it "\<lambda>i. i" s b]] life [of "heap s it"]
      by (cases "b = it") (auto intro: same_life_trans)
  qed (simp_all add: same_index_state_def same_core_def move_front_linked [of it L q, OF l])
qed

lemma requeue_front_pulled:
  assumes inv: "store_inv s L R" and l: "it \<in> set (L q)"
  shows "store_inv (requeue it (\<lambda>i. i) (\<lambda>i. i) s) (move_front L q q it) R" "pulled s L {} (requeue it (\<lambda>i. i) (\<lambda>i. i) s) (move_front L q q it)"
  using requeue_pulled [OF inv l link_free_id] lru_okD(6) [OF store_invD(3) [OF inv] l] by simp_all

lemma requeue_other_pulled:
  assumes inv: "store_inv s L R" and l: "it \<in> set (L q)" and m: "m AND NOT (push_bit 6 3) = 0"
  shows "\<exists>M. store_inv (requeue it (\<lambda>i. i) (\<lambda>i. i\<lparr>it_clsid := ITEM_clsid i OR m\<rparr>) s) M R \<and>
    pulled s L {} (requeue it (\<lambda>i. i) (\<lambda>i. i\<lparr>it_clsid := ITEM_clsid i OR m\<rparr>) s) M"
proof -
  let ?g = "\<lambda>i. i\<lparr>it_clsid := ITEM_clsid i OR m\<rparr>"
  have lf: "link_free ?g" unfolding link_free_def
  proof (intro allI impI)
    fix i j assume "same_but_links i j"
    then show "same_but_links (i\<lparr>it_clsid := ITEM_clsid i OR m\<rparr>) (j\<lparr>it_clsid := ITEM_clsid j OR m\<rparr>)"
      by (cases i; cases j; simp add: same_but_links_def ITEM_clsid_def)
  qed
  have "same_life (?g i) i" for i by (simp add: same_life_def ITEM_get_cas_def)
  moreover have "ITEM_clsid (?g (heap s it)) = ITEM_clsid (heap s it)" using clsid_or [OF m] by (simp add: ITEM_clsid_def)
  ultimately show ?thesis using requeue_pulled [OF inv l lf _ _ _ _ refl] by (auto simp: ITEM_ntotal_def item_ok_def)
qed

lemma pulled_remove:
  assumes inv: "store_inv s L (R(it := R it + 1))"
  shows "\<exists>t. do_item_remove it s = Some t \<and> store_inv t L R \<and> pulled s L {} t L"
proof -
  have R: "0 < (R(it := R it + 1)) it" "(R(it := R it + 1))(it := (R(it := R it + 1)) it - 1) = R" by auto
  from do_item_remove_inv [OF inv R(1), unfolded R(2)] obtain t where t: "do_item_remove it s = Some t" "store_inv t L R"
    "slabs_state.more t = slabs_state.more s" "settings t = settings s" "\<forall>b. is_linked L b \<longrightarrow> same_life (heap t b) (heap s b)" "same_pages s t" by blast
  have "pulled s L {} t L" using same_setting_more [OF t(3,4,6)] more_fields(10) [OF t(3)] t(5) by (simp add: pulled_def)
  with t(1,2) show ?thesis by blast
qed

lemma move_front_keeps: "b \<noteq> it \<Longrightarrow> b \<in> set (L q) \<Longrightarrow> b \<in> set (move_front L q q it q)"
  by (simp add: move_front_def Let_def in_set_remove1)

lemma pull_hot_warm_ok:
  assumes inv: "store_inv s L (R(it := R it + 1))" and l: "it \<in> set (L (p_id p))" and c: "p_cur_lru p \<in> {HOT_LRU, WARM_LRU}"
  shows "\<exists>r. pull_hot_warm p it n s = Some r \<and> pull_ok p s L R it r"
proof -
  have lit: "is_linked L it" using l by (auto simp: is_linked_def)
  have nc: "p_cur_lru p \<noteq> COLD_LRU" using c by auto
  then have ne: "\<not> evicting p s" by (simp add: evicting_def)
  let ?s1 = "upd_item it (\<lambda>i. i\<lparr>it_flags := it_flags i AND NOT ITEM_ACTIVE\<rparr>) s"
  note a = clear_active_inv [OF inv lit]
  note st = upd_stats_inv and pt = pulled_trans [where X = "{}" and Y = "{}", simplified]
  have move: "pull_ok p s L R it (Pull_stop it m k None (do_item_unlink_q it (upd_stats q f u)))"
    if "store_inv u L (R(it := R it + 1))" "pulled s L {} u L" "m \<in> {WARM_LRU, COLD_LRU}" for m k q f u
    by (rule pull_move_ok [where u = "upd_stats q f u" and L = L, OF st [OF that(1)] pt [OF that(2) pulled_stats] that(3) l ne]) (use nc in simp)
  have keep: "pull_ok p s L R it (Pull_stop it 0 n None s)" by (rule pull_keep_ok [OF inv ne]) (use nc in simp)
  have within: "\<exists>r. map_option (Pull_on k) (do_item_remove it (do_item_link_q it (do_item_unlink_q it (upd_stats q f ?s1)))) = Some r \<and>
      pull_ok p s L R it r" for k q f
  proof -
    let ?u = "upd_stats q f ?s1"
    have iu: "store_inv ?u L (R(it := R it + 1))" and pu: "pulled s L {} ?u L" using st [OF a(1)] pt [OF a(2) pulled_stats] by simp_all
    note rq = requeue_front_pulled [OF iu l]
    have eq: "requeue it (\<lambda>i. i) (\<lambda>i. i) ?u = do_item_link_q it (do_item_unlink_q it ?u)" by (simp add: requeue_def upd_item_id)
    from pulled_remove [of "requeue it (\<lambda>i. i) (\<lambda>i. i) ?u" _ R it] rq(1) obtain t where t:
      "do_item_remove it (requeue it (\<lambda>i. i) (\<lambda>i. i) ?u) = Some t" "store_inv t (move_front L (p_id p) (p_id p) it) R"
      "pulled (requeue it (\<lambda>i. i) (\<lambda>i. i) ?u) (move_front L (p_id p) (p_id p) it) {} t (move_front L (p_id p) (p_id p) it)" by auto
    have "pulled s L {} t (move_front L (p_id p) (p_id p) it)" using pt [OF pt [OF pu rq(2)] t(3)] .
    then have "pull_on_ok p s L R it t" using t(2) ne move_front_keeps unfolding pull_on_ok_def by blast
    then show ?thesis using t(1) unfolding eq by simp
  qed
  show ?thesis unfolding pull_hot_warm_def Let_def using move [OF inv pulled_refl] move [OF a] keep within by simp
qed

lemma pull_cold_ok:
  assumes inv: "store_inv s L (R(it := R it + 1))" and l: "it \<in> set (L (p_id p))" and c: "p_cur_lru p = COLD_LRU" and hv: "hv = item_hv s it"
  shows "\<exists>r. pull_cold p it hv n s = Some r \<and> pull_ok p s L R it r"
proof -
  have lit: "is_linked L it" using l by (auto simp: is_linked_def)
  note pt = pulled_trans [where X = "{}" and Y = "{}", simplified]
  consider (keep) "p_flags p AND LRU_PULL_EVICT \<noteq> 0" "\<not> st_evict_to_free (settings s)"
    | (evict) "p_flags p AND LRU_PULL_EVICT \<noteq> 0" "st_evict_to_free (settings s)"
    | (ret) "p_flags p AND LRU_PULL_EVICT = 0" "p_flags p AND LRU_PULL_RETURN_ITEM \<noteq> 0"
    | (move) "p_flags p AND LRU_PULL_EVICT = 0" "p_flags p AND LRU_PULL_RETURN_ITEM = 0"
        "it_flags (heap s it) AND ITEM_ACTIVE \<noteq> 0 \<and> st_lru_segmented (settings s)"
    | (stay) "p_flags p AND LRU_PULL_EVICT = 0" "p_flags p AND LRU_PULL_RETURN_ITEM = 0"
        "\<not> (it_flags (heap s it) AND ITEM_ACTIVE \<noteq> 0 \<and> st_lru_segmented (settings s))" by blast
  then show ?thesis
  proof cases
    case keep
    have "pull_ok p s L R it (Pull_stop it 0 n None s)" by (rule pull_keep_ok [OF inv]) (use keep in \<open>simp_all add: evicting_def\<close>)
    then show ?thesis using keep by (simp add: pull_cold_def)
  next
    case evict
    let ?s = "upd_stats (p_id p) (count_eviction (heap s it) (current_time s)) s"
    obtain ys zs where L: "L (p_id p) = ys @ it # zs" using l by (auto dest: split_list)
    have "hv = item_hv ?s it" using hv by simp
    from do_item_unlink_inv [OF upd_stats_inv [OF inv] L this] obtain t where t: "do_item_unlink it hv ?s = Some t"
      "store_inv t (L(p_id p := ys @ zs)) (R(it := R it + 1))" "same_setting ?s t" "bump_buf t = bump_buf s"
      "\<forall>b. is_linked (L(p_id p := ys @ zs)) b \<longrightarrow> same_life (heap t b) (heap s b)" by auto
    define w where "w = (if st_slab_automove (settings t) = 2 then snd (slabs_reassign (p_reassign_lock p) (-1) (uint (p_orig_id p)) t) else t)"
    note sr = slabs_reassign_inv [OF t(2)]
    have w: "store_inv w (L(p_id p := ys @ zs)) (R(it := R it + 1))" "same_setting t w" "bump_buf w = bump_buf t" "heap w = heap t"
      using sr t(2) same_index_state_setting [OF sr(2)] by (simp_all add: w_def)
    have "is_linked (L(p_id p := ys @ zs)) b \<longleftrightarrow> is_linked L b \<and> b \<noteq> it" for b by (rule is_linked_removed [OF store_invD(3) [OF inv] L])
    moreover have "same_setting s w" using same_setting_trans [OF same_setting_trans [OF _ t(3)] w(2)] same_index_state_setting by simp
    ultimately have p: "pulled s L {it} w (L(p_id p := ys @ zs))" using t(4,5) w by (simp add: pulled_def)
    have "pull_ok p s L R it (Pull_stop it 0 (n + 1) None w)"
      by (rule pull_stop_okI [OF w(1) p]) (use evict c in \<open>auto simp: evicting_def\<close>)
    then show ?thesis using evict t(1) by (simp add: pull_cold_def nolock_eq w_def)
  next
    case ret
    have "pull_ok p s L R it (Pull_stop it 0 n (Some (it, hv)) s)" by (rule pull_keep_ok [OF inv]) (use ret hv in \<open>simp_all add: evicting_def\<close>)
    then show ?thesis using ret by (simp add: pull_cold_def)
  next
    case move
    let ?u = "upd_item it (\<lambda>i. i\<lparr>it_flags := it_flags i AND NOT ITEM_ACTIVE\<rparr>) (upd_stats (p_id p) (\<lambda>t. t\<lparr>n_moves_to_warm := n_moves_to_warm t + 1\<rparr>) s)"
    note a = clear_active_inv [OF upd_stats_inv [OF inv] lit]
    have "pull_ok p s L R it (Pull_stop it WARM_LRU (n + 1) None (do_item_unlink_q it ?u))"
      by (rule pull_move_ok [OF a(1) pt [OF pulled_stats a(2)] _ l]) (use move in \<open>simp_all add: evicting_def\<close>)
    then show ?thesis using move by (simp add: pull_cold_def Let_def)
  next
    case stay
    have "pull_ok p s L R it (Pull_stop it 0 n None s)" by (rule pull_keep_ok [OF inv]) (use stay in \<open>simp_all add: evicting_def\<close>)
    then show ?thesis using stay(1,2) by (simp add: pull_cold_def if_not_P [OF stay(3)] del: de_Morgan_conj)
  qed
qed

text \<open>The expiry test of the search is stricter than that of a lookup.\<close>

lemma pull_item_ok:
  assumes inv: "store_inv s L R" and l: "it \<in> set (L (p_id p))" and few: "R it + 2 < 2 ^ 16" and hv: "hv = item_hv s it"
    and norepair: "st_tail_repair_time (settings s) = 0" and q: "p_cur_lru p \<in> {HOT_LRU, WARM_LRU, COLD_LRU, TEMP_LRU}"
  shows "\<exists>r. pull_item p it hv n s = Some r \<and> pull_ok p s L R it r"
proof -
  let ?s = "refcount_incr it s"
  define s1 where "s1 = (if it_refcount (heap ?s it) \<noteq> 2
    then upd_stats (p_id p) (\<lambda>t. t\<lparr>n_lrutail_reflocked := n_lrutail_reflocked t + 1\<rparr>) ?s else ?s)"
  have lit: "is_linked L it" using l by (auto simp: is_linked_def)
  then have use: "in_use L R it" by (simp add: in_use_def)
  have "store_inv ?s L (R(it := R it + 1))" by (rule refcount_incr_inv [OF inv use]) (use few lit in simp)
  then have i1: "store_inv s1 L (R(it := R it + 1))" using upd_stats_inv by (simp add: s1_def)
  have "pulled s L {} ?s L" by (rule pulled_same) (simp_all add: refcount_incr_def same_life_def ITEM_get_cas_def)
  then have p1: "pulled s L {} s1 L" using pulled_trans [OF _ pulled_stats] by (simp add: s1_def)
  have hv1: "hv = item_hv s1 it" using hv pulled_hv [OF p1] by simp
  have nr: "st_tail_repair_time (settings s1) = 0" using p1 norepair by (simp add: pulled_def same_setting_def)
  let ?dead = "it_exptime (heap s1 it) \<noteq> 0 \<and> it_exptime (heap s1 it) < current_time s1 \<or> item_is_flushed s1 (heap s1 it)"
  have "\<exists>r. pull_item p it hv n s = Some r \<and> pull_ok p s1 L R it r"
  proof (cases ?dead)
    case True
    define s2 where "s2 = upd_stats (p_id p) (\<lambda>t. t\<lparr>n_reclaimed := n_reclaimed t + 1\<rparr>) s1"
    define s3 where "s3 = (if it_flags (heap s2 it) AND ITEM_FETCHED = 0
      then upd_stats (p_id p) (\<lambda>t. t\<lparr>n_expired_unfetched := n_expired_unfetched t + 1\<rparr>) s2 else s2)"
    have i3: "store_inv s3 L (R(it := R it + 1))" using upd_stats_inv [OF upd_stats_inv [OF i1]] upd_stats_inv [OF i1] by (simp add: s3_def s2_def)
    have p3: "pulled s1 L {} s3 L" using pulled_trans [OF pulled_stats pulled_stats] pulled_stats by (simp add: s3_def s2_def)
    have "item_dead s1 it" using True by (auto simp: item_dead_def)
    then have "item_dead s3 it" using pulled_dead [OF p3 lit] by simp
    moreover have "hv = item_hv s3 it" using hv1 pulled_hv [OF p3] by simp
    ultimately obtain t where t: "Option.bind (do_item_unlink_nolock it hv s3) (do_item_remove it) = Some t" "pull_on_ok p s3 L R it t"
      using pull_dead_ok [OF i3 lit] by blast
    have "pull_ok p s1 L R it (Pull_on (n + 1) t)" by (rule pull_ok_trans [OF p3 lit]) (simp add: t(2))
    moreover have "pull_item p it hv n s = Some (Pull_on (n + 1) t)"
      unfolding pull_item_def Let_def s1_def [symmetric] s2_def [symmetric] s3_def [symmetric] nr using True t(1) by simp
    ultimately show ?thesis by blast
  next
    case alive: False
    have eq: "pull_item p it hv n s =
        (if p_cur_lru p = HOT_LRU \<or> p_cur_lru p = WARM_LRU then pull_hot_warm p it n s1
         else if p_cur_lru p = COLD_LRU then pull_cold p it hv n s1
         else if p_cur_lru p = TEMP_LRU then Some (Pull_stop it 0 n None s1) else Some (Pull_on n s1))"
      unfolding pull_item_def Let_def s1_def [symmetric] nr if_not_P [OF alive] by simp
    have "\<exists>r. pull_hot_warm p it n s1 = Some r \<and> pull_ok p s1 L R it r" if "p_cur_lru p = HOT_LRU \<or> p_cur_lru p = WARM_LRU"
      by (rule pull_hot_warm_ok [OF i1 l]) (use that in simp)
    moreover have "\<exists>r. pull_cold p it hv n s1 = Some r \<and> pull_ok p s1 L R it r" if "p_cur_lru p = COLD_LRU"
      by (rule pull_cold_ok [OF i1 l that hv1])
    moreover have "pull_ok p s1 L R it (Pull_stop it 0 n None s1)" if "p_cur_lru p \<noteq> COLD_LRU" by (rule pull_keep_ok [OF i1]) (use that in \<open>simp_all add: evicting_def\<close>)
    ultimately show ?thesis unfolding eq using q by auto
  qed
  then show ?thesis using pull_ok_trans [OF p1 lit] by blast
qed

section \<open>The search\<close>

text \<open>Only dead items were unlinked.\<close>

definition reclaimed :: "items_state \<Rightarrow> (u8 \<Rightarrow> nat list) \<Rightarrow> items_state \<Rightarrow> (u8 \<Rightarrow> nat list) \<Rightarrow> bool" where
  "reclaimed s L t M \<longleftrightarrow> (\<exists>X. pulled s L X t M \<and> (\<forall>a\<in>X. is_linked L a \<longrightarrow> item_dead s a))"

lemma reclaimed_refl [simp]: "reclaimed s L s L"
  unfolding reclaimed_def using pulled_refl by blast

lemma reclaimed_trans:
  assumes "reclaimed s L t M" "reclaimed t M u N"
  shows "reclaimed s L u N"
proof -
  obtain X where X: "pulled s L X t M" "\<forall>a\<in>X. is_linked L a \<longrightarrow> item_dead s a" using assms(1) by (auto simp: reclaimed_def)
  obtain Y where Y: "pulled t M Y u N" "\<forall>a\<in>Y. is_linked M a \<longrightarrow> item_dead t a" using assms(2) by (auto simp: reclaimed_def)
  have "item_dead s a" if "a \<in> X \<union> Y" "is_linked L a" for a
    using that X Y pulled_dead [OF X(1), of a] by (auto simp: pulled_def)
  then show ?thesis unfolding reclaimed_def using pulled_trans [OF X(1) Y(1)] by blast
qed

fun loop_ok :: "pull_args \<Rightarrow> items_state \<Rightarrow> (u8 \<Rightarrow> nat list) \<Rightarrow> (nat \<Rightarrow> nat) \<Rightarrow> items_state + pull_step \<Rightarrow> bool" where
  "loop_ok p s L R (Inl t) = (\<exists>M. store_inv t M R \<and> reclaimed s L t M)"
| "loop_ok p s L R (Inr (Pull_on n t)) = (\<exists>M. store_inv t M R \<and> reclaimed s L t M)"
| "loop_ok p s L R (Inr (Pull_stop it m n ret t)) =
     (\<exists>u M. store_inv u M R \<and> reclaimed s L u M \<and> it \<in> set (M (p_id p)) \<and> pull_stop_ok p u M R it m ret t)"

lemma loop_ok_trans: "reclaimed s L t M \<Longrightarrow> loop_ok p t M R r \<Longrightarrow> loop_ok p s L R r"
  by (cases "(p, s, L, R, r)" rule: loop_ok.cases) (auto dest: reclaimed_trans)

lemma pull_next:
  assumes "store_inv s L R" "L q = xs @ it # ys"
  shows "it_prev (heap s it) = final 0 xs" "it \<noteq> 0"
proof -
  note l = lists_okD(1,2,4) [OF lru_okD(1) [OF store_invD(3) [OF assms(1)]], of q]
  show "it_prev (heap s it) = final 0 xs" using dll_neighbours(2) [of "heap s" xs it ys] l assms(2) by simp
  show "it \<noteq> 0" using l(3) assms(2) by auto
qed

lemma loop_ok_stop:
  assumes "store_inv s L R" "it \<in> set (L (p_id p))" "pull_stop_ok p s L R it m ret t"
  shows "loop_ok p s L R (Inr (Pull_stop it m n ret t))"
  unfolding loop_ok.simps using assms reclaimed_refl by blast

lemma pull_on_reclaimed: "pull_on_ok p s L R it t \<Longrightarrow>
    \<exists>M. store_inv t M R \<and> reclaimed s L t M \<and> (\<forall>b\<in>set (L (p_id p)). b \<noteq> it \<longrightarrow> b \<in> set (M (p_id p)))"
  unfolding pull_on_ok_def reclaimed_def by blast

lemma pull_loop_ok:
  assumes "store_inv s L R" and "search = 0 \<or> search \<in> set (L (p_id p))" and few: "\<And>a. R a + 2 < 2 ^ 16"
    and "st_tail_repair_time (settings s) = 0" and q: "p_cur_lru p \<in> {HOT_LRU, WARM_LRU, COLD_LRU, TEMP_LRU}"
  shows "\<exists>r. pull_loop p tries search n s = Some r \<and> loop_ok p s L R r"
  using assms(1,2,4)
proof (induction tries arbitrary: search n s L)
  case 0
  then show ?case by (subst pull_loop.simps) auto
next
  case (Suc k)
  note inv = Suc.prems(1)
  have zero: "\<exists>r. pull_loop p (Suc k) 0 n s = Some r \<and> loop_ok p s L R r" using inv by (subst pull_loop.simps) auto
  have round: "\<exists>r. pull_loop p (Suc k) it n s = Some r \<and> loop_ok p s L R r"
    if L: "L (p_id p) = xs @ it # ys" and crawl: "\<exists>r. pull_loop p (Suc k) (final 0 xs) n s = Some r \<and> loop_ok p s L R r" for xs it ys
  proof -
    note nx = pull_next [OF inv L]
    have "distinct (L (p_id p))" using lists_okD(2) [OF lru_okD(1) [OF store_invD(3) [OF inv]]] .
    then have nin: "final 0 xs = 0 \<or> final 0 xs \<in> set (L (p_id p)) \<and> final 0 xs \<noteq> it" using L by (auto simp: final_def)
    have step: "pull_loop p (Suc k) it n s =
        (if is_crawler (heap s it) then if p_flags p AND LRU_PULL_CRAWL_BLOCKS \<noteq> 0 then Some (Inl s) else pull_loop p (Suc k) (final 0 xs) n s
         else if \<not> p_trylock p (Suc k) (item_hv s it) then pull_loop p k (final 0 xs) n s
         else Option.bind (pull_item p it (item_hv s it) n s) (\<lambda>r. case r of
                 Pull_on removed' s' \<Rightarrow> pull_loop p k (final 0 xs) removed' s'
               | Pull_stop it m removed' ret s' \<Rightarrow> Some (Inr r)))"
      unfolding pull_loop.simps [of p "Suc k" it n s] nx(1) Let_def diff_Suc_1 using nx(2) by simp
    have l: "it \<in> set (L (p_id p))" using L by simp
    obtain r where r: "pull_item p it (item_hv s it) n s = Some r" "pull_ok p s L R it r"
      using pull_item_ok [OF inv l few refl Suc.prems(3) q] by blast
    have item: "\<exists>r'. Option.bind (pull_item p it (item_hv s it) n s) (\<lambda>r. case r of
                 Pull_on removed' s' \<Rightarrow> pull_loop p k (final 0 xs) removed' s'
               | Pull_stop it m removed' ret s' \<Rightarrow> Some (Inr r)) = Some r' \<and> loop_ok p s L R r'"
    proof (cases r)
      case (Pull_on n' t)
      with r(2) pull_on_reclaimed obtain M where M: "store_inv t M R" "reclaimed s L t M"
        "\<forall>b\<in>set (L (p_id p)). b \<noteq> it \<longrightarrow> b \<in> set (M (p_id p))" by (metis pull_ok.simps(1))
      have "st_tail_repair_time (settings t) = 0" using M(2) Suc.prems(3) by (auto simp: reclaimed_def pulled_def same_setting_def)
      moreover have "final 0 xs = 0 \<or> final 0 xs \<in> set (M (p_id p))" using nin M(3) by blast
      ultimately obtain r' where "pull_loop p k (final 0 xs) n' t = Some r'" "loop_ok p t M R r'" using Suc.IH [OF M(1)] by blast
      then show ?thesis using r(1) Pull_on loop_ok_trans [OF M(2)] by simp
    next
      case (Pull_stop it' m n' ret t)
      then show ?thesis using r loop_ok_stop [OF inv l] by simp
    qed
    have "\<exists>r. pull_loop p k (final 0 xs) n s = Some r \<and> loop_ok p s L R r" using Suc.IH [OF inv _ Suc.prems(3)] nin by blast
    moreover have "loop_ok p s L R (Inl s)" using inv reclaimed_refl by (simp, blast)
    ultimately show ?thesis unfolding step using crawl item by simp
  qed
  have "\<exists>r. pull_loop p (Suc k) it n s = Some r \<and> loop_ok p s L R r" if "L (p_id p) = xs @ it # ys" for xs it ys
    using that
  proof (induction xs arbitrary: it ys rule: rev_induct)
    case Nil
    then show ?case using round [of "[]"] zero by simp
  next
    case (snoc x xs)
    have "\<exists>r. pull_loop p (Suc k) x n s = Some r \<and> loop_ok p s L R r" using snoc.IH [of x "it # ys"] snoc.prems by simp
    then show ?case using round [OF snoc.prems] by simp
  qed
  with zero Suc.prems(2) show ?case by (metis split_list)
qed

text \<open>
  What a call returns: the references are as before, apart from one to an item it hands out, and all items it
  unlinked were dead, except one when it was to evict.
\<close>

definition tail_ok ::
  "pull_args \<Rightarrow> items_state \<Rightarrow> (u8 \<Rightarrow> nat list) \<Rightarrow> (nat \<Rightarrow> nat) \<Rightarrow> (nat \<times> u32) option \<Rightarrow> items_state \<Rightarrow> bool" where
  "tail_ok p s L R r t \<longleftrightarrow>
     (\<exists>M X v. pulled s L X t M \<and> store_inv t M (case r of None \<Rightarrow> R | Some (it, hv) \<Rightarrow> R(it := R it + 1)) \<and>
        (\<forall>a\<in>X. is_linked L a \<longrightarrow> item_dead s a \<or> a = v \<and> evicting p s) \<and>
        (\<forall>it hv. r = Some (it, hv) \<longrightarrow> p_flags p AND LRU_PULL_RETURN_ITEM \<noteq> 0 \<and> is_linked M it \<and> hv = item_hv s it))"

lemma tail_ok_none:
  assumes "store_inv t M R" "reclaimed s L u N" "pulled u N Y t M" "Y \<subseteq> {v}" "Y \<noteq> {} \<Longrightarrow> evicting p u"
  shows "tail_ok p s L R None t"
proof -
  obtain X where X: "pulled s L X u N" "\<forall>a\<in>X. is_linked L a \<longrightarrow> item_dead s a" using assms(2) by (auto simp: reclaimed_def)
  have "evicting p u = evicting p s" using X(1) by (simp add: evicting_def pulled_def same_setting_def)
  then have "\<forall>a\<in>X \<union> Y. is_linked L a \<longrightarrow> item_dead s a \<or> a = v \<and> evicting p s" using X(2) assms(4,5) by auto
  then show ?thesis unfolding tail_ok_def using pulled_trans [OF X(1) assms(3)] assms(1) by auto
qed

text \<open>The end of a search that stopped at an item: it is put where it belongs, and its reference is dropped or handed out.\<close>

lemma pull_end_stop:
  assumes u: "store_inv u M R" "it \<in> set (M (p_id p))" and stop: "pull_stop_ok p u M R it m rt t"
    and ret: "p_flags p AND LRU_PULL_RETURN_ITEM \<noteq> 0 \<Longrightarrow> p_cur_lru p = COLD_LRU \<and> p_flags p AND LRU_PULL_EVICT = 0"
  shows "\<exists>v N Y. pull_end p (Inr (Pull_stop it m n rt t)) = Some (n, rt, v) \<and> pulled u M Y v N \<and> Y \<subseteq> {it} \<and>
    (Y \<noteq> {} \<longleftrightarrow> evicting p u) \<and> store_inv v N (case rt of None \<Rightarrow> R | Some (it, hv) \<Rightarrow> R(it := R it + 1)) \<and>
    (\<forall>a hv. rt = Some (a, hv) \<longrightarrow> p_flags p AND LRU_PULL_RETURN_ITEM \<noteq> 0 \<and> is_linked N a \<and> hv = item_hv u a)"
proof -
  obtain w N Y where w: "store_inv w N (R(it := R it + 1))" "pulled u M Y w N" "Y \<subseteq> {it}" "Y \<noteq> {} \<longleftrightarrow> evicting p u"
    "if m = 0 then t = w else m \<in> {WARM_LRU, COLD_LRU} \<and> it \<in> set (N (p_id p)) \<and> t = do_item_unlink_q it w" using stop by (auto simp: pull_stop_ok_def)
  define x where "x = (if m \<noteq> 0 then do_item_link_q it (upd_item it (\<lambda>i. i\<lparr>it_clsid := ITEM_clsid i OR m\<rparr>) t) else t)"
  have eq: "pull_end p (Inr (Pull_stop it m n rt t)) = (if p_flags p AND LRU_PULL_RETURN_ITEM = 0
      then map_option (\<lambda>v. (n, rt, v)) (do_item_remove it x) else Some (n, rt, x))" by (simp add: x_def Let_def)
  have "\<exists>N'. store_inv x N' (R(it := R it + 1)) \<and> pulled u M Y x N'"
  proof (cases "m = 0")
    case True
    then show ?thesis using w(1,2,5) by (auto simp: x_def)
  next
    case False
    then have m: "m \<in> {WARM_LRU, COLD_LRU}" "it \<in> set (N (p_id p))" "t = do_item_unlink_q it w" using w(5) by auto
    have x: "x = requeue it (\<lambda>i. i) (\<lambda>i. i\<lparr>it_clsid := ITEM_clsid i OR m\<rparr>) w" using False m(3) by (simp add: x_def requeue_def upd_item_id)
    have "m AND NOT (push_bit 6 3) = 0" using m(1) by auto
    from requeue_other_pulled [OF w(1) m(2) this] obtain N' where "store_inv x N' (R(it := R it + 1))" "pulled w N {} x N'" unfolding x by blast
    then show ?thesis using pulled_trans [OF w(2)] by fastforce
  qed
  then obtain N' where x: "store_inv x N' (R(it := R it + 1))" "pulled u M Y x N'" by blast
  show ?thesis
  proof (cases "p_flags p AND LRU_PULL_RETURN_ITEM = 0")
    case True
    from pulled_remove [OF x(1)] obtain v where v: "do_item_remove it x = Some v" "store_inv v N' R" "pulled x N' {} v N'" by blast
    have "pulled u M Y v N'" using pulled_trans [OF x(2) v(3)] by simp
    moreover have "rt = None" using stop True by (simp add: pull_stop_ok_def)
    ultimately show ?thesis using eq True v(1,2) w(3,4) by auto
  next
    case False
    then have rt: "rt = Some (it, item_hv u it)" and "\<not> evicting p u" using stop ret by (auto simp: pull_stop_ok_def evicting_def)
    moreover from this have "is_linked N' it" using x(2) u(2) w(4) by (auto simp: pulled_def is_linked_def)
    ultimately show ?thesis using eq False x w(3,4) by auto
  qed
qed

lemma pull_end_ok:
  assumes r: "loop_ok p s L R r"
    and ret: "p_flags p AND LRU_PULL_RETURN_ITEM \<noteq> 0 \<Longrightarrow> p_cur_lru p = COLD_LRU \<and> p_flags p AND LRU_PULL_EVICT = 0"
  shows "\<exists>n rt t. pull_end p r = Some (n, rt, t) \<and> tail_ok p s L R rt t"
proof -
  have plain: "tail_ok p s L R None t" if "store_inv t M R" "reclaimed s L t M" for t M
    by (rule tail_ok_none [OF that pulled_refl]) auto
  consider (inl) t where "r = Inl t" | (on) n t where "r = Inr (Pull_on n t)" | (stop) it m n rt t where "r = Inr (Pull_stop it m n rt t)"
    by (metis pull_step.exhaust sum.exhaust)
  then show ?thesis
  proof cases
    case stop
    with r obtain u M where u: "store_inv u M R" "reclaimed s L u M" "it \<in> set (M (p_id p))" "pull_stop_ok p u M R it m rt t" by auto
    obtain X where X: "pulled s L X u M" "\<forall>a\<in>X. is_linked L a \<longrightarrow> item_dead s a" using u(2) by (auto simp: reclaimed_def)
    have ev: "evicting p u = evicting p s" using X(1) by (simp add: evicting_def pulled_def same_setting_def)
    from pull_end_stop [OF u(1,3,4) ret] obtain v N Y where v: "pull_end p r = Some (n, rt, v)" "pulled u M Y v N" "Y \<subseteq> {it}"
      "Y \<noteq> {} \<longleftrightarrow> evicting p u" "store_inv v N (case rt of None \<Rightarrow> R | Some (it, hv) \<Rightarrow> R(it := R it + 1))"
      "\<forall>a hv. rt = Some (a, hv) \<longrightarrow> p_flags p AND LRU_PULL_RETURN_ITEM \<noteq> 0 \<and> is_linked N a \<and> hv = item_hv u a" unfolding stop by blast
    have "\<forall>a\<in>X \<union> Y. is_linked L a \<longrightarrow> item_dead s a \<or> a = it \<and> evicting p s" using X(2) v(3,4) ev by auto
    moreover have "\<forall>a hv. rt = Some (a, hv) \<longrightarrow> p_flags p AND LRU_PULL_RETURN_ITEM \<noteq> 0 \<and> is_linked N a \<and> hv = item_hv s a"
      using v(6) pulled_hv [OF X(1)] by simp
    ultimately have "tail_ok p s L R rt v" unfolding tail_ok_def using pulled_trans [OF X(1) v(2)] v(5)
      by (intro exI [of _ N] exI [of _ "X \<union> Y"] exI [of _ it] conjI)
    with v(1) show ?thesis by blast
  qed (use r plain in auto)
qed

lemma lru_pull_tail_ok:
  assumes inv: "store_inv s L R" and few: "\<And>a. R a + 2 < 2 ^ 16" and norepair: "st_tail_repair_time (settings s) = 0"
    and q: "p_cur_lru p \<in> {HOT_LRU, WARM_LRU, COLD_LRU, TEMP_LRU}"
    and ret: "p_flags p AND LRU_PULL_RETURN_ITEM \<noteq> 0 \<Longrightarrow> p_cur_lru p = COLD_LRU \<and> p_flags p AND LRU_PULL_EVICT = 0"
  shows "\<exists>n r t. lru_pull_tail p s = Some (n, r, t) \<and> tail_ok p s L R r t"
proof (cases "p_orig_id p = 0")
  case True
  have "tail_ok p s L R None s" by (rule tail_ok_none [OF inv reclaimed_refl pulled_refl]) auto
  with True show ?thesis by (simp add: lru_pull_tail_def)
next
  case id: False
  have "tails s (p_id p) = 0 \<or> tails s (p_id p) \<in> set (L (p_id p))"
    using lru_okD(3) [OF store_invD(3) [OF inv], of "p_id p"] by (simp add: final_def)
  from pull_loop_ok [OF inv this few norepair q] obtain r where r: "pull_loop p 5 (tails s (p_id p)) 0 s = Some r" "loop_ok p s L R r" by blast
  then have eq: "lru_pull_tail p s = pull_end p r" using id by (simp add: lru_pull_tail_def)
  show ?thesis unfolding eq by (rule pull_end_ok [OF r(2) ret])
qed

end
