(* ===== verification/Item_Alloc.thy ===== *)
theory Item_Alloc
  imports Lru_Correct
begin

text \<open>
  Allocation of items: \<^verbatim>\<open>do_item_alloc\<close> gives out an unlinked item with one reference and the requested key,
  forgets at most ten items that were still alive to do so, and keeps the invariant of the store.  When the coldest
  item of the class can be evicted, an allocation does not fail.
\<close>

section \<open>Searches on behalf of an allocation\<close>

text \<open>At most \<open>k\<close> items were evicted on the way, all others that are gone were dead.\<close>

definition drained :: "nat \<Rightarrow> items_state \<Rightarrow> (u8 \<Rightarrow> nat list) \<Rightarrow> items_state \<Rightarrow> (u8 \<Rightarrow> nat list) \<Rightarrow> bool" where
  "drained k s L t M \<longleftrightarrow>
     (\<exists>X V. pulled s L X t M \<and> finite V \<and> card V \<le> k \<and>
        (\<forall>a\<in>X. is_linked L a \<longrightarrow> item_dead s a \<or> a \<in> V \<and> st_evict_to_free (settings s)))"

lemma drained_refl: "drained k s L s L"
  unfolding drained_def by (intro exI [of _ "{}"]) simp

lemma drained_mono: "drained k s L t M \<Longrightarrow> k \<le> j \<Longrightarrow> drained j s L t M"
  unfolding drained_def using le_trans by blast

lemma drained_pulled: "pulled s L {} t M \<Longrightarrow> drained k s L t M"
  unfolding drained_def by (intro exI [of _ "{}"]) simp

lemma drained_trans:
  assumes "drained k s L t M" "drained j t M u N"
  shows "drained (k + j) s L u N"
proof -
  obtain X V where X: "pulled s L X t M" "finite V" "card V \<le> k"
    "\<forall>a\<in>X. is_linked L a \<longrightarrow> item_dead s a \<or> a \<in> V \<and> st_evict_to_free (settings s)" using assms(1) by (auto simp: drained_def)
  obtain Y W where Y: "pulled t M Y u N" "finite W" "card W \<le> j"
    "\<forall>a\<in>Y. is_linked M a \<longrightarrow> item_dead t a \<or> a \<in> W \<and> st_evict_to_free (settings t)" using assms(2) by (auto simp: drained_def)
  have st: "settings t = settings s" using X(1) by (simp add: pulled_def same_setting_def)
  have "item_dead s a \<or> a \<in> V \<union> W \<and> st_evict_to_free (settings s)" if "a \<in> X \<union> Y" "is_linked L a" for a
    using that X(1,4) Y(4) pulled_dead [OF X(1), of a] st by (auto simp: pulled_def)
  moreover have "card (V \<union> W) \<le> k + j" using card_Un_le [of V W] X(3) Y(3) by linarith
  ultimately show ?thesis unfolding drained_def using pulled_trans [OF X(1) Y(1)] X(2) Y(2) by blast
qed

lemma drained_settings:
  assumes "drained k s L t M"
  shows "settings t = settings s" "same_pages s t" "is_linked M a \<Longrightarrow> is_linked L a"
  using assms unfolding drained_def pulled_def same_setting_def by blast+

lemma tail_drained:
  assumes "tail_ok p s L R r t" "p_flags p AND LRU_PULL_RETURN_ITEM = 0"
  shows "\<exists>M. store_inv t M R \<and> drained (of_bool (evicting p s)) s L t M"
proof -
  obtain M X v where M: "pulled s L X t M" "store_inv t M (case r of None \<Rightarrow> R | Some (it, hv) \<Rightarrow> R(it := R it + 1))"
    "\<forall>a\<in>X. is_linked L a \<longrightarrow> item_dead s a \<or> a = v \<and> evicting p s"
    "\<forall>it hv. r = Some (it, hv) \<longrightarrow> p_flags p AND LRU_PULL_RETURN_ITEM \<noteq> 0" using assms(1) unfolding tail_ok_def by blast
  have "r = None" using M(4) assms(2) by (cases r) auto
  then have "store_inv t M R" using M(2) by simp
  moreover have "drained (of_bool (evicting p s)) s L t M"
    unfolding drained_def using M(1,3)
    by (intro exI [of _ X] exI [of _ "if evicting p s then {v} else {}"]) (auto simp: evicting_def)
  ultimately show ?thesis by blast
qed

lemma alloc_search:
  assumes "store_inv s L R" and "\<And>a. R a + 2 < 2 ^ 16" and "st_tail_repair_time (settings s) = 0"
    and "cur_lru \<in> {HOT_LRU, COLD_LRU}" "flags \<in> {0, LRU_PULL_EVICT}"
  shows "\<exists>n r t M. lru_pull_tail (alloc_pull_args e k cid cur_lru flags) s = Some (n, r, t) \<and> store_inv t M R \<and>
    drained (of_bool (cur_lru = COLD_LRU \<and> flags = LRU_PULL_EVICT)) s L t M"
proof -
  let ?p = "alloc_pull_args e k cid cur_lru flags"
  have f: "p_flags ?p AND LRU_PULL_RETURN_ITEM = 0" using assms(5) by (auto simp: alloc_pull_args_def)
  have ev: "of_bool (evicting ?p s) \<le> (of_bool (cur_lru = COLD_LRU \<and> flags = LRU_PULL_EVICT) :: nat)"
    using assms(5) by (auto simp: evicting_def alloc_pull_args_def)
  have "\<exists>n r t. lru_pull_tail ?p s = Some (n, r, t) \<and> tail_ok ?p s L R r t"
    by (rule lru_pull_tail_ok [OF assms(1-3)]) (use assms(4) f in \<open>auto simp: alloc_pull_args_def\<close>)
  then show ?thesis using tail_drained [OF _ f] drained_mono [OF _ ev] by blast
qed

section \<open>What the slab allocator gives\<close>

text \<open>The fields of the store that allocating a chunk leaves alone.\<close>

definition same_store :: "items_state \<Rightarrow> items_state \<Rightarrow> bool" where
  "same_store s t \<longleftrightarrow>
     settings t = settings s \<and> heads t = heads s \<and> tails t = tails s \<and> lru_sizes t = lru_sizes s \<and> sizes_bytes t = sizes_bytes s \<and>
     tab t = tab s \<and> curr_items t = curr_items s \<and> curr_bytes t = curr_bytes s \<and> current_time t = current_time s \<and>
     bump_buf t = bump_buf s"

definition obtained :: "nat \<Rightarrow> nat \<Rightarrow> items_state \<Rightarrow> items_state \<Rightarrow> bool" where
  "obtained cid it s t \<longleftrightarrow>
     same_store s t \<and> slabs_inv t \<and> (\<forall>d b. (d, b) \<in> slab_live s \<longrightarrow> heap t b = heap s b) \<and>
     (if it = 0 then slab_live t = slab_live s \<and> same_pages s t
      else class_range s cid \<and> class_range t cid \<and> (cid, it) \<notin> slab_live s \<and> slab_live t = insert (cid, it) (slab_live s) \<and>
        it_flags (heap t it) = 0 \<and> it_refcount (heap t it) = 1)"

lemma same_store_more:
  assumes "slabs_state.more t = slabs_state.more s" "settings t = settings s"
  shows "same_store s t"
  using more_fields [OF assms(1)] assms(2) by (simp add: same_store_def)

lemma slabs_alloc_obtained:
  assumes "store_inv s L R" "malloc_fresh s mr (page_len s cid)"
  shows "\<exists>it t. do_slabs_alloc ro mr cid 0 s = Some (it, t) \<and> obtained cid it s t \<and>
    (it = 0 \<longrightarrow> class_range s cid \<longrightarrow> free_list s cid = [])"
proof -
  from do_slabs_alloc_spec [OF store_invD(1) [OF assms(1)] assms(2), where ro = ro and fl = 0] obtain it t where t:
    "do_slabs_alloc ro mr cid 0 s = Some (it, t)" "slabs_inv t" "slabs_state.more t = slabs_state.more s" "settings t = settings s"
    "class_range t = class_range s"
    "if it = 0 then slab_live t = slab_live s \<and> same_pages s t \<and> (class_range s cid \<longrightarrow> free_list s cid = [])
     else class_range s cid \<and> (cid, it) \<notin> slab_live s \<and> slab_live t = insert (cid, it) (slab_live s) \<and>
       it_flags (heap t it) = 0 \<and> it_refcount (heap t it) = 1"
    "\<forall>d b. (d, b) \<in> slab_live s \<longrightarrow> heap t b = heap s b" by blast
  have "obtained cid it s t" using t(2,5-7) same_store_more [OF t(3,4)] by (auto simp: obtained_def)
  with t(1,6) show ?thesis by (intro exI [of _ it] exI [of _ t]) simp
qed

lemma obtained_stats:
  assumes o: "obtained cid it s t"
  shows "obtained cid it s (upd_stats q f t)" (is "obtained cid it s ?t")
proof -
  have core: "same_core t ?t" by (simp add: upd_stats_def same_core_def)
  have inv: "slabs_inv t" using o by (simp add: obtained_def)
  have fl: "it_flags (heap ?t b) \<noteq> ITEM_SLABBED" if "(c, b) \<in> slab_live t" for c b
    using slabs_invD(5) [OF inv slab_liveD(1) [OF that]] slab_liveD(2) [OF that] by auto
  have r: "slabs_inv ?t" "slab_live ?t = slab_live t" by (rule rewrite_live [OF inv core], simp, erule fl)+
  have "same_store s ?t" using o by (simp add: obtained_def same_store_def upd_stats_def)
  moreover note same_pages_core [OF core]
  ultimately show ?thesis using o r by (auto simp: obtained_def same_pages_def split: if_splits)
qed

lemma obtained_none:
  assumes inv: "store_inv s L R" and o: "obtained cid 0 s t"
  shows "store_inv t L R" "pulled s L {} t L"
proof -
  note D = store_invD [OF inv]
  have st: "same_store s t" and sl: "slab_live t = slab_live s" and sp: "same_pages s t" and si: "slabs_inv t"
    using o by (simp_all add: obtained_def)
  have h: "heap t a = heap s a" if "in_use L R a" for a using o D(9) [OF that] unfolding obtained_def by blast
  have hl: "heap t a = heap s a" if "is_linked L a" for a using h that by (simp add: in_use_def)
  note f = st [unfolded same_store_def]
  have k: "item_key t = item_key s" using f by (simp add: item_key_def fun_eq_iff)
  have "lru_ok t L" by (rule lru_ok_heap [OF D(3)]) (use f hl in \<open>simp_all add: same_place_def\<close>)
  moreover have "{(item_cls t a, a) | a. in_use L R a} = {(item_cls s a, a) | a. in_use L R a}"
    using h by (auto simp: item_cls_def)
  ultimately show "store_inv t L R" unfolding store_inv_def using si sl D(2,4-8) h f k by simp
  show "pulled s L {} t L" using f sp hl k by (simp add: pulled_def same_setting_def)
qed

section \<open>The allocation loop\<close>

lemma obtained_nothing: "store_inv s L R \<Longrightarrow> obtained cid 0 s s"
  by (simp add: obtained_def same_store_def store_invD(1))

text \<open>The search before the allocation, in the mode without segments.\<close>

lemma alloc_before:
  assumes "store_inv s L R" and "\<And>a. R a + 2 < 2 ^ 16" and "st_tail_repair_time (settings s) = 0"
  shows "\<exists>t M. (if \<not> st_lru_segmented (settings s)
      then map_option (\<lambda>(n, ret, t). t) (lru_pull_tail (alloc_pull_args e 0 cid COLD_LRU 0) s) else Some s) = Some t \<and>
    store_inv t M R \<and> drained 0 s L t M"
proof (cases "st_lru_segmented (settings s)")
  case True
  then show ?thesis using assms(1) drained_refl by auto
next
  case False
  then show ?thesis using alloc_search [OF assms, where cur_lru = COLD_LRU and flags = 0 and e = e and k = 0 and cid = cid] by fastforce
qed

lemma alloc_pull_loop_ok:
  assumes "store_inv s L R" and few: "\<And>a. R a + 2 < 2 ^ 16" and "st_tail_repair_time (settings s) = 0"
    and "\<And>j. malloc_fresh s (e_malloc_ret (env j)) (page_len s cid)"
  shows "\<exists>it j t u M. alloc_pull_loop env cid i s = Some (it, j, t) \<and> drained (10 - i) s L u M \<and> store_inv u M R \<and> obtained cid it u t"
  using assms(1,3,4)
proof (induction "10 - i" arbitrary: i s L)
  case 0
  then have "alloc_pull_loop env cid i s = Some (0, i, s)" by (simp add: alloc_pull_loop.simps)
  then show ?case using 0(2) drained_refl obtained_nothing by blast
next
  case (Suc k)
  let ?e = "env i"
  have i: "\<not> i \<ge> 10" "k = 10 - (i + 1)" "10 - i = 1 + (10 - (i + 1))" using Suc(2) by simp_all
  from alloc_before [OF Suc.prems(1) few Suc.prems(2), where e = ?e and cid = cid] obtain s1 M1 where s1:
    "(if \<not> st_lru_segmented (settings s)
      then map_option (\<lambda>(n, ret, t). t) (lru_pull_tail (alloc_pull_args ?e 0 cid COLD_LRU 0) s) else Some s) = Some s1"
    "store_inv s1 M1 R" "drained 0 s L s1 M1" by blast
  note d1 = drained_settings [OF s1(3)]
  have "malloc_fresh s1 (e_malloc_ret ?e) (page_len s1 cid)"
    using Suc.prems(3) [of i] same_pages_fresh [OF d1(2)] d1(2) by (simp add: same_pages_def)
  from slabs_alloc_obtained [OF s1(2) this, where ro = "e_realloc_ok ?e"] obtain it s2 where s2:
    "do_slabs_alloc (e_realloc_ok ?e) (e_malloc_ret ?e) cid 0 s1 = Some (it, s2)" "obtained cid it s1 s2" by blast
  show ?case
  proof (cases "it = 0")
    case False
    then have "alloc_pull_loop env cid i s = Some (it, i, s2)" using i(1) s1(1) s2(1) by (subst alloc_pull_loop.simps) simp
    then show ?thesis using s1(2) s2(2) drained_mono [OF s1(3), of "10 - i"] by blast
  next
    case True
    note o = obtained_none [OF s1(2) s2(2) [unfolded True]]
    have d2: "drained 0 s L s2 M1" using drained_trans [OF s1(3) drained_pulled [OF o(2), of 0]] by simp
    have "st_tail_repair_time (settings s2) = 0" using Suc.prems(2) drained_settings(1) [OF d2] by simp
    from alloc_search [OF o(1) few this, where cur_lru = COLD_LRU and flags = LRU_PULL_EVICT and e = ?e and k = 1 and cid = cid]
    obtain n r s3 M3 where s3: "lru_pull_tail (alloc_pull_args ?e 1 cid COLD_LRU LRU_PULL_EVICT) s2 = Some (n, r, s3)" "store_inv s3 M3 R"
      "drained 1 s2 M1 s3 M3" by auto
    have d3: "drained 1 s L s3 M3" using drained_trans [OF d2 s3(3)] by simp
    have more: "\<exists>it j t u M. alloc_pull_loop env cid (i + 1) v = Some (it, j, t) \<and> drained (10 - i) s L u M \<and> store_inv u M R \<and> obtained cid it u t"
      if v: "store_inv v N R" "drained 1 s L v N" for v N
    proof -
      note dv = drained_settings [OF v(2)]
      have r: "st_tail_repair_time (settings v) = 0" using Suc.prems(2) dv(1) by simp
      have "malloc_fresh v (e_malloc_ret (env j)) (page_len v cid)" for j
        using Suc.prems(3) [of j] same_pages_fresh [OF dv(2)] dv(2) by (simp add: same_pages_def)
      from Suc.hyps(1) [OF i(2) v(1) r this] obtain it j t u M where "alloc_pull_loop env cid (i + 1) v = Some (it, j, t)"
        "drained (10 - (i + 1)) v N u M" "store_inv u M R" "obtained cid it u t" by blast
      then show ?thesis using drained_trans [OF v(2)] unfolding i(3) by blast
    qed
    have r3: "st_tail_repair_time (settings s3) = 0" using Suc.prems(2) drained_settings(1) [OF d3] by simp
    from alloc_search [OF s3(2) few r3, where cur_lru = HOT_LRU and flags = 0 and e = ?e and k = 2 and cid = cid]
    obtain n' r' s4 M4 where s4: "lru_pull_tail (alloc_pull_args ?e 2 cid HOT_LRU 0) s3 = Some (n', r', s4)" "store_inv s4 M4 R"
      "drained 0 s3 M3 s4 M4" by auto
    have d4: "drained 1 s L s4 M4" using drained_trans [OF d3 s4(3)] by simp
    have "alloc_pull_loop env cid i s =
        (if n \<noteq> 0 then alloc_pull_loop env cid (i + 1) s3 else if st_lru_segmented (settings s3) then alloc_pull_loop env cid (i + 1) s4
         else Some (0, i, s3))"
      using i(1) s1(1) s2(1) s3(1) s4(1) True by (subst alloc_pull_loop.simps) simp
    moreover have "drained (10 - i) s L s3 M3" by (rule drained_mono [OF d3]) (use i(1) in simp)
    ultimately show ?thesis using more [OF s3(2) d3] more [OF s4(2) d4] s3(2) obtained_nothing [OF s3(2)] by (auto split: if_splits)
  qed
qed

section \<open>The new item\<close>

text \<open>Memory that is not an item of the table may be rewritten.\<close>

lemma index_write_free:
  assumes wf: "assoc_wf s" and free: "\<And>k. index_find s k \<noteq> Some a"
  shows "assoc_wf (s\<lparr>items := (items s)(a := v)\<rparr>)" "index_find (s\<lparr>items := (items s)(a := v)\<rparr>) = index_find s"
proof -
  let ?t = "s\<lparr>items := (items s)(a := v)\<rparr>"
  obtain C where C: "table_inv s C" using wf by (auto simp: assoc_wf_def)
  have out: "a \<notin> members s C" using index_find_iff [OF C, of "hkey (items s a)" a] free by blast
  have ex: "bucket_exists ?t c = bucket_exists s c" for c by (cases c) simp_all
  have rd: "read_cell ?t c = read_cell s c" if "bucket_exists s c" for c using that by (cases c) (simp_all add: read_cell_def)
  have bo: "bucket_of ?t hv = bucket_of s hv" for hv by (simp add: bucket_of_def)
  have C': "table_inv ?t C" unfolding table_inv_def ex
  proof (intro conjI allI impI)
    show "shape ?t" using table_inv_shape [OF C] by (simp add: shape_def)
    fix c assume c: "bucket_exists s c"
    note D = table_invD [OF C c]
    have n: "a \<notin> set (C c)" using out c by (auto simp: members_def)
    then show "chain (items ?t) (read_cell ?t c) (C c)" using D(1) rd [OF c] by simp
    show "\<forall>b\<in>set (C c). item_bucket ?t b = c" using n D(2) by (auto simp: bo)
    have "map (\<lambda>b. hkey (items ?t b)) (C c) = map (\<lambda>b. hkey (items s b)) (C c)" using n by auto
    then show "distinct (map (\<lambda>b. hkey (items ?t b)) (C c))" using D(3) by (simp only:)
  qed
  then show "assoc_wf ?t" by (auto simp: assoc_wf_def)
  have "index_find ?t k = Some b \<longleftrightarrow> index_find s k = Some b" for k b
    using out index_find_iff [OF C] index_find_iff [OF C'] by (auto simp: members_def ex)
  then show "index_find ?t = index_find s" by (intro ext) (metis option.exhaust)
qed

lemma obtained_free:
  assumes inv: "store_inv s M R" and o: "obtained cid it s t" and it: "it \<noteq> 0"
  shows "R it = 0" "\<not> is_linked M it" "(cid, it) \<in> slab_live t"
proof -
  have l: "slab_live t = insert (cid, it) (slab_live s)" "(cid, it) \<notin> slab_live s" "slabs_inv t" using o it by (simp_all add: obtained_def)
  then show "(cid, it) \<in> slab_live t" by simp
  have "\<not> in_use M R it"
  proof
    assume "in_use M R it"
    then have "(item_cls s it, it) \<in> slab_live s" by (rule store_invD(9) [OF inv])
    then show False using l live_unique [OF l(3), of "item_cls s it" it cid] by auto
  qed
  then show "R it = 0" "\<not> is_linked M it" by (simp_all add: in_use_def)
qed

lemma obtained_item:
  assumes inv: "store_inv s M R" and o: "obtained cid it s t" and it: "it \<noteq> 0"
    and g: "unat (ITEM_clsid (g (heap t it))) = cid" "item_ok (g (heap t it)) False 1"
  shows "store_inv (set_item_key it key (upd_item it g t)) M (R(it := 1))" (is "store_inv ?t M ?R")
proof -
  note D = store_invD [OF inv] and fr = obtained_free [OF inv o it]
  have st: "same_store s t" and si: "slabs_inv t" and l: "slab_live t = insert (cid, it) (slab_live s)" using o it by (simp_all add: obtained_def)
  note f = st [unfolded same_store_def]
  have h: "heap t a = heap s a" if "in_use M R a" for a using o D(9) [OF that] unfolding obtained_def by blast
  let ?u = "upd_item it g t"
  note w = write_inv [OF si fr(3), of g, OF item_okD(6) [OF g(2)]]
  have core: "same_core ?u ?t" by (simp add: set_item_key_def same_core_def)
  have live: "it_flags (heap ?t b) \<noteq> ITEM_SLABBED" if "(c, b) \<in> slab_live ?u" for c b
    using slabs_invD(5) [OF w(1) slab_liveD(1) [OF that]] slab_liveD(2) [OF that] by (auto simp: set_item_key_def)
  have r: "slabs_inv ?t" "slab_live ?t = slab_live ?u" by (rule rewrite_live [OF w(1) core], simp add: set_item_key_def, erule live)+
  have use: "in_use M ?R a \<longleftrightarrow> a = it \<or> in_use M R a" for a using fr(1,2) by (auto simp: in_use_def)
  have ht: "heap ?t a = (if a = it then g (heap t it) else heap t a)" for a by (simp add: set_item_key_def)
  have nu: "\<not> in_use M R it" using fr by (simp add: in_use_def)
  have hu: "heap ?t a = heap s a" if "in_use M R a" for a using h [OF that] that nu by (auto simp: ht)
  have hl: "heap ?t a = heap s a" if "is_linked M a" for a using hu that by (simp add: in_use_def)
  have fields: "heads ?t = heads s" "tails ?t = tails s" "lru_sizes ?t = lru_sizes s" "sizes_bytes ?t = sizes_bytes s"
    "curr_items ?t = curr_items s" "curr_bytes ?t = curr_bytes s" using f by (simp_all add: set_item_key_def upd_item_def)
  have "lru_ok ?t M" by (rule lru_ok_heap [OF D(3)]) (use fields hl in \<open>simp_all add: same_place_def\<close>)
  moreover have "slab_live ?t = {(item_cls ?t a, a) | a. in_use M ?R a}"
  proof -
    have "item_cls ?t it = cid" using g(1) by (simp add: item_cls_def ht)
    moreover have "item_cls ?t a = item_cls s a" if "in_use M R a" for a using hu [OF that] by (simp add: item_cls_def)
    ultimately show ?thesis unfolding r w(4) l D(4) use by force
  qed
  moreover have "item_ok (heap ?t a) (is_linked M a) (?R a)" if "in_use M ?R a" for a
  proof (cases "a = it")
    case True
    then show ?thesis using g(2) fr(2) by (simp add: ht)
  next
    case False
    then have "in_use M R a" using that use by blast
    then show ?thesis using False D(5) [of a] hu [of a] by simp
  qed
  moreover have tb: "tab ?t = (tab s)\<lparr>items := (items (tab s))(it := (items (tab s) it)\<lparr>hkey := key, h_next := None\<rparr>)\<rparr>"
    using f by (simp add: set_item_key_def upd_item_def)
  moreover have "index_find (tab s) k \<noteq> Some it" for k using D(6) fr(2) by simp
  note ix = index_write_free [OF D(2) this]
  have "index_find (tab ?t) k = Some a \<longleftrightarrow> is_linked M a \<and> item_key ?t a = k" for k a
    unfolding tb ix(2) D(6) using fr(2) by (auto simp: item_key_def tb)
  ultimately show ?thesis unfolding store_inv_def using r(1) D(7,8) fields ix(1) by simp
qed

lemma clsid_small:
  fixes m :: u8
  assumes "cid < 64" "m \<in> {0, 64, 128, 192}"
  shows "(of_nat cid OR m) AND NOT (push_bit 6 3) = of_nat cid"
proof -
  have k: "NOT (push_bit 6 3) = (mask 6 :: u8)" by (simp add: mask_eq_exp_minus_1)
  have "take_bit 6 (of_nat cid :: u8) = of_nat cid" using assms(1) by (simp add: take_bit_of_nat take_bit_nat_eq_self)
  moreover have "take_bit 6 m = 0" using assms(2) by auto
  ultimately show ?thesis unfolding k by (simp flip: take_bit_eq_mask)
qed

lemma init_item_header:
  assumes "it_flags i = 0" "it_refcount i = 1" "cid < 64" and j: "j = init_item st now cid hdr nkey flags exptime nbytes i"
  shows "unat (ITEM_clsid j) = cid" "item_ok j False 1" "it_exptime j = exptime" "it_nbytes j = nbytes" "it_nkey j = nkey"
proof -
  define m where "m = (if st_temp_lru st \<and> exptime - now \<le> st_temporary_ttl st then TEMP_LRU else if st_lru_segmented st then HOT_LRU else COLD_LRU)"
  have c: "it_clsid j = of_nat cid OR m" by (simp add: j init_item_def Let_def m_def)
  have "m \<in> {0, 64, 128, 192}" by (simp add: m_def)
  from clsid_small [OF assms(3) this] have "ITEM_clsid j = of_nat cid" by (simp add: ITEM_clsid_def c)
  then show "unat (ITEM_clsid j) = cid" using assms(3) by (simp add: unat_of_nat)
  define w :: u16 where "w = (if st_use_cas st then ITEM_CAS else 0) OR (if flags \<noteq> 0 then ITEM_CFLAGS else 0)"
  have w: "it_flags j = w" "it_refcount j = 1" using assms(1,2) by (simp_all add: j init_item_def Let_def w_def)
  have "\<not> bit w 0" "\<not> bit w 2" "\<not> bit w 5" by (auto simp: w_def bit_or_iff bit_numeral_rec simp flip: numeral_2_eq_2)
  then show "item_ok j False 1" using w by (simp add: item_ok_def)
  show "it_exptime j = exptime" "it_nbytes j = nbytes" "it_nkey j = nkey" by (simp_all add: j init_item_def Let_def)
qed

section \<open>do\_item\_alloc\<close>

text \<open>The size of a new item and its class.\<close>

definition new_ntotal :: "u8 list \<Rightarrow> u32 \<Rightarrow> u32 \<Rightarrow> items_state \<Rightarrow> u64" where
  "new_ntotal key flags nbytes s =
     snd (item_make_header (of_nat (length key) + 1) flags nbytes) + (if st_use_cas (settings s) then 8 else 0)"

lemma do_item_alloc_small:
  assumes "unat (new_ntotal key flags nbytes s) \<le> st_slab_chunk_size_max (settings s)"
    and c: "cid = slabs_clsid s (unat (new_ntotal key flags nbytes s))"
  shows "do_item_alloc env key flags exptime nbytes s =
    (if sint nbytes < 2 \<or> cid = 0 then Some (0, s)
     else map_option (\<lambda>(it, s1).
       if it = 0 then (0, upd_stats (of_nat cid) (\<lambda>t. t\<lparr>n_outofmemory := n_outofmemory t + 1\<rparr>) s1)
       else (it, set_item_key it key (upd_item it (\<lambda>i. init_item (settings s1) (current_time s1) cid 0 (of_nat (length key)) flags exptime nbytes i) s1)))
       (do_item_alloc_pull env cid s))"
proof -
  obtain ns nt where h: "item_make_header (of_nat (length key) + 1) flags nbytes = (ns, nt)" by fastforce
  have n: "(if st_use_cas (settings s) then nt + 8 else nt) = new_ntotal key flags nbytes s" by (simp add: new_ntotal_def h)
  show ?thesis unfolding do_item_alloc_def Let_def h prod.case n c [symmetric] using assms(1) by simp
qed

lemma do_item_alloc_pull_ok:
  assumes "store_inv s L R" "\<And>a. R a + 2 < 2 ^ 16" "st_tail_repair_time (settings s) = 0"
    "\<And>j. malloc_fresh s (e_malloc_ret (env j)) (page_len s cid)"
  shows "\<exists>it t u M. do_item_alloc_pull env cid s = Some (it, t) \<and> drained 10 s L u M \<and> store_inv u M R \<and> obtained cid it u t"
proof -
  from alloc_pull_loop_ok [of s L R env cid 0, OF assms] obtain it j t u M where l: "alloc_pull_loop env cid 0 s = Some (it, j, t)"
    "drained 10 s L u M" "store_inv u M R" "obtained cid it u t" by auto
  then show ?thesis using obtained_stats [OF l(4)] by (simp add: do_item_alloc_pull_def) blast
qed

lemma do_item_alloc_inv:
  assumes inv: "store_inv s L R" and few: "\<And>a. R a + 2 < 2 ^ 16" and norepair: "st_tail_repair_time (settings s) = 0"
    and fresh: "\<And>j c. malloc_fresh s (e_malloc_ret (env j)) (page_len s c)"
    and small: "unat (new_ntotal key flags nbytes s) \<le> st_slab_chunk_size_max (settings s)"
  shows "\<exists>it t u M. do_item_alloc env key flags exptime nbytes s = Some (it, t) \<and> drained 10 s L u M \<and> store_inv u M R \<and> same_store u (t\<lparr>tab := tab u\<rparr>) \<and>
    (if it = 0 then store_inv t M R \<and> tab t = tab u
     else R it = 0 \<and> \<not> is_linked M it \<and> store_inv t M (R(it := 1)) \<and> item_key t = (item_key u)(it := key) \<and>
       it_exptime (heap t it) = exptime \<and> it_nbytes (heap t it) = nbytes \<and> hash_fn (tab t) = hash_fn (tab u))"
proof -
  define cid where "cid = slabs_clsid s (unat (new_ntotal key flags nbytes s))"
  note eq = do_item_alloc_small [OF small cid_def, of env exptime]
  show ?thesis
  proof (cases "sint nbytes < 2 \<or> cid = 0")
    case True
    then have "do_item_alloc env key flags exptime nbytes s = Some (0, s)" unfolding eq by simp
    moreover have "same_store s (s\<lparr>tab := tab s\<rparr>)" by (simp add: same_store_def)
    ultimately show ?thesis using inv drained_refl [of 10 s L] by (intro exI [of _ 0] exI [of _ s] exI [of _ L]) simp
  next
    case False
    from do_item_alloc_pull_ok [of s L R env cid, OF inv few norepair fresh] obtain it t u M where p: "do_item_alloc_pull env cid s = Some (it, t)"
      "drained 10 s L u M" "store_inv u M R" "obtained cid it u t" by blast
    show ?thesis
    proof (cases "it = 0")
      case True
      let ?t = "upd_stats (of_nat cid) (\<lambda>t. t\<lparr>n_outofmemory := n_outofmemory t + 1\<rparr>) t"
      have "do_item_alloc env key flags exptime nbytes s = Some (0, ?t)" unfolding eq if_not_P [OF False] p(1) using True by simp
      moreover have "store_inv ?t M R" using obtained_none(1) [OF p(3) p(4) [unfolded True]] by (rule upd_stats_inv)
      moreover have "same_store u (?t\<lparr>tab := tab u\<rparr>)" "tab ?t = tab u" using p(4) by (simp_all add: obtained_def same_store_def upd_stats_def)
      ultimately show ?thesis using p(2,3) by (intro exI [of _ 0] exI [of _ ?t] exI [of _ u] exI [of _ M]) simp
    next
      case it: False
      let ?g = "\<lambda>i. init_item (settings t) (current_time t) cid 0 (of_nat (length key)) flags exptime nbytes i"
      let ?t = "set_item_key it key (upd_item it ?g t)"
      have "class_range u cid" and h: "it_flags (heap t it) = 0" "it_refcount (heap t it) = 1" using p(4) it by (simp_all add: obtained_def)
      then have "cid < 64" using class_range_bound classes_okD(1) slabs_invD(1) [OF store_invD(1) [OF p(3)]] by metis
      note g = init_item_header [OF h this refl]
      have "store_inv ?t M (R(it := 1))" by (rule obtained_item [OF p(3,4) it]) (rule g)+
      moreover have "do_item_alloc env key flags exptime nbytes s = Some (it, ?t)" unfolding eq if_not_P [OF False] p(1) using it by simp
      moreover have "same_store u (?t\<lparr>tab := tab u\<rparr>)" "tab t = tab u" using p(4) by (simp_all add: obtained_def same_store_def set_item_key_def upd_item_def)
      moreover have "item_key ?t = (item_key u)(it := key)" "hash_fn (tab ?t) = hash_fn (tab u)" using calculation(4)
        by (auto simp: item_key_def set_item_key_def upd_item_def fun_eq_iff)
      moreover have "heap ?t it = ?g (heap t it)" by (simp add: set_item_key_def)
      ultimately show ?thesis using p(2,3) obtained_free [OF p(3,4) it] g(3,4) it
        by (intro exI [of _ it] exI [of _ ?t] exI [of _ u] exI [of _ M]) simp
    qed
  qed
qed

section \<open>An allocation that may evict does not fail\<close>

text \<open>The coldest item of a class, if the search can lock it and it is not a crawler, is gone after an evicting search.\<close>

lemma lru_pull_tail_evicts:
  assumes inv: "store_inv s L R" and few: "\<And>a. R a + 2 < 2 ^ 16" and norepair: "st_tail_repair_time (settings s) = 0"
    and p: "evicting p s" "p_orig_id p \<noteq> 0" "p_flags p AND LRU_PULL_RETURN_ITEM = 0" "p_trylock p 5 (item_hv s a)"
    and a: "tails s (p_id p) = a" "a \<noteq> 0" "\<not> is_crawler (heap s a)"
  shows "\<exists>n r t M. lru_pull_tail p s = Some (n, r, t) \<and> store_inv t M R \<and> drained 1 s L t M \<and> \<not> is_linked M a"
proof -
  have q: "p_cur_lru p \<in> {HOT_LRU, WARM_LRU, COLD_LRU, TEMP_LRU}" using p(1) by (simp add: evicting_def)
  have "a = final 0 (L (p_id p))" using a(1) lru_okD(3) [OF store_invD(3) [OF inv], of "p_id p"] by simp
  then have l: "a \<in> set (L (p_id p))" using a(2) last_in_set [of "L (p_id p)"] by (simp add: final_def split: if_splits)
  then obtain xs ys where L: "L (p_id p) = xs @ a # ys" by (auto dest: split_list)
  note nx = pull_next [OF inv L]
  have nin: "final 0 xs = 0 \<or> final 0 xs \<in> set (L (p_id p)) \<and> final 0 xs \<noteq> a"
    using L lists_okD(2) [OF lru_okD(1) [OF store_invD(3) [OF inv]], of "p_id p"] by (auto simp: final_def)
  from pull_item_ok [OF inv l few refl norepair q, of 0] obtain r where r: "pull_item p a (item_hv s a) 0 s = Some r" "pull_ok p s L R a r" by blast
  have eq: "lru_pull_tail p s = (case r of
      Pull_on n u \<Rightarrow> Option.bind (pull_loop p 4 (final 0 xs) n u) (pull_end p) | Pull_stop it m n ret u \<Rightarrow> pull_end p (Inr r))"
    using p a r(1) unfolding lru_pull_tail_def a(1) by (subst pull_loop.simps) (simp add: nx(1) Let_def split: pull_step.split)
  have rt: "p_flags p AND LRU_PULL_RETURN_ITEM \<noteq> 0 \<Longrightarrow> p_cur_lru p = COLD_LRU \<and> p_flags p AND LRU_PULL_EVICT = 0" using p(3) by simp
  show ?thesis
  proof (cases r)
    case (Pull_on n u)
    with r(2) p(1) obtain M X where M: "store_inv u M R" "pulled s L X u M" "X \<subseteq> {a}" "\<forall>b\<in>X. item_dead s b" "a \<in> X"
      "\<forall>b\<in>set (L (p_id p)). b \<noteq> a \<longrightarrow> b \<in> set (M (p_id p))" by (auto simp: pull_on_ok_def)
    have "drained 0 s L u M" unfolding drained_def using M(2,4) by (intro exI [of _ X] exI [of _ "{}"]) simp
    note d = this drained_settings [OF this]
    have "st_tail_repair_time (settings u) = 0" using norepair d(2) by simp
    moreover have "final 0 xs = 0 \<or> final 0 xs \<in> set (M (p_id p))" using nin M(6) by blast
    ultimately obtain r' where r': "pull_loop p 4 (final 0 xs) n u = Some r'" "loop_ok p u M R r'" using pull_loop_ok [OF M(1) _ few _ q] by blast
    from pull_end_ok [OF r'(2) rt] obtain n' rt t where t: "pull_end p r' = Some (n', rt, t)" "tail_ok p u M R rt t" by blast
    from tail_drained [OF t(2) p(3)] obtain N where N: "store_inv t N R" "drained (of_bool (evicting p u)) u M t N" by blast
    have "\<not> is_linked N a" using drained_settings(3) [OF N(2), of a] M(2,5) by (auto simp: pulled_def)
    moreover have "drained 1 s L t N" using drained_mono [OF drained_trans [OF d(1) N(2)]] by simp
    ultimately show ?thesis using eq Pull_on r'(1) t(1) N(1) by auto
  next
    case (Pull_stop it m n ret u)
    with r(2) have "pull_stop_ok p s L R a m ret u" "it = a" by simp_all
    from pull_end_stop [OF inv l this(1) rt] obtain v N Y where v: "pull_end p (Inr (Pull_stop a m n ret u)) = Some (n, ret, v)"
      "pulled s L Y v N" "Y \<subseteq> {a}" "Y \<noteq> {} \<longleftrightarrow> evicting p s" "store_inv v N (case ret of None \<Rightarrow> R | Some (it, hv) \<Rightarrow> R(it := R it + 1))"
      "\<forall>b hv. ret = Some (b, hv) \<longrightarrow> p_flags p AND LRU_PULL_RETURN_ITEM \<noteq> 0 \<and> is_linked N b \<and> hv = item_hv s b" by blast
    have Y: "Y = {a}" using v(3,4) p(1) by blast
    have "ret = None" using v(6) p(3) by (cases ret) auto
    then have "store_inv v N R" using v(5) by simp
    moreover have "drained 1 s L v N" unfolding drained_def using v(2) Y p(1)
      by (intro exI [of _ Y] exI [of _ "{a}"]) (simp add: evicting_def)
    moreover have "\<not> is_linked N a" using v(2) Y by (simp add: pulled_def)
    ultimately show ?thesis using eq Pull_stop v(1) \<open>it = a\<close> by auto
  qed
qed

text \<open>A chunk of the class that nobody uses is on the free list.\<close>

lemma unused_is_free:
  assumes "store_inv t M R" "x \<in> chunks t cid" "R x = 0" "\<not> is_linked M x"
  shows "free_list t cid \<noteq> []"
proof -
  have "(cid, x) \<notin> slab_live t" using store_invD(4) [OF assms(1)] assms(3,4) by (auto simp: in_use_def)
  then show ?thesis using assms(2) by (auto simp: slab_live_def)
qed

lemma alloc_with_free:
  assumes inv: "store_inv s L R" and fresh: "malloc_fresh s (e_malloc_ret (env i)) (page_len s cid)" and free: "free_list s cid \<noteq> []"
    and seg: "st_lru_segmented (settings s)" and i: "i < 10"
  shows "\<exists>it j t. alloc_pull_loop env cid i s = Some (it, j, t) \<and> it \<noteq> 0"
proof -
  have c: "class_range s cid" using free by (auto simp: free_list_def split: if_splits)
  from slabs_alloc_obtained [OF inv fresh, where ro = "e_realloc_ok (env i)"] c free obtain it t where
    "do_slabs_alloc (e_realloc_ok (env i)) (e_malloc_ret (env i)) cid 0 s = Some (it, t)" "it \<noteq> 0" by blast
  then show ?thesis using seg i by (subst alloc_pull_loop.simps) simp
qed

end
