(* ===== verification/Lru_Maintainer.thy ===== *)
theory Lru_Maintainer
  imports Item_Alloc
begin

text \<open>
  The rounds of the background thread that keeps the LRU queues in shape (\<^verbatim>\<open>lru_maintainer_juggle\<close> and
  \<^verbatim>\<open>lru_maintainer_bumps\<close> of \<^verbatim>\<open>src/memcached-sr/items.c\<close>).  Which item locks can be taken is an argument, as is the
  number of entries that are contiguous in the bump buffer; products with the configured age factors are exact
  instead of floating point.  A round forgets only dead items.
\<close>

section \<open>lru\_maintainer\_juggle\<close>

text \<open>The arguments of a search: \<open>lk\<close> tells which item locks can be taken.\<close>

definition juggle_args :: "(nat \<Rightarrow> u32 \<Rightarrow> bool) \<Rightarrow> u8 \<Rightarrow> u8 \<Rightarrow> u64 \<Rightarrow> u8 \<Rightarrow> u32 \<Rightarrow> pull_args" where
  "juggle_args lk cid cur_lru total_bytes flags max_age =
     \<lparr>p_orig_id = cid, p_cur_lru = cur_lru, p_total_bytes = total_bytes, p_flags = flags, p_max_age = max_age,
      p_trylock = lk, p_reassign_lock = True\<rparr>"

text \<open>The loop over the queue of short-lived items: at most \<open>n\<close> more rounds.\<close>

fun temp_loop :: "(nat \<Rightarrow> nat \<Rightarrow> u32 \<Rightarrow> bool) \<Rightarrow> u8 \<Rightarrow> nat \<Rightarrow> nat \<Rightarrow> items_state \<Rightarrow> (nat \<times> items_state) option" where
  "temp_loop lk cid 0 did_moves s = Some (did_moves, s)"
| "temp_loop lk cid (Suc n) did_moves s =
     Option.bind (lru_pull_tail (juggle_args (lk n) cid TEMP_LRU 0 0 0) s)
       (\<lambda>(r, it, s1). if r = 0 then Some (did_moves, s1) else temp_loop lk cid n (did_moves + 1) s1)"

definition scaled_age :: "u32 \<Rightarrow> rat \<Rightarrow> u32" where
  "scaled_age age factor = word_of_int \<lfloor>of_nat (unat age) * factor\<rfloor>"

text \<open>One pass over the hot, warm and cold queues: the sum of what was removed or moved.\<close>

definition juggle_pass ::
  "(nat \<Rightarrow> nat \<Rightarrow> u32 \<Rightarrow> bool) \<Rightarrow> u8 \<Rightarrow> u64 \<Rightarrow> u32 \<Rightarrow> u32 \<Rightarrow> items_state \<Rightarrow> (nat \<times> items_state) option" where
  "juggle_pass lk cid total_bytes hot_age warm_age s =
     Option.bind (lru_pull_tail (juggle_args (lk 0) cid HOT_LRU total_bytes LRU_PULL_CRAWL_BLOCKS hot_age) s) (\<lambda>(h, it, s1).
     Option.bind (if h \<noteq> 0 then Some (1, s1)
                  else map_option (\<lambda>(w, it, t). (if w \<noteq> 0 then 1 else 0, t))
                    (lru_pull_tail (juggle_args (lk 1) cid WARM_LRU total_bytes LRU_PULL_CRAWL_BLOCKS warm_age) s1)) (\<lambda>(do_more, s2).
     if st_lru_segmented (settings s2)
     then map_option (\<lambda>(c, it, t). (do_more + c, t))
            (lru_pull_tail (juggle_args (lk 2) cid COLD_LRU total_bytes LRU_PULL_CRAWL_BLOCKS 0) s2)
     else Some (do_more, s2)))"

fun juggle_loop ::
  "(nat \<Rightarrow> nat \<Rightarrow> nat \<Rightarrow> u32 \<Rightarrow> bool) \<Rightarrow> u8 \<Rightarrow> u64 \<Rightarrow> u32 \<Rightarrow> u32 \<Rightarrow> nat \<Rightarrow> nat \<Rightarrow> items_state \<Rightarrow> (nat \<times> items_state) option" where
  "juggle_loop lk cid total_bytes hot_age warm_age 0 did_moves s = Some (did_moves, s)"
| "juggle_loop lk cid total_bytes hot_age warm_age (Suc n) did_moves s =
     Option.bind (juggle_pass (lk n) cid total_bytes hot_age warm_age s)
       (\<lambda>(do_more, s1). if do_more = 0 then Some (did_moves, s1)
                        else juggle_loop lk cid total_bytes hot_age warm_age n (did_moves + 1) s1)"

text \<open>The number of rounds that moved something.\<close>

definition lru_maintainer_juggle ::
  "(nat \<Rightarrow> nat \<Rightarrow> u32 \<Rightarrow> bool) \<Rightarrow> (nat \<Rightarrow> nat \<Rightarrow> nat \<Rightarrow> u32 \<Rightarrow> bool) \<Rightarrow> u8 \<Rightarrow> items_state \<Rightarrow> (nat \<times> items_state) option" where
  "lru_maintainer_juggle lkt lk cid s =
     Option.bind (if st_temp_lru (settings s) then temp_loop lkt cid 500 0 s else Some (0, s)) (\<lambda>(did_moves, s1).
     let tail = tails s1 (cid OR COLD_LRU);
         cold_age = (if st_lru_segmented (settings s1) \<and> tail \<noteq> 0 then current_time s1 - it_time (heap s1 tail) else 0);
         (total_bytes, hot_age, warm_age) =
           (if st_lru_segmented (settings s1)
            then (sizes_bytes s1 (cid OR COLD_LRU) + sizes_bytes s1 (cid OR HOT_LRU) + sizes_bytes s1 (cid OR WARM_LRU),
                  scaled_age cold_age (st_hot_max_factor (settings s1)), scaled_age cold_age (st_warm_max_factor (settings s1)))
            else (0, 0, 0))
     in juggle_loop lk cid total_bytes hot_age warm_age 500 did_moves s1)"

section \<open>lru\_maintainer\_bumps\<close>

fun bump_entries :: "(nat \<times> u32) list \<Rightarrow> items_state \<Rightarrow> items_state option" where
  "bump_entries [] s = Some s"
| "bump_entries ((it, hv) # es) s = Option.bind (do_item_remove it (do_item_update it s)) (bump_entries es)"

text \<open>\<open>n\<close>: how many entries \<^verbatim>\<open>bipbuf_peek_all\<close> returns; 0 when the buffer is empty.\<close>

definition lru_maintainer_bumps :: "nat \<Rightarrow> items_state \<Rightarrow> (bool \<times> items_state) option" where
  "lru_maintainer_bumps n s =
     (let es = take n (bump_buf s) in
      if es = [] then Some (False, s)
      else map_option (\<lambda>t. (True, t\<lparr>bump_buf := drop (length es) (bump_buf t)\<rparr>)) (bump_entries es s))"

section \<open>The searches keep the invariant and forget only dead items\<close>

lemma juggle_search:
  assumes "store_inv s L R" and "\<And>a. R a + 2 < 2 ^ 16" and "st_tail_repair_time (settings s) = 0"
    and "cur_lru \<in> {HOT_LRU, WARM_LRU, COLD_LRU, TEMP_LRU}" "flags \<in> {0, LRU_PULL_CRAWL_BLOCKS}"
  shows "\<exists>n r t M. lru_pull_tail (juggle_args lk cid cur_lru tb flags age) s = Some (n, r, t) \<and> store_inv t M R \<and> drained 0 s L t M"
proof -
  let ?p = "juggle_args lk cid cur_lru tb flags age"
  have f: "p_flags ?p AND LRU_PULL_RETURN_ITEM = 0" "\<not> evicting ?p s" using assms(5) by (auto simp: juggle_args_def evicting_def)
  have "\<exists>n r t. lru_pull_tail ?p s = Some (n, r, t) \<and> tail_ok ?p s L R r t"
    by (rule lru_pull_tail_ok [OF assms(1-3)]) (use assms(4) f in \<open>auto simp: juggle_args_def\<close>)
  then show ?thesis using tail_drained [OF _ f(1)] f(2) by fastforce
qed

text \<open>The shape of the statements below, and how they chain.\<close>

definition reaps :: "items_state \<Rightarrow> (u8 \<Rightarrow> nat list) \<Rightarrow> (nat \<Rightarrow> nat) \<Rightarrow> (nat \<times> items_state) option \<Rightarrow> bool" where
  "reaps s L R r \<longleftrightarrow> (\<exists>n t M. r = Some (n, t) \<and> store_inv t M R \<and> drained 0 s L t M)"

lemma reapsI: "store_inv t M R \<Longrightarrow> drained 0 s L t M \<Longrightarrow> reaps s L R (Some (n, t))"
  by (auto simp: reaps_def)

lemma reaps_trans: "drained 0 s L t M \<Longrightarrow> reaps t M R r \<Longrightarrow> reaps s L R r"
  unfolding reaps_def using drained_trans [of 0 s L t M 0] by fastforce

lemma norepair_drained: "drained k s L t M \<Longrightarrow> st_tail_repair_time (settings s) = 0 \<Longrightarrow> st_tail_repair_time (settings t) = 0"
  by (simp add: drained_settings(1))

lemma temp_loop_reaps:
  assumes "store_inv s L R" and few: "\<And>a. R a + 2 < 2 ^ 16" and "st_tail_repair_time (settings s) = 0"
  shows "reaps s L R (temp_loop lk cid n did s)"
  using assms(1,3)
proof (induction n arbitrary: did s L)
  case 0
  then show ?case by (simp add: reapsI drained_refl)
next
  case (Suc n)
  from juggle_search [OF Suc.prems(1) few Suc.prems(2), where cur_lru = TEMP_LRU and flags = 0 and lk = "lk n" and cid = cid and tb = 0 and age = 0]
  obtain k r t M where t: "lru_pull_tail (juggle_args (lk n) cid TEMP_LRU 0 0 0) s = Some (k, r, t)" "store_inv t M R" "drained 0 s L t M" by auto
  have "reaps s L R (temp_loop lk cid n (did + 1) t)"
    by (rule reaps_trans [OF t(3) Suc.IH [OF t(2) norepair_drained [OF t(3) Suc.prems(2)]]])
  then show ?case using t by (simp add: reapsI)
qed

lemma juggle_pass_reaps:
  assumes inv: "store_inv s L R" and few: "\<And>a. R a + 2 < 2 ^ 16" and nr: "st_tail_repair_time (settings s) = 0"
  shows "reaps s L R (juggle_pass lk cid tb ha wa s)"
proof -
  note search = juggle_search [OF _ few, where flags = LRU_PULL_CRAWL_BLOCKS and cid = cid and tb = tb]
  from search [OF inv nr, where cur_lru = HOT_LRU and lk = "lk 0" and age = ha] obtain h r s1 M where s1:
    "lru_pull_tail (juggle_args (lk 0) cid HOT_LRU tb LRU_PULL_CRAWL_BLOCKS ha) s = Some (h, r, s1)" "store_inv s1 M R" "drained 0 s L s1 M" by auto
  note n1 = norepair_drained [OF s1(3) nr]
  define r2 where "r2 = (if h \<noteq> 0 then Some (1 :: nat, s1)
    else map_option (\<lambda>(w, it, t). (if w \<noteq> 0 then 1 else 0, t))
      (lru_pull_tail (juggle_args (lk 1) cid WARM_LRU tb LRU_PULL_CRAWL_BLOCKS wa) s1))"
  from search [OF s1(2) n1, where cur_lru = WARM_LRU and lk = "lk 1" and age = wa] obtain w r' t N' where t:
    "lru_pull_tail (juggle_args (lk 1) cid WARM_LRU tb LRU_PULL_CRAWL_BLOCKS wa) s1 = Some (w, r', t)" "store_inv t N' R" "drained 0 s1 M t N'" by auto
  have "reaps s1 M R r2" using reapsI [OF t(2,3)] reapsI [OF s1(2) drained_refl] by (simp add: r2_def t(1) del: One_nat_def)
  then obtain m s2 N where s2: "r2 = Some (m, s2)" "store_inv s2 N R" "drained 0 s1 M s2 N" by (auto simp: reaps_def)
  have d: "drained 0 s L s2 N" using drained_trans [OF s1(3) s2(3)] by simp
  from search [OF s2(2) norepair_drained [OF d nr], where cur_lru = COLD_LRU and lk = "lk 2" and age = 0] obtain c r3 s3 N3 where s3:
    "lru_pull_tail (juggle_args (lk 2) cid COLD_LRU tb LRU_PULL_CRAWL_BLOCKS 0) s2 = Some (c, r3, s3)" "store_inv s3 N3 R" "drained 0 s2 N s3 N3" by auto
  have "juggle_pass lk cid tb ha wa s = (if st_lru_segmented (settings s2) then Some (m + c, s3) else Some (m, s2))"
    unfolding juggle_pass_def s1(1) Option.bind.bind_lunit prod.case r2_def [symmetric] s2(1) s3(1) by simp
  then show ?thesis using reapsI [OF s2(2) d] reapsI [OF s3(2)] drained_trans [OF d s3(3)] by simp
qed

lemma juggle_loop_reaps:
  assumes "store_inv s L R" and few: "\<And>a. R a + 2 < 2 ^ 16" and "st_tail_repair_time (settings s) = 0"
  shows "reaps s L R (juggle_loop lk cid tb ha wa n did s)"
  using assms(1,3)
proof (induction n arbitrary: did s L)
  case 0
  then show ?case by (simp add: reapsI drained_refl)
next
  case (Suc n)
  from juggle_pass_reaps [OF Suc.prems(1) few Suc.prems(2), where lk = "lk n" and cid = cid and tb = tb and ha = ha and wa = wa]
  obtain k t M where t: "juggle_pass (lk n) cid tb ha wa s = Some (k, t)" "store_inv t M R" "drained 0 s L t M" by (auto simp: reaps_def)
  have "reaps s L R (juggle_loop lk cid tb ha wa n (did + 1) t)"
    by (rule reaps_trans [OF t(3) Suc.IH [OF t(2) norepair_drained [OF t(3) Suc.prems(2)]]])
  then show ?case using t by (simp add: reapsI)
qed

lemma lru_maintainer_juggle_reaps:
  assumes inv: "store_inv s L R" and few: "\<And>a. R a + 2 < 2 ^ 16" and nr: "st_tail_repair_time (settings s) = 0"
  shows "reaps s L R (lru_maintainer_juggle lkt lk cid s)"
proof -
  have "reaps s L R (if st_temp_lru (settings s) then temp_loop lkt cid 500 0 s else Some (0, s))"
    using temp_loop_reaps [OF inv few nr] reapsI [OF inv drained_refl] by (simp del: temp_loop.simps)
  then obtain d s1 M where s1: "(if st_temp_lru (settings s) then temp_loop lkt cid 500 0 s else Some (0, s)) = Some (d, s1)"
    "store_inv s1 M R" "drained 0 s L s1 M" by (auto simp: reaps_def)
  have "reaps s L R (juggle_loop lk cid tb ha wa 500 d s1)" for tb ha wa
    by (rule reaps_trans [OF s1(3) juggle_loop_reaps [OF s1(2) few norepair_drained [OF s1(3) nr]]])
  then show ?thesis unfolding lru_maintainer_juggle_def s1(1) Option.bind.bind_lunit prod.case Let_def
    by (cases "st_lru_segmented (settings s1)") (simp_all only: if_True if_False prod.case)
qed

section \<open>The bump buffer\<close>

lemma bump_entries_ok:
  assumes "store_inv s L R" "\<And>a. count_list (map fst es) a \<le> R a"
  shows "\<exists>t M. bump_entries es s = Some t \<and> store_inv t M (\<lambda>a. R a - count_list (map fst es) a) \<and>
    index_find (tab t) = index_find (tab s) \<and> bump_buf t = bump_buf s \<and> same_setting s t"
  using assms
proof (induction es arbitrary: s L R)
  case Nil
  then show ?case by auto
next
  case (Cons e es)
  obtain it hv where e: "e = (it, hv)" by fastforce
  have held: "0 < R it" using Cons.prems(2) [of it] by (simp add: e)
  let ?s = "do_item_update it s"
  have use: "in_use L R it" using held by (simp add: in_use_def)
  note u = do_item_update_inv [OF Cons.prems(1) use]
  from do_item_remove_inv [OF u(1) held] obtain t where t: "do_item_remove it ?s = Some t"
    "store_inv t (updated_queues s L it) (R(it := R it - 1))" "tab t = tab ?s" "slabs_state.more t = slabs_state.more ?s"
    "settings t = settings ?s" "same_pages ?s t" by blast
  have le: "count_list (map fst es) a \<le> (R(it := R it - 1)) a" for a using Cons.prems(2) [of a] by (auto simp: e)
  from Cons.IH [OF t(2) le] obtain v M where v: "bump_entries es t = Some v"
    "store_inv v M (\<lambda>a. (R(it := R it - 1)) a - count_list (map fst es) a)" "index_find (tab v) = index_find (tab t)"
    "bump_buf v = bump_buf t" "same_setting t v" by blast
  have "(\<lambda>a. (R(it := R it - 1)) a - count_list (map fst es) a) = (\<lambda>a. R a - count_list (map fst (e # es)) a)" by (auto simp: e)
  moreover have "tab t = tab s" using t(3) u(2) by (simp add: same_index_state_def)
  moreover have "bump_buf t = bump_buf s" using more_fields(10) [OF t(4)] u(3) by simp
  moreover have "same_setting s v"
    using same_setting_trans [OF same_index_state_setting [OF u(2)] same_setting_trans [OF same_setting_more [OF t(4-6)] v(5)]] .
  ultimately show ?case using t(1) v by (auto simp: e)
qed

lemma lru_maintainer_bumps_ok:
  assumes "store_inv s L (refs s R)"
  shows "\<exists>b t. lru_maintainer_bumps n s = Some (b, t) \<and> store_ok t R \<and> index_find (tab t) = index_find (tab s) \<and> same_setting s t"
proof (cases "take n (bump_buf s) = []")
  case True
  then show ?thesis using assms by (auto simp: lru_maintainer_bumps_def store_ok_def)
next
  case False
  let ?es = "take n (bump_buf s)"
  have split: "count_list (map fst (bump_buf s)) a = count_list (map fst ?es) a + count_list (map fst (drop n (bump_buf s))) a" for a
    by (metis append_take_drop_id count_list_append map_append)
  then have "count_list (map fst ?es) a \<le> refs s R a" for a by (simp add: refs_def)
  from bump_entries_ok [OF assms this] obtain t M where t: "bump_entries ?es s = Some t"
    "store_inv t M (\<lambda>a. refs s R a - count_list (map fst ?es) a)" "index_find (tab t) = index_find (tab s)" "bump_buf t = bump_buf s"
    "same_setting s t" by blast
  let ?t = "t\<lparr>bump_buf := drop n (bump_buf t)\<rparr>"
  have "drop (length ?es) (bump_buf t) = drop n (bump_buf t)" using t(4) by (simp add: min_def)
  then have eq: "lru_maintainer_bumps n s = Some (True, ?t)" using False t(1) by (simp add: lru_maintainer_bumps_def Let_def)
  have "refs ?t R = (\<lambda>a. refs s R a - count_list (map fst ?es) a)" using split t(4) by (simp add: refs_def fun_eq_iff)
  moreover have "store_inv ?t M (\<lambda>a. refs s R a - count_list (map fst ?es) a)" by (rule store_inv_other [OF t(2)]) (simp_all add: same_core_def)
  ultimately have "store_ok ?t R" by (auto simp: store_ok_def)
  moreover have "same_setting s ?t" using t(5) same_pages_trans [OF _ same_pages_core, of s t ?t]
    by (simp add: same_setting_def item_key_def fun_eq_iff same_core_def)
  ultimately show ?thesis using eq t(3) by auto
qed

end
