(* ===== verification/Store_Run.thy ===== *)
theory Store_Run
  imports Lru_Maintainer
begin

text \<open>
  The item store as a system of steps: the operations the worker threads call on the items they hold references to,
  the rounds of the background threads, and the clock.  \<open>R\<close> counts the references the workers hold.  In every
  reachable state the index, the queues, the reference counts and the allocator agree.
\<close>

section \<open>Each operation keeps the store well formed\<close>

text \<open>The reference counts are 16-bit numbers; a step takes at most three references more.\<close>

definition few_refs :: "items_state \<Rightarrow> (nat \<Rightarrow> nat) \<Rightarrow> bool" where
  "few_refs s R \<longleftrightarrow> (\<forall>a. refs s R a + 3 < 2 ^ 16)"

definition linked_flag :: "items_state \<Rightarrow> nat \<Rightarrow> bool" where
  "linked_flag s a \<longleftrightarrow> it_flags (heap s a) AND ITEM_LINKED \<noteq> 0"

lemma few_refsD: "few_refs s R \<Longrightarrow> refs s R a + 3 < 2 ^ 16" "few_refs s R \<Longrightarrow> refs s R a + 2 < 2 ^ 16"
proof -
  show "refs s R a + 3 < 2 ^ 16" if "few_refs s R" using that by (simp add: few_refs_def)
  then show "refs s R a + 2 < 2 ^ 16" if "few_refs s R" using that by simp
qed

lemma held_refs: "0 < R a \<Longrightarrow> 0 < refs s R a"
  by (simp add: refs_def)

lemma flag_linked: "store_inv s L R \<Longrightarrow> in_use L R a \<Longrightarrow> linked_flag s a \<longleftrightarrow> is_linked L a"
  using item_okD(3) [OF store_invD(5)] by (simp add: linked_flag_def flag_bits(1))

lemma do_item_link_bump: "bump_buf (do_item_link it hv s) = bump_buf s"
proof -
  have a: "bump_buf (item_stats_sizes_add it u) = bump_buf u" for u by (simp add: item_stats_sizes_add_def Let_def split: option.split)
  have q: "bump_buf (refcount_incr it u) = bump_buf u" "bump_buf (do_item_link_q it u) = bump_buf u" "bump_buf (upd_item it g u) = bump_buf u"
    "bump_buf (snd (get_cas_id u)) = bump_buf u" for u g
    by (simp_all add: refcount_incr_def upd_item_def do_item_link_q_def Let_def get_cas_id_def)
  show ?thesis unfolding do_item_link_def Let_def split_beta a q by (simp add: q)
qed

lemma link_store_ok:
  assumes ok: "store_ok s R" and it: "0 < R it" "\<not> linked_flag s it" "index_find (tab s) (item_key s it) = None" and few: "few_refs s R"
  shows "store_ok (do_item_link it (item_hv s it) s) R"
    "index_find (tab (do_item_link it (item_hv s it) s)) = (index_find (tab s))(item_key s it \<mapsto> it)"
proof -
  obtain L where inv: "store_inv s L (refs s R)" using ok by (auto simp: store_ok_def)
  have use: "in_use L (refs s R) it" using held_refs [of R it s, OF it(1)] by (simp add: in_use_def)
  have nl: "\<not> is_linked L it" using flag_linked [OF inv use] it(2) by simp
  have "refs s R it + 1 < 2 ^ 16" using few_refsD(1) [OF few, of it] by simp
  note i = do_item_link_inv [OF inv held_refs [of R it s, OF it(1)] nl it(3) refl refl this]
  show "store_ok (do_item_link it (item_hv s it) s) R" by (rule store_okI [OF i(1) do_item_link_bump])
  show "index_find (tab (do_item_link it (item_hv s it) s)) = (index_find (tab s))(item_key s it \<mapsto> it)" by (rule i(2))
qed

lemma unlink_store_ok:
  assumes ok: "store_ok s R" and it: "0 < R it"
  shows "\<exists>t. do_item_unlink it (item_hv s it) s = Some t \<and> store_ok t R \<and> same_setting s t \<and> bump_buf t = bump_buf s \<and>
    \<not> linked_flag t it \<and>
    index_find (tab t) = (if linked_flag s it then (index_find (tab s))(item_key s it := None) else index_find (tab s))"
proof -
  obtain L where inv: "store_inv s L (refs s R)" using ok by (auto simp: store_ok_def)
  have use: "in_use L (refs s R) it" using held_refs [of R it s, OF it] by (simp add: in_use_def)
  show ?thesis
  proof (cases "linked_flag s it")
    case True
    then obtain q ys zs where q: "L q = ys @ it # zs" using flag_linked [OF inv use] by (auto simp: is_linked_def dest: split_list)
    from do_item_unlink_inv [OF inv q refl] obtain t where t: "do_item_unlink it (item_hv s it) s = Some t"
      "store_inv t (L(q := ys @ zs)) (refs s R)" "index_find (tab t) = (index_find (tab s))(item_key s it := None)" "same_setting s t"
      "bump_buf t = bump_buf s" by blast
    have "in_use (L(q := ys @ zs)) (refs s R) it" using held_refs [of R it s, OF it] by (simp add: in_use_def)
    then have "\<not> linked_flag t it" using flag_linked [OF t(2)] is_linked_removed [OF store_invD(3) [OF inv] q] by blast
    then show ?thesis using t True store_okI [OF t(2,5)] by auto
  next
    case False
    then have "do_item_unlink it (item_hv s it) s = Some s" by (simp add: do_item_unlink_def linked_flag_def)
    then show ?thesis using False ok by (auto simp: same_setting_def)
  qed
qed

lemma remove_store_ok:
  assumes ok: "store_ok s R" and it: "0 < R it"
  shows "\<exists>t. do_item_remove it s = Some t \<and> store_ok t (R(it := R it - 1)) \<and> tab t = tab s"
proof -
  obtain L where inv: "store_inv s L (refs s R)" using ok by (auto simp: store_ok_def)
  from do_item_remove_inv [OF inv held_refs [of R it s, OF it]] obtain t where t: "do_item_remove it s = Some t"
    "store_inv t L ((refs s R)(it := refs s R it - 1))" "tab t = tab s" "slabs_state.more t = slabs_state.more s" by blast
  have "refs t (R(it := R it - 1)) = (refs s R)(it := refs s R it - 1)"
    using it more_fields(10) [OF t(4)] by (auto simp: refs_def fun_eq_iff)
  then show ?thesis using t by (auto simp: store_ok_def)
qed

lemma replace_store_ok:
  assumes ok: "store_ok s R" and it: "0 < R it" "linked_flag s it" and new: "0 < R new_it" "\<not> linked_flag s new_it"
    and key: "item_key s new_it = item_key s it" and few: "few_refs s R"
  shows "\<exists>t. do_item_replace it new_it (item_hv s it) s = Some t \<and> store_ok t R \<and>
    index_find (tab t) = (index_find (tab s))(item_key s it \<mapsto> new_it)"
proof -
  obtain L where inv: "store_inv s L (refs s R)" using ok by (auto simp: store_ok_def)
  have use: "in_use L (refs s R) it" "in_use L (refs s R) new_it" using held_refs [of R it s, OF it(1)] held_refs [of R new_it s, OF new(1)] by (simp_all add: in_use_def)
  obtain q ys zs where q: "L q = ys @ it # zs" using it(2) flag_linked [OF inv use(1)] by (auto simp: is_linked_def dest: split_list)
  from do_item_unlink_inv [OF inv q refl] obtain t where t: "do_item_unlink it (item_hv s it) s = Some t"
    "store_inv t (L(q := ys @ zs)) (refs s R)" "index_find (tab t) = (index_find (tab s))(item_key s it := None)" "same_setting s t"
    "bump_buf t = bump_buf s" by blast
  have k: "item_key t = item_key s" "item_hv t new_it = item_hv s it"
    using t(4) key by (simp_all add: same_setting_def item_hv_def)
  have "\<not> is_linked L new_it" using flag_linked [OF inv use(2)] new(2) by simp
  then have "\<not> is_linked (L(q := ys @ zs)) new_it" using is_linked_removed [OF store_invD(3) [OF inv] q] by blast
  moreover have "in_use (L(q := ys @ zs)) (refs s R) new_it" using held_refs [of R new_it s, OF new(1)] by (simp add: in_use_def)
  ultimately have "\<not> linked_flag t new_it" using flag_linked [OF t(2)] by blast
  moreover have "index_find (tab t) (item_key t new_it) = None" using t(3) by (simp add: k key)
  moreover have "few_refs t R" using few refs_cong [OF t(5)] by (simp add: few_refs_def)
  ultimately have "store_ok (do_item_link new_it (item_hv t new_it) t) R"
    "index_find (tab (do_item_link new_it (item_hv t new_it) t)) = (index_find (tab t))(item_key t new_it \<mapsto> new_it)"
    using link_store_ok [OF store_okI [OF t(2,5)] new(1)] by blast+
  then show ?thesis using t(1,3) by (simp add: do_item_replace_def k key)
qed

lemma get_store_ok:
  assumes ok: "store_ok s R" and few: "few_refs s R"
  shows "\<exists>it t. do_item_get room key (hash_fn (tab s) key) upd s = Some (it, t) \<and> same_setting s t \<and>
    store_ok t (if it = 0 then R else R(it := R it + 1)) \<and>
    (case index_find (tab s) key of
       None \<Rightarrow> it = 0 \<and> t = s
     | Some a \<Rightarrow> a \<noteq> 0 \<and> it = (if item_dead s a then 0 else a) \<and>
         index_find (tab t) = (if item_dead s a then (index_find (tab s))(key := None) else index_find (tab s)))"
proof -
  obtain L where inv: "store_inv s L (refs s R)" using ok by (auto simp: store_ok_def)
  show ?thesis
  proof (cases "index_find (tab s) key")
    case None
    then have "do_item_get room key (hash_fn (tab s) key) upd s = Some (0, s)"
      unfolding do_item_get_def assoc_find_index [OF store_invD(2) [OF inv]] None by simp
    then show ?thesis using None ok by (auto simp: same_setting_def)
  next
    case (Some a)
    then have "is_linked L a" using store_invD(6) [OF inv] by blast
    then have "a \<noteq> 0" using store_invD(10) [OF inv] by (simp add: in_use_def)
    with do_item_get_inv [OF inv refl few_refsD(1) [OF few] Some, of room upd] Some show ?thesis by auto
  qed
qed

lemma touch_store_ok:
  assumes ok: "store_ok s R" and few: "few_refs s R"
  shows "\<exists>it t. do_item_touch room key exptime (hash_fn (tab s) key) s = Some (it, t) \<and>
    store_ok t (if it = 0 then R else R(it := R it + 1)) \<and> (it \<noteq> 0 \<longrightarrow> it_exptime (heap t it) = exptime)"
proof -
  from get_store_ok [OF assms, where room = room and key = key and upd = True] obtain it t where
    t: "do_item_get room key (hash_fn (tab s) key) True s = Some (it, t)" "store_ok t (if it = 0 then R else R(it := R it + 1))" by blast
  show ?thesis
  proof (cases "it = 0")
    case True
    then show ?thesis using t by (simp add: do_item_touch_def)
  next
    case False
    let ?R = "R(it := R it + 1)" and ?t = "upd_item it (\<lambda>i. i\<lparr>it_exptime := exptime\<rparr>) t"
    obtain L where inv: "store_inv t L (refs t ?R)" using t(2) False by (auto simp: store_ok_def)
    have use: "in_use L (refs t ?R) it" by (simp add: in_use_def refs_def)
    have "store_inv ?t L (refs t ?R)"
      by (rule store_touch [OF inv use]) (use store_invD(5) [OF inv use] in \<open>simp_all add: same_place_def item_ok_def ITEM_ntotal_def\<close>)
    then have "store_ok ?t ?R" by (rule store_okI) (simp add: upd_item_def)
    then show ?thesis using t(1) False by (simp add: do_item_touch_def)
  qed
qed

lemma clock_store_ok: "store_ok s R \<Longrightarrow> store_ok (s\<lparr>current_time := now\<rparr>) R"
proof -
  assume "store_ok s R"
  then obtain L where inv: "store_inv s L (refs s R)" by (auto simp: store_ok_def)
  have "store_inv (s\<lparr>current_time := now\<rparr>) L (refs s R)" by (rule store_inv_other [OF inv]) (simp_all add: same_core_def)
  then show ?thesis by (rule store_okI) simp
qed

section \<open>What allocations and the background threads forget\<close>

text \<open>
  From \<open>s\<close> to \<open>t\<close> no key was added to the index or bound to another item; all items that are no longer found were dead,
  apart from at most \<open>k\<close> that were evicted.
\<close>

definition forgets_at_most :: "nat \<Rightarrow> items_state \<Rightarrow> items_state \<Rightarrow> bool" where
  "forgets_at_most k s t \<longleftrightarrow>
     index_find (tab t) \<subseteq>\<^sub>m index_find (tab s) \<and>
     (\<exists>V. finite V \<and> card V \<le> k \<and>
        (\<forall>key a. index_find (tab s) key = Some a \<longrightarrow>
           index_find (tab t) key = Some a \<or> item_dead s a \<or> a \<in> V \<and> st_evict_to_free (settings s)))"

lemma drained_forgets:
  assumes d: "drained k s L u M" and inv: "store_inv s L R" "store_inv t M R'" and key: "\<And>a. is_linked M a \<Longrightarrow> item_key t a = item_key u a"
  shows "forgets_at_most k s t"
proof -
  obtain X V where X: "pulled s L X u M" "finite V" "card V \<le> k"
    "\<forall>a\<in>X. is_linked L a \<longrightarrow> item_dead s a \<or> a \<in> V \<and> st_evict_to_free (settings s)" using d by (auto simp: drained_def)
  have find: "index_find (tab t) k = Some a \<longleftrightarrow> index_find (tab s) k = Some a \<and> a \<notin> X" for k a
    unfolding store_invD(6) [OF inv(1)] store_invD(6) [OF inv(2)] using X(1) key [of a] by (auto simp: pulled_def same_setting_def)
  have "index_find (tab t) k = Some a \<or> item_dead s a \<or> a \<in> V \<and> st_evict_to_free (settings s)" if "index_find (tab s) k = Some a" for k a
    using that X(4) store_invD(6) [OF inv(1), of k a] find by blast
  then show ?thesis unfolding forgets_at_most_def map_le_def using X(2,3) find by (metis domIff option.exhaust)
qed

lemma drained_store_ok:
  assumes "drained k s L t M" "store_inv s L (refs s R)" "store_inv t M (refs s R)"
  shows "store_ok t R" "forgets_at_most k s t"
proof -
  have "bump_buf t = bump_buf s" using assms(1) unfolding drained_def pulled_def by blast
  then show "store_ok t R" by (rule store_okI [OF assms(3)])
  show "forgets_at_most k s t" by (rule drained_forgets [OF assms]) simp
qed

lemma pull_store_ok:
  assumes ok: "store_ok s R" and few: "few_refs s R" and nr: "st_tail_repair_time (settings s) = 0"
    and p: "p_cur_lru p \<in> {HOT_LRU, WARM_LRU, COLD_LRU, TEMP_LRU}" "p_flags p AND LRU_PULL_RETURN_ITEM = 0"
  shows "\<exists>n r t. lru_pull_tail p s = Some (n, r, t) \<and> store_ok t R \<and> forgets_at_most (of_bool (evicting p s)) s t"
proof -
  obtain L where inv: "store_inv s L (refs s R)" using ok by (auto simp: store_ok_def)
  from lru_pull_tail_ok [OF inv few_refsD(2) [OF few] nr p(1)] p(2) obtain n r t where t: "lru_pull_tail p s = Some (n, r, t)" "tail_ok p s L (refs s R) r t" by blast
  from tail_drained [OF t(2) p(2)] obtain M where "store_inv t M (refs s R)" "drained (of_bool (evicting p s)) s L t M" by blast
  with t(1) inv drained_store_ok show ?thesis by blast
qed

lemma juggle_store_ok:
  assumes ok: "store_ok s R" and few: "few_refs s R" and nr: "st_tail_repair_time (settings s) = 0"
  shows "\<exists>n t. lru_maintainer_juggle lkt lk cid s = Some (n, t) \<and> store_ok t R \<and> forgets_at_most 0 s t"
proof -
  obtain L where inv: "store_inv s L (refs s R)" using ok by (auto simp: store_ok_def)
  from lru_maintainer_juggle_reaps [OF inv few_refsD(2) [OF few] nr] obtain n t M where
    "lru_maintainer_juggle lkt lk cid s = Some (n, t)" "store_inv t M (refs s R)" "drained 0 s L t M" unfolding reaps_def by blast
  with inv drained_store_ok show ?thesis by blast
qed

text \<open>The conditions of an allocation: an unchunked item, and \<^verbatim>\<open>malloc\<close> returns memory that is not in use.\<close>

definition may_alloc :: "(nat \<Rightarrow> alloc_env) \<Rightarrow> u8 list \<Rightarrow> u32 \<Rightarrow> u32 \<Rightarrow> items_state \<Rightarrow> bool" where
  "may_alloc env key flags nbytes s \<longleftrightarrow>
     unat (new_ntotal key flags nbytes s) \<le> st_slab_chunk_size_max (settings s) \<and>
     (\<forall>j c. malloc_fresh s (e_malloc_ret (env j)) (page_len s c)) \<and> st_tail_repair_time (settings s) = 0"

lemma alloc_store_ok:
  assumes ok: "store_ok s R" and few: "few_refs s R" and may: "may_alloc env key flags nbytes s"
  shows "\<exists>it t. do_item_alloc env key flags exptime nbytes s = Some (it, t) \<and> forgets_at_most 10 s t \<and>
    (if it = 0 then store_ok t R
     else R it = 0 \<and> store_ok t (R(it := 1)) \<and> \<not> linked_flag t it \<and> item_key t it = key \<and> it_exptime (heap t it) = exptime \<and>
       it_nbytes (heap t it) = nbytes)"
proof -
  obtain L where inv: "store_inv s L (refs s R)" using ok by (auto simp: store_ok_def)
  note m = may [unfolded may_alloc_def]
  have fresh: "malloc_fresh s (e_malloc_ret (env j)) (page_len s c)" for j c using m by blast
  from do_item_alloc_inv [of s L "refs s R" env, OF inv few_refsD(2) [OF few] _ fresh, of key flags nbytes exptime] m obtain it t u M where t:
    "do_item_alloc env key flags exptime nbytes s = Some (it, t)" "drained 10 s L u M" "store_inv u M (refs s R)" "same_store u (t\<lparr>tab := tab u\<rparr>)"
    "if it = 0 then store_inv t M (refs s R) \<and> tab t = tab u
     else refs s R it = 0 \<and> \<not> is_linked M it \<and> store_inv t M ((refs s R)(it := 1)) \<and> item_key t = (item_key u)(it := key) \<and>
       it_exptime (heap t it) = exptime \<and> it_nbytes (heap t it) = nbytes \<and> hash_fn (tab t) = hash_fn (tab u)" by blast
  have b: "bump_buf t = bump_buf s" using t(2,4) unfolding drained_def pulled_def same_store_def by auto
  show ?thesis
  proof (cases "it = 0")
    case True
    then have i: "store_inv t M (refs s R)" "tab t = tab u" using t(5) by simp_all
    have "forgets_at_most 10 s t" by (rule drained_forgets [OF t(2) inv i(1)]) (simp add: item_key_def i(2))
    then show ?thesis using True t(1) store_okI [OF i(1) b] by auto
  next
    case False
    then have i: "refs s R it = 0" "\<not> is_linked M it" "store_inv t M ((refs s R)(it := 1))" "item_key t = (item_key u)(it := key)"
      "it_exptime (heap t it) = exptime" "it_nbytes (heap t it) = nbytes" using t(5) by simp_all
    have "forgets_at_most 10 s t" by (rule drained_forgets [OF t(2) inv i(3)]) (use i(2,4) in auto)
    moreover have "refs t (R(it := 1)) = (refs s R)(it := 1)" using i(1) b by (auto simp: refs_def fun_eq_iff)
    then have "store_ok t (R(it := 1))" using i(3) by (auto simp: store_ok_def)
    moreover have "in_use M ((refs s R)(it := 1)) it" by (simp add: in_use_def)
    then have "\<not> linked_flag t it" using flag_linked [OF i(3)] i(2) by simp
    moreover have "R it = 0" using i(1) by (simp add: refs_def)
    ultimately show ?thesis using False t(1) i(4-6) by auto
  qed
qed

lemma expand_store_ok:
  assumes ok: "store_ok s R"
  shows "\<exists>h. maintenance_round locks (run \<and> hashpower (tab s) < 31) calloc_ok (tab s) = Some h \<and> store_ok (s\<lparr>tab := h\<rparr>) R \<and>
    index_find h = index_find (tab s)"
proof -
  obtain L where inv: "store_inv s L (refs s R)" using ok by (auto simp: store_ok_def)
  note D = store_invD [OF inv]
  from maintenance_index [OF D(2)] obtain h where h: "maintenance_round locks (run \<and> hashpower (tab s) < 31) calloc_ok (tab s) = Some h"
    "assoc_wf h" "same_index (tab s) h" by blast
  have k: "index_find h = index_find (tab s)" "item_key (s\<lparr>tab := h\<rparr>) = item_key s"
    using h(3) by (simp_all add: same_index_def item_key_def index_key_def fun_eq_iff)
  let ?t = "s\<lparr>tab := h\<rparr>"
  have core: "same_core s ?t" by (simp add: same_core_def)
  have fl: "it_flags (heap ?t b) \<noteq> ITEM_SLABBED" if "(c, b) \<in> slab_live s" for c b
    using slabs_invD(5) [OF D(1) slab_liveD(1) [OF that]] slab_liveD(2) [OF that] by auto
  have r: "slabs_inv ?t" "slab_live ?t = slab_live s" by (rule rewrite_live [OF D(1) core], simp, erule fl)+
  have "lru_ok ?t L" by (rule lru_ok_heap [OF D(3)]) (simp_all add: same_place_def)
  moreover have "item_cls ?t = item_cls s" by (simp add: item_cls_def fun_eq_iff)
  ultimately have "store_inv ?t L (refs s R)" unfolding store_inv_def using r D(4-8) h(2) k by simp
  then have "store_ok ?t R" by (rule store_okI) simp
  with h(1) k(1) show ?thesis by blast
qed

section \<open>The system\<close>

text \<open>
  \<^verbatim>\<open>process_lru_command\<close> of \<^verbatim>\<open>memcached.c\<close> switches between the flat and the segmented mode while the server runs.
\<close>

definition lru_mode :: "bool \<Rightarrow> items_state \<Rightarrow> items_state" where
  "lru_mode segmented s = s\<lparr>settings := (settings s)\<lparr>st_lru_segmented := segmented\<rparr>\<rparr>"

lemma mode_store_ok: "store_ok s R \<Longrightarrow> store_ok (lru_mode m s) R"
proof -
  assume "store_ok s R"
  then obtain L where inv: "store_inv s L (refs s R)" by (auto simp: store_ok_def)
  note D = store_invD [OF inv]
  let ?t = "lru_mode m s"
  have f: "slabclass ?t = slabclass s" "heap ?t = heap s" "power_largest ?t = power_largest s" "tab ?t = tab s" "mem_base ?t = mem_base s"
    "mem_current ?t = mem_current s" "st_slab_page_size (settings ?t) = st_slab_page_size (settings s)"
    "st_slab_reassign (settings ?t) = st_slab_reassign (settings s)" "st_slab_chunk_size_max (settings ?t) = st_slab_chunk_size_max (settings s)" by (simp_all add: lru_mode_def)
  have c: "class_range ?t = class_range s" by (simp add: class_range_def fun_eq_iff f)
  have p: "pages ?t = pages s" "page_len ?t = page_len s" by (simp_all add: pages_def page_len_def fun_eq_iff f)
  have e: "page_extent ?t = page_extent s" by (simp add: page_extent_def fun_eq_iff f p)
  have ch: "chunks ?t = chunks s" by (simp add: chunks_def fun_eq_iff f p c)
  have fl: "free_list ?t = free_list s" by (simp add: free_list_def fun_eq_iff f c)
  have "slabs_inv ?t" using D(1) unfolding slabs_inv_def classes_ok_def free_ok_def c p e ch fl f by blast
  moreover have "slab_live ?t = slab_live s" by (simp add: slab_live_def ch fl)
  moreover have "lru_ok ?t L" by (rule lru_ok_heap [OF D(3)]) (simp_all add: same_place_def lru_mode_def)
  moreover have "item_cls ?t = item_cls s" "item_key ?t = item_key s" by (simp_all add: item_cls_def item_key_def fun_eq_iff f)
  ultimately have "store_inv ?t L (refs s R)" unfolding store_inv_def using D(2,4-8) by (simp add: f) (simp add: lru_mode_def)
  then show ?thesis by (rule store_okI) (simp add: lru_mode_def)
qed

text \<open>The store when the server starts.\<close>

definition store_start :: "items_state \<Rightarrow> bool" where
  "store_start s \<longleftrightarrow>
     slabs_inv s \<and> slab_live s = {} \<and> assoc_wf (tab s) \<and> (\<forall>k. index_find (tab s) k = None) \<and> bump_buf s = [] \<and>
     heads s = (\<lambda>_. 0) \<and> tails s = (\<lambda>_. 0) \<and> lru_sizes s = (\<lambda>_. 0) \<and> sizes_bytes s = (\<lambda>_. 0) \<and> curr_items s = 0 \<and> curr_bytes s = 0"

lemma start_store_ok:
  assumes "store_start s"
  shows "store_ok s (\<lambda>_. 0)"
proof -
  note d = assms [unfolded store_start_def]
  have "lists_ok (heap s) (\<lambda>_. [])" by (simp add: lists_ok_def)
  then have "lru_ok s (\<lambda>_. [])" using d by (simp add: lru_ok_def final_def)
  then have "store_inv s (\<lambda>_. []) (refs s (\<lambda>_. 0))"
    using d by (simp add: store_inv_def in_use_def is_linked_def refs_def)
  then show ?thesis by (auto simp: store_ok_def)
qed

text \<open>
  The steps.  A worker works on an item only while it holds a reference, links an item only under a key that is not
  in the index, and replaces an item by one with the same key.
\<close>

inductive store_step :: "items_state \<Rightarrow> (nat \<Rightarrow> nat) \<Rightarrow> items_state \<Rightarrow> (nat \<Rightarrow> nat) \<Rightarrow> bool" where
  alloc: "few_refs s R \<Longrightarrow> may_alloc env key flags nbytes s \<Longrightarrow> do_item_alloc env key flags exptime nbytes s = Some (it, t) \<Longrightarrow>
    store_step s R t (if it = 0 then R else R(it := 1))"
| link: "few_refs s R \<Longrightarrow> 0 < R it \<Longrightarrow> \<not> linked_flag s it \<Longrightarrow> index_find (tab s) (item_key s it) = None \<Longrightarrow>
    store_step s R (do_item_link it (item_hv s it) s) R"
| unlink: "0 < R it \<Longrightarrow> do_item_unlink it (item_hv s it) s = Some t \<Longrightarrow> store_step s R t R"
| remove: "0 < R it \<Longrightarrow> do_item_remove it s = Some t \<Longrightarrow> store_step s R t (R(it := R it - 1))"
| replace: "few_refs s R \<Longrightarrow> 0 < R it \<Longrightarrow> linked_flag s it \<Longrightarrow> 0 < R new_it \<Longrightarrow> \<not> linked_flag s new_it \<Longrightarrow>
    item_key s new_it = item_key s it \<Longrightarrow> do_item_replace it new_it (item_hv s it) s = Some t \<Longrightarrow> store_step s R t R"
| get: "few_refs s R \<Longrightarrow> do_item_get room key (hash_fn (tab s) key) upd s = Some (it, t) \<Longrightarrow>
    store_step s R t (if it = 0 then R else R(it := R it + 1))"
| touch: "few_refs s R \<Longrightarrow> do_item_touch room key exptime (hash_fn (tab s) key) s = Some (it, t) \<Longrightarrow>
    store_step s R t (if it = 0 then R else R(it := R it + 1))"
| pull: "few_refs s R \<Longrightarrow> st_tail_repair_time (settings s) = 0 \<Longrightarrow> p_cur_lru p \<in> {HOT_LRU, WARM_LRU, COLD_LRU, TEMP_LRU} \<Longrightarrow>
    p_flags p AND LRU_PULL_RETURN_ITEM = 0 \<Longrightarrow> lru_pull_tail p s = Some (n, r, t) \<Longrightarrow> store_step s R t R"
| juggle: "few_refs s R \<Longrightarrow> st_tail_repair_time (settings s) = 0 \<Longrightarrow> lru_maintainer_juggle lkt lk cid s = Some (n, t) \<Longrightarrow>
    store_step s R t R"
| bumps: "lru_maintainer_bumps n s = Some (b, t) \<Longrightarrow> store_step s R t R"
| expand: "maintenance_round locks (run \<and> hashpower (tab s) < 31) calloc_ok (tab s) = Some h \<Longrightarrow> store_step s R (s\<lparr>tab := h\<rparr>) R"
| clock: "store_step s R (s\<lparr>current_time := now\<rparr>) R"
| mode: "store_step s R (lru_mode m s) R"

lemma store_step_ok:
  assumes "store_step s R t R'" "store_ok s R"
  shows "store_ok t R'"
  using assms
proof (induction rule: store_step.induct)
  case (alloc s R env key flags nbytes exptime it t)
  with alloc_store_ok [OF alloc.prems alloc.hyps(1,2), of exptime] show ?case by (auto split: if_splits)
next
  case (link s R it)
  then show ?case using link_store_ok(1) by blast
next
  case (unlink R it s t)
  with unlink_store_ok [of s R it] show ?case by auto
next
  case (remove R it s t)
  then show ?case using remove_store_ok [of s R it] by (metis option.inject)
next
  case (replace s R it new_it t)
  with replace_store_ok [of s R it new_it] show ?case by auto
next
  case (get s R room key upd it t)
  with get_store_ok [OF get.prems get.hyps(1), of room key upd] show ?case by auto
next
  case (touch s R room key exptime it t)
  with touch_store_ok [OF touch.prems touch.hyps(1), of room key exptime] show ?case by auto
next
  case (pull s R p n r t)
  with pull_store_ok [of s R p] show ?case by auto
next
  case (juggle s R lkt lk cid n t)
  with juggle_store_ok [of s R lkt lk cid] show ?case by auto
next
  case (bumps n s b t R)
  then obtain L where "store_inv s L (refs s R)" by (auto simp: store_ok_def)
  with lru_maintainer_bumps_ok [of s L R n] bumps show ?case by auto
next
  case (expand locks run s calloc_ok h R)
  with expand_store_ok [of s R locks run calloc_ok] show ?case by auto
next
  case (clock s R now)
  then show ?case by (rule clock_store_ok)
next
  case (mode s R m)
  then show ?case by (rule mode_store_ok)
qed

inductive store_run :: "items_state \<Rightarrow> (nat \<Rightarrow> nat) \<Rightarrow> bool" where
  start: "store_start s \<Longrightarrow> store_run s (\<lambda>_. 0)"
| step: "store_run s R \<Longrightarrow> store_step s R t R' \<Longrightarrow> store_run t R'"

lemma store_run_ok: "store_run s R \<Longrightarrow> store_ok s R"
  by (induction rule: store_run.induct) (auto intro: start_store_ok store_step_ok)

end
