(* ===== verification/Store_Correct.thy ===== *)
theory Store_Correct
  imports Store_Run
begin

text \<open>
  The properties of the item store, over all runs of its operations and background threads from the state the server
  starts with: the index, the reference counts and the allocator agree; a lookup finds exactly the live item of a key;
  only dead items are ever forgotten, apart from a bounded number of evictions; and an allocation does not fail as long
  as there is something to evict.
\<close>

section \<open>The state in terms of the program's data\<close>

lemma linked_flag_live:
  assumes "store_inv s L R"
  shows "is_linked L a \<longleftrightarrow> (\<exists>c. (c, a) \<in> slab_live s) \<and> linked_flag s a"
proof -
  have "(\<exists>c. (c, a) \<in> slab_live s) \<longleftrightarrow> in_use L R a" unfolding store_invD(4) [OF assms] by auto
  then show ?thesis using flag_linked [OF assms, of a] by (auto simp: in_use_def)
qed

lemma linked_count:
  assumes inv: "store_inv s L R"
  shows "curr_items s = of_nat (card {a. \<exists>k. index_find (tab s) k = Some a})"
proof -
  note l = lru_okD(1) [OF store_invD(3) [OF inv]]
  have set: "{a. \<exists>k. index_find (tab s) k = Some a} = (\<Union>q\<in>UNIV. set (L q))" using store_invD(6) [OF inv] by (auto simp: is_linked_def)
  have "card (\<Union>q\<in>UNIV. set (L q)) = (\<Sum>q\<in>UNIV. card (set (L q)))"
    by (rule card_UN_disjoint) (use lists_okD(3) [OF l] in \<open>auto simp: disjoint_iff\<close>)
  also have "\<dots> = (\<Sum>q\<in>UNIV. length (L q))" using lists_okD(2) [OF l] by (simp add: distinct_card)
  finally show ?thesis unfolding set store_invD(7) [OF inv] by simp
qed

lemma live_refcount:
  assumes inv: "store_inv s L (refs s R)" and l: "(c, a) \<in> slab_live s"
  shows "c = item_cls s a" "it_refcount (heap s a) = of_nat (refs s R a + of_bool (linked_flag s a))" "it_refcount (heap s a) \<noteq> 0"
proof -
  have use: "in_use L (refs s R) a" and "c = item_cls s a" using l unfolding store_invD(4) [OF inv] by auto
  then show "c = item_cls s a" by simp
  note ok = item_okD [OF store_invD(5) [OF inv use]] and f = flag_linked [OF inv use]
  show r: "it_refcount (heap s a) = of_nat (refs s R a + of_bool (linked_flag s a))" using ok(1) f by simp
  show "it_refcount (heap s a) \<noteq> 0" unfolding r using refcount_zero_iff [of "refs s R a" "linked_flag s a"] ok(2) f use by (auto simp: in_use_def)
qed

section \<open>An allocation that may evict\<close>

lemma slabs_clsid_bound:
  assumes "slabs_inv s"
  shows "slabs_clsid s sz < 64"
proof -
  note C = classes_okD(2,3) [OF slabs_invD(1) [OF assms]]
  show ?thesis using clsid_loop_spec [OF C, of "slabclass s" sz] C(2) by (auto simp: slabs_clsid_def)
qed

lemma cold_tail:
  assumes inv: "store_inv s L R" and cid: "cid < 64" and a: "a = tails s (of_nat cid OR COLD_LRU)" "a \<noteq> 0"
  shows "is_linked L a" "a \<in> chunks s cid"
proof -
  let ?q = "of_nat cid OR COLD_LRU :: u8"
  have "a = final 0 (L ?q)" using a(1) lru_okD(3) [OF store_invD(3) [OF inv], of ?q] by simp
  then have l: "a \<in> set (L ?q)" using a(2) last_in_set [of "L ?q"] by (simp add: final_def split: if_splits)
  then show lk: "is_linked L a" by (auto simp: is_linked_def)
  have "ITEM_clsid (heap s a) = of_nat cid"
    using lru_okD(6) [OF store_invD(3) [OF inv] l] clsid_small [OF cid, of COLD_LRU] by (simp add: ITEM_clsid_def)
  then have "item_cls s a = cid" using cid by (simp add: item_cls_def unat_of_nat)
  moreover have "(item_cls s a, a) \<in> slab_live s" using store_invD(9) [OF inv, of a] lk by (simp add: in_use_def)
  ultimately show "a \<in> chunks s cid" using slab_liveD(1) by blast
qed

lemma alloc_pull_evicts:
  assumes inv: "store_inv s L R" and few: "\<And>b. R b + 2 < 2 ^ 16" and nr: "st_tail_repair_time (settings s) = 0"
    and fresh: "\<And>j c. malloc_fresh s (e_malloc_ret (env j)) (page_len s c)"
    and mode: "st_lru_segmented (settings s)" "st_evict_to_free (settings s)" and cid: "cid < 64" "cid \<noteq> 0"
    and cold: "a = tails s (of_nat cid OR COLD_LRU)" "a \<noteq> 0" "R a = 0" "\<not> is_crawler (heap s a)"
    and lock: "e_trylock (env 0) 1 5 (item_hv s a)"
  shows "\<exists>it t. do_item_alloc_pull env cid s = Some (it, t) \<and> it \<noteq> 0"
proof -
  note ct = cold_tail [OF inv cid(1) cold(1,2)]
  from slabs_alloc_obtained [OF inv fresh, where ro = "e_realloc_ok (env 0)"] obtain it s2 where
    s2: "do_slabs_alloc (e_realloc_ok (env 0)) (e_malloc_ret (env 0)) cid 0 s = Some (it, s2)" "obtained cid it s s2" by blast
  have "\<exists>it j t. alloc_pull_loop env cid 0 s = Some (it, j, t) \<and> it \<noteq> 0"
  proof (cases "it = 0")
    case False
    then show ?thesis using s2(1) mode(1) by (subst alloc_pull_loop.simps) simp
  next
    case True
    note o = obtained_none [OF inv s2(2) [unfolded True]]
    have st: "settings s2 = settings s" "tails s2 = tails s" "heap s2 a = heap s a" "item_hv s2 a = item_hv s a"
      using s2(2) store_invD(9) [OF inv, of a] ct(1) pulled_hv [OF o(2)] by (auto simp: obtained_def same_store_def in_use_def)
    let ?p = "alloc_pull_args (env 0) 1 cid COLD_LRU LRU_PULL_EVICT"
    have orig: "p_orig_id ?p \<noteq> 0" using cid unat_of_nat [of cid, where 'a = 8] by (auto simp: alloc_pull_args_def simp flip: unat_eq_zero)
    have nr2: "st_tail_repair_time (settings s2) = 0" and ev: "evicting ?p s2" and rt: "p_flags ?p AND LRU_PULL_RETURN_ITEM = 0"
      and tr: "p_trylock ?p 5 (item_hv s2 a)" and tl: "tails s2 (p_id ?p) = a" and nc: "\<not> is_crawler (heap s2 a)"
      using nr mode(2) lock cold(1,4) st by (simp_all add: alloc_pull_args_def evicting_def p_id_def)
    from lru_pull_tail_evicts [OF o(1) few nr2 ev orig rt tr tl cold(2) nc] obtain n r s3 M where
      s3: "lru_pull_tail ?p s2 = Some (n, r, s3)" "store_inv s3 M R" "drained 1 s2 L s3 M" "\<not> is_linked M a" by blast
    have d3: "drained 1 s L s3 M" using drained_trans [OF drained_pulled [OF o(2), of 0] s3(3)] by simp
    have free: "\<exists>it j t. alloc_pull_loop env cid 1 v = Some (it, j, t) \<and> it \<noteq> 0" if v: "store_inv v N R" "drained 1 s L v N" "\<not> is_linked N a" for v N
    proof -
      note dv = drained_settings [OF v(2)]
      have "a \<in> chunks v cid" using ct(2) dv(2) by (simp add: same_pages_def)
      then have "free_list v cid \<noteq> []" by (rule unused_is_free [OF v(1) _ cold(3) v(3)])
      moreover have "malloc_fresh v (e_malloc_ret (env 1)) (page_len v cid)"
        using fresh [of 1 cid] same_pages_fresh [OF dv(2)] dv(2) by (simp add: same_pages_def)
      ultimately show ?thesis using alloc_with_free [OF v(1)] mode(1) dv(1) by simp
    qed
    have r3: "st_tail_repair_time (settings s3) = 0" using nr drained_settings(1) [OF d3] by simp
    from alloc_search [OF s3(2) few r3, where cur_lru = HOT_LRU and flags = 0 and e = "env 0" and k = 2 and cid = cid]
    obtain n' r' s4 M4 where s4: "lru_pull_tail (alloc_pull_args (env 0) 2 cid HOT_LRU 0) s3 = Some (n', r', s4)" "store_inv s4 M4 R"
      "drained 0 s3 M s4 M4" by auto
    have d4: "drained 1 s L s4 M4" "\<not> is_linked M4 a" using drained_trans [OF d3 s4(3)] drained_settings(3) [OF s4(3)] s3(4) by auto
    have "alloc_pull_loop env cid 0 s = (if n \<noteq> 0 then alloc_pull_loop env cid 1 s3 else alloc_pull_loop env cid 1 s4)"
      using s2(1) s3(1) s4(1) True mode(1) drained_settings(1) [OF d3] by (subst alloc_pull_loop.simps) simp
    then show ?thesis using free [OF s3(2) d3 s3(4)] free [OF s4(2) d4] by simp
  qed
  then show ?thesis by (auto simp: do_item_alloc_pull_def)
qed

lemma forgets_none: "forgets_at_most 0 s t \<Longrightarrow> index_find (tab s) k = Some a \<Longrightarrow> \<not> item_dead s a \<Longrightarrow> index_find (tab t) k = Some a"
proof -
  assume f: "forgets_at_most 0 s t" and k: "index_find (tab s) k = Some a" "\<not> item_dead s a"
  from f obtain V where "finite V" "card V \<le> 0" "\<forall>key a. index_find (tab s) key = Some a \<longrightarrow>
      index_find (tab t) key = Some a \<or> item_dead s a \<or> a \<in> V \<and> st_evict_to_free (settings s)" unfolding forgets_at_most_def by blast
  moreover from this have "V = {}" by simp
  ultimately show ?thesis using k by blast
qed

section \<open>A sample run\<close>

text \<open>
  The settings of the allocator's sample with flat or segmented queues, at time 100, and the answers of \<^verbatim>\<open>malloc\<close>.
\<close>

definition sample_items :: "bool \<Rightarrow> items_state" where
  "sample_items segmented = slabs_state.extend (sample_slabs\<lparr>settings := sample_settings\<lparr>st_lru_segmented := segmented\<rparr>\<rparr>)
     (items_state.fields (\<lambda>_. 0) (\<lambda>_. 0) (\<lambda>_. itemstats_t.make 0 0 0 0 0 0 0 0 0 0 0 0 0 0) (\<lambda>_. 0) (\<lambda>_. 0) None 0 0 100 0 0 0 sample_assoc [] 0 0 0)"

definition sample_store :: "bool \<Rightarrow> items_state" where
  "sample_store segmented = init_slabclass (5 / 4) None (sample_items segmented)"

definition sample_env :: "nat \<Rightarrow> nat \<Rightarrow> alloc_env" where
  "sample_env m j = \<lparr>e_trylock = \<lambda>_ _ _. True, e_reassign_lock = True, e_realloc_ok = True, e_malloc_ret = m\<rparr>"

lemmas sample_items_simps = sample_items_def slabs_state.defs items_state.defs itemstats_t.defs sample_slabs_def sample_settings_def

lemma sample_store_eq:
  "sample_store m = (sample_items m)\<lparr>power_largest := 2, slabclass := (replicate 64 blank_class)
     [1 := blank_class\<lparr>cls_size := 96, perslab := 2\<rparr>, 2 := blank_class\<lparr>cls_size := 128, perslab := 2\<rparr>]\<rparr>"
proof -
  have "\<lfloor>(120 :: rat)\<rfloor> = 120" by (rule floor_numeral)
  then have "init_classes (settings (sample_items m)) (5 / 4) None 1 96 cs = (2, cs[1 := (cs ! 1)\<lparr>cls_size := 96, perslab := 2\<rparr>])" for cs
    by (subst init_classes.simps, subst init_classes.simps)
      (simp add: sample_items_simps align_chunk_def Let_def)
  then show ?thesis
    by (simp add: sample_store_def init_slabclass_def Let_def sample_items_simps)
qed

lemma sample_store_start: "store_start (sample_store m)"
proof -
  have c: "config_ok (settings (sample_items m)) (5 / 4) None" by (simp add: config_ok_def sample_items_simps)
  have "slabs_inv (sample_store m)" "slab_live (sample_store m) = {}"
    unfolding sample_store_def by (rule init_slabclass_inv [OF c], simp add: sample_items_simps)+
  moreover have "tab (sample_store m) = sample_assoc" by (simp add: sample_store_eq sample_items_simps)
  ultimately show ?thesis using sample_assoc_inv sample_assoc_empty unfolding store_start_def assoc_wf_def
    by (auto simp: sample_store_eq sample_items_simps)
qed

lemma sample_clsid: "slabs_clsid (sample_store m) (unat (new_ntotal (bytes ''a'') 0 2 (sample_store m))) = 1"
  by (simp add: sample_store_eq sample_items_simps new_ntotal_def item_make_header_def slabs_clsid_def clsid_loop.simps blank_class_def bytes_def)


lemma sample_slabs_alloc:
  "\<exists>x. do_slabs_alloc True 1000 1 0 (sample_store m) = Some (1096, x) \<and> sl_curr (slabclass x ! 1) = 1 \<and> cls_size (slabclass x ! 1) = 96 \<and>
     power_largest x = 2"
  by (simp add: do_slabs_alloc_def sample_store_eq sample_items_simps blank_class_def
    do_slabs_newslab_def page_len_def grow_slab_list_def get_page_from_global_pool_def memory_allocate_def Let_def
    split_slab_page_into_freelist_def upd_class_def upd_item_def add_page_def do_slabs_free_def push_slot_def link_head_def
    zero_range_def zero_item_def pop_slot_def numeral_2_eq_2)

lemma sample_pages: "pages (sample_store m) c = []"
  by (simp add: pages_def sample_store_eq sample_items_simps nth_list_update blank_class_def)

lemma sample_fresh: "malloc_fresh (sample_store m) (e_malloc_ret (sample_env a j)) n"
  by (simp add: malloc_fresh_def fresh_range_def sample_pages sample_env_def)

lemma sample_may: "may_alloc (sample_env a) (bytes ''a'') 0 2 (sample_store m)"
  unfolding may_alloc_def using sample_fresh
  by (simp add: sample_store_eq sample_items_simps new_ntotal_def item_make_header_def bytes_def)

lemma sample_pull: "\<exists>x. do_item_alloc_pull (sample_env 1000) 1 (sample_store m) = Some (1096, x) \<and> same_store (sample_store m) x \<and>
    sl_curr (slabclass x ! 1) = 1 \<and> cls_size (slabclass x ! 1) = 96 \<and> power_largest x = 2"
proof -
  obtain x where x: "do_slabs_alloc True 1000 1 0 (sample_store m) = Some (1096, x)" and
    f: "sl_curr (slabclass x ! 1) = 1" "cls_size (slabclass x ! 1) = 96" "power_largest x = 2" using sample_slabs_alloc by blast
  have inv: "slabs_inv (sample_store m)" using sample_store_start by (simp add: store_start_def)
  have "slabs_state.more x = slabs_state.more (sample_store m) \<and> settings x = settings (sample_store m)"
    using do_slabs_alloc_spec [OF inv, of 1 1000 True 0] sample_fresh [of m 1000] x by (auto simp: sample_env_def)
  then have "same_store (sample_store m) x" by (intro same_store_more) simp_all
  moreover have t: "tails (sample_store m) = (\<lambda>_. 0)" using sample_store_start by (simp add: store_start_def)
  have "lru_pull_tail (alloc_pull_args e 0 1 COLD_LRU 0) (sample_store m) = Some (0, None, sample_store m)" for e
    by (simp add: lru_pull_tail_def pull_loop.simps t alloc_pull_args_def)
  then have "alloc_pull_loop (sample_env 1000) 1 0 (sample_store m) = Some (1096, 0, x)"
    by (subst alloc_pull_loop.simps) (simp add: sample_env_def x [unfolded One_nat_def])
  then have "do_item_alloc_pull (sample_env 1000) 1 (sample_store m) = Some (1096, x)" by (simp add: do_item_alloc_pull_def)
  ultimately show ?thesis using f by blast
qed

text \<open>An item with the key ''a'' is allocated and linked, and its reference dropped.\<close>

definition sample_alloced :: "bool \<Rightarrow> items_state" where
  "sample_alloced m = snd (the (do_item_alloc (sample_env 1000) (bytes ''a'') 0 0 2 (sample_store m)))"

definition sample_linked :: "bool \<Rightarrow> items_state" where
  "sample_linked m = do_item_link 1096 (item_hv (sample_alloced m) 1096) (sample_alloced m)"

lemma sample_alloced:
  "do_item_alloc (sample_env 1000) (bytes ''a'') 0 0 2 (sample_store m) = Some (1096, sample_alloced m)"
  "it_clsid (heap (sample_alloced m) 1096) = (if m then 1 else 129)" "tails (sample_alloced m) = (\<lambda>_. 0)"
  "item_key (sample_alloced m) 1096 = bytes ''a''" "settings (sample_alloced m) = settings (sample_store m)"
  "it_exptime (heap (sample_alloced m) 1096) = 0" "current_time (sample_alloced m) = 100" "it_nkey (heap (sample_alloced m) 1096) = 1"
  "hash_fn (tab (sample_alloced m)) = hash_fn sample_assoc" "bump_buf (sample_alloced m) = []"
  "sl_curr (slabclass (sample_alloced m) ! 1) = 1" "cls_size (slabclass (sample_alloced m) ! 1) = 96" "power_largest (sample_alloced m) = 2"
proof -
  obtain x where x: "do_item_alloc_pull (sample_env 1000) 1 (sample_store m) = Some (1096, x)" "same_store (sample_store m) x"
    "sl_curr (slabclass x ! 1) = 1" "cls_size (slabclass x ! 1) = 96" "power_largest x = 2" using sample_pull by blast
  have small: "unat (new_ntotal (bytes ''a'') 0 2 (sample_store m)) \<le> st_slab_chunk_size_max (settings (sample_store m))"
    using sample_may by (simp add: may_alloc_def)
  let ?t = "set_item_key 1096 (bytes ''a'') (upd_item 1096 (init_item (settings x) (current_time x) 1 0 1 0 0 2) x)"
  have a: "do_item_alloc (sample_env 1000) (bytes ''a'') 0 0 2 (sample_store m) = Some (1096, ?t)"
    unfolding do_item_alloc_small [OF small refl] sample_clsid x(1) by (simp add: bytes_def)
  then have t: "sample_alloced m = ?t" by (simp add: sample_alloced_def)
  show "do_item_alloc (sample_env 1000) (bytes ''a'') 0 0 2 (sample_store m) = Some (1096, sample_alloced m)" using a t by simp
  have st: "settings x = settings (sample_store m)" "tails x = (\<lambda>_. 0)" "current_time x = 100" "tab x = sample_assoc" "bump_buf x = []"
    using x(2) by (simp_all add: same_store_def sample_store_eq sample_items_simps)
  have h: "heap ?t 1096 = init_item (settings x) (current_time x) 1 0 1 0 0 2 (heap x 1096)" by (simp add: set_item_key_def)
  show "it_clsid (heap (sample_alloced m) 1096) = (if m then 1 else 129)" unfolding t h
    by (simp add: init_item_def Let_def st sample_store_eq sample_items_simps)
  show "it_exptime (heap (sample_alloced m) 1096) = 0" "it_nkey (heap (sample_alloced m) 1096) = 1" unfolding t h
    by (simp_all add: init_item_def Let_def)
  show "tails (sample_alloced m) = (\<lambda>_. 0)" "item_key (sample_alloced m) 1096 = bytes ''a''"
    "settings (sample_alloced m) = settings (sample_store m)" "current_time (sample_alloced m) = 100" "hash_fn (tab (sample_alloced m)) = hash_fn sample_assoc"
    "bump_buf (sample_alloced m) = []" unfolding t by (simp_all add: set_item_key_def upd_item_def st item_key_def)
  show "sl_curr (slabclass (sample_alloced m) ! 1) = 1" "cls_size (slabclass (sample_alloced m) ! 1) = 96" "power_largest (sample_alloced m) = 2"
    unfolding t using x(3-5) by (simp_all add: set_item_key_def upd_item_def)
qed


lemma sample_started_run: "store_run (sample_store m) (\<lambda>_. 0)"
  by (rule store_run.start [OF sample_store_start])

lemma few_refs_zero: "bump_buf s = [] \<Longrightarrow> (\<And>a. R a \<le> 5) \<Longrightarrow> few_refs s R"
proof -
  assume b: "bump_buf s = []" and R: "\<And>a. R a \<le> 5"
  have "R a + 3 < 2 ^ 16" for a using R [of a] by simp
  with b show ?thesis by (simp add: few_refs_def refs_def)
qed

lemma few_refs_one: "bump_buf s = [] \<Longrightarrow> few_refs s ((\<lambda>_. 0)(a := 1))"
  by (rule few_refs_zero) simp_all

lemma sample_bump: "bump_buf (sample_store m) = []" "few_refs (sample_store m) (\<lambda>_. 0)"
proof -
  show "bump_buf (sample_store m) = []" using sample_store_start by (simp add: store_start_def)
  then show "few_refs (sample_store m) (\<lambda>_. 0)" by (rule few_refs_zero) simp
qed

lemma sample_alloced_run:
  "store_run (sample_alloced m) ((\<lambda>_. 0)(1096 := 1))" "\<not> linked_flag (sample_alloced m) 1096" "index_find (tab (sample_alloced m)) k = None"
  "few_refs (sample_alloced m) ((\<lambda>_. 0)(1096 := 1))"
proof -
  note ok = store_run_ok [OF sample_started_run]
  note a = alloc_store_ok [where exptime = 0, OF ok sample_bump(2) sample_may [of 1000 m], unfolded sample_alloced(1)]
  show "store_run (sample_alloced m) ((\<lambda>_. 0)(1096 := 1))"
    using store_run.step [OF sample_started_run store_step.alloc [OF sample_bump(2) sample_may sample_alloced(1)]] by simp
  show "\<not> linked_flag (sample_alloced m) 1096" using a by simp
  have "index_find (tab (sample_store m)) j = None" for j using sample_store_start by (simp add: store_start_def)
  then have "index_find (tab (sample_store m)) = Map.empty" by auto
  moreover have "index_find (tab (sample_alloced m)) \<subseteq>\<^sub>m index_find (tab (sample_store m))" using a by (simp only: forgets_at_most_def option.inject prod.inject) blast
  ultimately have "index_find (tab (sample_alloced m)) = Map.empty" by (metis map_le_antisym map_le_empty)
  then show "index_find (tab (sample_alloced m)) k = None" by simp
  show "few_refs (sample_alloced m) ((\<lambda>_. 0)(1096 := 1))" by (rule few_refs_one [OF sample_alloced(10)])
qed

lemma do_item_link_header:
  "it_exptime (heap (do_item_link it hv s) it) = it_exptime (heap s it)" "it_nkey (heap (do_item_link it hv s) it) = it_nkey (heap s it)"
  "settings (do_item_link it hv s) = settings s" "current_time (do_item_link it hv s) = current_time s"
  "hash_fn (tab (do_item_link it hv s)) = hash_fn (tab s)"
  "slabclass (do_item_link it hv s) = slabclass s" "power_largest (do_item_link it hv s) = power_largest s"
  "tails s (it_clsid (heap s it)) = 0 \<Longrightarrow> tails (do_item_link it hv s) (it_clsid (heap s it)) = it"
proof -
  define j where "j = ITEM_set_cas (if st_use_cas (settings s) then cas_id s + 1 else 0)
    ((heap s it)\<lparr>it_flags := it_flags (heap s it) OR ITEM_LINKED, it_time := current_time s\<rparr>)"
  define v where "v = upd_item it (\<lambda>i. i\<lparr>it_flags := it_flags i OR ITEM_LINKED, it_time := current_time s\<rparr>) s"
  define w where "w = v\<lparr>curr_bytes := curr_bytes v + ITEM_ntotal (heap v it), curr_items := curr_items v + 1, total_items := total_items v + 1\<rparr>"
  define x where "x = (if st_use_cas (settings w) then get_cas_id w else (0, w))"
  define y where "y = upd_item it (ITEM_set_cas (fst x)) (snd x)"
  define u where "u = y\<lparr>tab := assoc_insert (tab y) it hv\<rparr>"
  have u: "do_item_link it hv s = item_stats_sizes_add it (refcount_incr it (do_item_link_q it u))" "heap u = (heap s)(it := j)"
      "settings u = settings s" "current_time u = current_time s" "tab u = assoc_insert (tab s) it hv" "tails u = tails s"
      "slabclass u = slabclass s" "power_largest u = power_largest s"
    by (simp_all add: do_item_link_def Let_def split_beta u_def y_def x_def w_def v_def j_def get_cas_id_def upd_item_def)
  have a: "heap (item_stats_sizes_add it v) = heap v" "settings (item_stats_sizes_add it v) = settings v" "tails (item_stats_sizes_add it v) = tails v"
    "current_time (item_stats_sizes_add it v) = current_time v" "tab (item_stats_sizes_add it v) = tab v"
    "slabclass (item_stats_sizes_add it v) = slabclass v" "power_largest (item_stats_sizes_add it v) = power_largest v" for v
    by (simp_all add: item_stats_sizes_add_def Let_def split: option.split)
  have h: "same_but_links (heap (do_item_link_q it u) it) j" unfolding do_item_link_q_heap using link_head_same [of "heap u" it _ it] u(2) by simp
  have c: "it_exptime j = it_exptime (heap s it)" "it_nkey j = it_nkey (heap s it)" "it_clsid j = it_clsid (heap s it)"
    by (simp_all add: j_def ITEM_set_cas_def)
  show "it_exptime (heap (do_item_link it hv s) it) = it_exptime (heap s it)" "it_nkey (heap (do_item_link it hv s) it) = it_nkey (heap s it)"
    unfolding u(1) a using same_but_links_simps [OF h] c by (simp_all add: refcount_incr_def)
  show "settings (do_item_link it hv s) = settings s" "current_time (do_item_link it hv s) = current_time s" "hash_fn (tab (do_item_link it hv s)) = hash_fn (tab s)"
    "slabclass (do_item_link it hv s) = slabclass s" "power_largest (do_item_link it hv s) = power_largest s"
    unfolding u(1) a using u(3-5,7,8) by (simp_all add: refcount_incr_def upd_item_def do_item_link_q_def Let_def assoc_insert_def)
  show "tails (do_item_link it hv s) (it_clsid (heap s it)) = it" if "tails s (it_clsid (heap s it)) = 0"
    unfolding u(1) a using that u(2,6) c(3) by (simp add: refcount_incr_def upd_item_def do_item_link_q_def Let_def)
qed

lemma sample_linked_run:
  "store_run (sample_linked m) ((\<lambda>_. 0)(1096 := 1))" "few_refs (sample_linked m) ((\<lambda>_. 0)(1096 := 1))"
  "index_find (tab (sample_linked m)) = [bytes ''a'' \<mapsto> 1096]" "\<not> item_dead (sample_linked m) 1096"
  "hash_fn (tab (sample_linked m)) = hash_fn sample_assoc"
proof -
  note a = sample_alloced_run [of m] and ok = store_run_ok [OF sample_alloced_run(1) [of m]]
  have held: "0 < ((\<lambda>_. 0)(1096 := 1 :: nat)) 1096" by simp
  show "store_run (sample_linked m) ((\<lambda>_. 0)(1096 := 1))" unfolding sample_linked_def
    by (rule store_run.step [OF a(1) store_step.link [OF a(4) held a(2,3)]])
  show "few_refs (sample_linked m) ((\<lambda>_. 0)(1096 := 1))"
    by (rule few_refs_one) (simp add: sample_linked_def do_item_link_bump sample_alloced(10))
  have "index_find (tab (sample_alloced m)) = Map.empty" using a(3) by auto
  then show "index_find (tab (sample_linked m)) = [bytes ''a'' \<mapsto> 1096]"
    unfolding sample_linked_def link_store_ok(2) [OF ok held a(2,3,4)] by (simp add: sample_alloced(4))
  show "\<not> item_dead (sample_linked m) 1096" unfolding item_dead_def sample_linked_def do_item_link_header item_is_flushed_def
    by (simp add: sample_alloced(5,6) sample_store_eq sample_items_simps)
  show "hash_fn (tab (sample_linked m)) = hash_fn sample_assoc" by (simp add: sample_linked_def do_item_link_header sample_alloced(9))
qed

text \<open>The same in the flat mode, with the reference dropped and the mode switched: the item is the coldest of its class.\<close>

definition sample_cold :: items_state where
  "sample_cold = lru_mode True (refcount_decr 1096 (sample_linked False))"

lemma sample_cold_run:
  "store_run sample_cold (\<lambda>_. 0)" "few_refs sample_cold (\<lambda>_. 0)" "tails sample_cold 129 = 1096" "bump_buf sample_cold = []"
  "it_nkey (heap sample_cold 1096) = 1"
proof -
  let ?s = "sample_linked False" and ?R = "(\<lambda>_. 0)(1096 := 1) :: nat \<Rightarrow> nat"
  have b: "bump_buf ?s = []" by (simp add: sample_linked_def do_item_link_bump sample_alloced(10))
  obtain L where inv: "store_inv ?s L (refs ?s ?R)" using store_run_ok [OF sample_linked_run(1)] by (auto simp: store_ok_def)
  have "index_find (tab ?s) (bytes ''a'') = Some 1096" unfolding sample_linked_run(3) by (rule fun_upd_same)
  then have "is_linked L 1096" using store_invD(6) [OF inv] by blast
  moreover from this have "item_ok (heap ?s 1096) True (refs ?s ?R 1096)" using store_invD(5) [OF inv, of 1096] by (simp add: in_use_def)
  ultimately have "it_refcount (heap ?s 1096) = 2" using item_okD(1) b by (fastforce simp: refs_def)
  then have rm: "do_item_remove 1096 ?s = Some (refcount_decr 1096 ?s)" by (simp add: do_item_remove_def Let_def refcount_decr_def)
  have "store_run (refcount_decr 1096 ?s) (?R(1096 := ?R 1096 - 1))" by (rule store_run.step [OF sample_linked_run(1) store_step.remove [OF _ rm]]) simp
  moreover have "?R(1096 := ?R 1096 - 1) = (\<lambda>_. 0)" by auto
  ultimately have "store_run (refcount_decr 1096 ?s) (\<lambda>_. 0)" by (simp only:)
  then show "store_run sample_cold (\<lambda>_. 0)" unfolding sample_cold_def by (rule store_run.step [OF _ store_step.mode])
  show "bump_buf sample_cold = []" by (simp add: sample_cold_def lru_mode_def refcount_decr_def upd_item_def b)
  then show "few_refs sample_cold (\<lambda>_. 0)" by (rule few_refs_zero) simp
  have "tails ?s 129 = 1096" using do_item_link_header(8) [of "sample_alloced False" 1096] sample_alloced(2,3) by (simp add: sample_linked_def)
  then show "tails sample_cold 129 = 1096" by (simp add: sample_cold_def lru_mode_def refcount_decr_def upd_item_def)
  show "it_nkey (heap sample_cold 1096) = 1"
    by (simp add: sample_cold_def lru_mode_def refcount_decr_def sample_linked_def do_item_link_header sample_alloced(8))
qed

lemma sample_cold_settings: "settings sample_cold = settings (sample_store True)" "cls_size (slabclass sample_cold ! 1) = 96" "power_largest sample_cold = 2"
  by (simp_all add: sample_cold_def lru_mode_def refcount_decr_def upd_item_def sample_linked_def do_item_link_header sample_alloced(5)
      sample_alloced(12,13) [simplified] sample_store_eq sample_items_simps)

text \<open>A second item with the same key is allocated beside the linked one.\<close>

lemma sample_second:
  "\<exists>it t. it \<noteq> 1096 \<and> it \<noteq> 0 \<and> store_run t ((\<lambda>_. 0)(1096 := 1, it := 1)) \<and> few_refs t ((\<lambda>_. 0)(1096 := 1, it := 1)) \<and>
     item_key t it = bytes ''a'' \<and> item_key t 1096 = bytes ''a'' \<and> \<not> linked_flag t it \<and> linked_flag t 1096"
proof -
  let ?s = "sample_linked True" and ?R = "(\<lambda>_. 0)(1096 := 1) :: nat \<Rightarrow> nat"
  have b: "bump_buf ?s = []" by (simp add: sample_linked_def do_item_link_bump sample_alloced(10))
  obtain L where inv: "store_inv ?s L (refs ?s ?R)" using store_run_ok [OF sample_linked_run(1)] by (auto simp: store_ok_def)
  have st: "new_ntotal (bytes ''a'') 0 2 ?s = 60" "st_slab_chunk_size_max (settings ?s) = 128" "st_item_size_max (settings ?s) = 1024"
    "st_lru_segmented (settings ?s)" "st_tail_repair_time (settings ?s) = 0"
    by (simp_all add: sample_linked_def do_item_link_header sample_alloced(5) new_ntotal_def item_make_header_def sample_store_eq sample_items_simps bytes_def)
  have cls: "sl_curr (slabclass ?s ! 1) = 1" "cls_size (slabclass ?s ! 1) = 96" "power_largest ?s = 2"
    unfolding sample_linked_def do_item_link_header by (rule sample_alloced)+
  have may: "may_alloc (sample_env 0) (bytes ''a'') 0 2 ?s" unfolding may_alloc_def malloc_fresh_def st by (simp add: sample_env_def)
  have cid: "slabs_clsid ?s (unat (new_ntotal (bytes ''a'') 0 2 ?s)) = 1"
    unfolding st(1) slabs_clsid_def st(3) by (simp add: clsid_loop.simps cls [simplified])
  have c: "class_range ?s 1" by (simp add: class_range_def cls)
  then have "free_list ?s 1 \<noteq> []" using free_okD(3) [OF slabs_invD(3) [OF store_invD(1) [OF inv]] c] cls(1) by auto
  moreover from slabs_alloc_obtained [OF inv, of 0 1 True] obtain it x where
    x: "do_slabs_alloc True 0 1 0 ?s = Some (it, x)" "obtained 1 it ?s x" "it = 0 \<longrightarrow> class_range ?s 1 \<longrightarrow> free_list ?s 1 = []"
    by (auto simp: malloc_fresh_def)
  ultimately have it: "it \<noteq> 0" using c by blast
  then have "alloc_pull_loop (sample_env 0) 1 0 ?s = Some (it, 0, x)" using x(1) st(4) by (subst alloc_pull_loop.simps) (simp add: sample_env_def)
  then have p: "do_item_alloc_pull (sample_env 0) 1 ?s = Some (it, x)" by (simp add: do_item_alloc_pull_def)
  have small: "unat (new_ntotal (bytes ''a'') 0 2 ?s) \<le> st_slab_chunk_size_max (settings ?s)" unfolding st by simp
  let ?t = "set_item_key it (bytes ''a'') (upd_item it (init_item (settings x) (current_time x) 1 0 1 0 0 2) x)"
  have a: "do_item_alloc (sample_env 0) (bytes ''a'') 0 0 2 ?s = Some (it, ?t)"
    unfolding do_item_alloc_small [OF small refl] cid p using it by (simp add: bytes_def)
  have ok: "?R it = 0 \<and> \<not> linked_flag ?t it \<and> item_key ?t it = bytes ''a''"
    using alloc_store_ok [OF store_run_ok [OF sample_linked_run(1)] sample_linked_run(2) may, of 0] it unfolding a by simp
  then have ne: "it \<noteq> 1096" by auto
  have f: "index_find (tab ?s) (bytes ''a'') = Some 1096" unfolding sample_linked_run(3) by (rule fun_upd_same)
  then have l: "is_linked L 1096" "item_key ?s 1096 = bytes ''a''" using store_invD(6) [OF inv] by blast+
  then have "(item_cls ?s 1096, 1096) \<in> slab_live ?s" by (intro store_invD(9) [OF inv]) (simp add: in_use_def)
  then have "heap x 1096 = heap ?s 1096" using x(2) unfolding obtained_def by blast
  then have "heap ?t 1096 = heap ?s 1096" using ne by (simp add: set_item_key_def)
  then have "linked_flag ?t 1096" using flag_linked [OF inv, of 1096] l(1) by (simp add: linked_flag_def in_use_def)
  moreover have "item_key ?t 1096 = item_key ?s 1096" using x(2) ne by (simp add: item_key_def set_item_key_def upd_item_def obtained_def same_store_def)
  moreover have "store_run ?t (?R(it := 1))" using store_run.step [OF sample_linked_run(1) store_step.alloc [OF sample_linked_run(2) may a]] it by simp
  moreover have "bump_buf ?t = []" using x(2) b by (simp add: set_item_key_def upd_item_def obtained_def same_store_def)
  then have "few_refs ?t (?R(it := 1))" by (rule few_refs_zero) simp
  ultimately show ?thesis using it ne ok unfolding l(2) by (intro exI [of _ it] exI [of _ ?t] conjI) blast+
qed

section \<open>Properties\<close>

text \<open>
  C15.  In every state the item store can reach, whatever the workers, the background threads and the clock do: a key
  is in the index exactly when an allocated item with that key is marked as linked, and then the index names that
  item; every item a worker holds a reference to is allocated; the reference count of every allocated item is the
  number of references the workers and the bump buffer hold, plus one when it is linked, and is never zero, so nothing
  is freed while in use and nothing is leaked; and the item counter is the number of items in the index.
\<close>

theorem store_run_consistent:
  assumes "store_run s R"
  shows "(\<forall>k a. index_find (tab s) k = Some a \<longleftrightarrow> (\<exists>c. (c, a) \<in> slab_live s) \<and> linked_flag s a \<and> item_key s a = k) \<and>
    (\<forall>a. 0 < R a \<longrightarrow> (\<exists>c. (c, a) \<in> slab_live s)) \<and>
    (\<forall>c a. (c, a) \<in> slab_live s \<longrightarrow> c = item_cls s a \<and>
       it_refcount (heap s a) = of_nat (refs s R a + of_bool (linked_flag s a)) \<and> it_refcount (heap s a) \<noteq> 0) \<and>
    curr_items s = of_nat (card {a. \<exists>k. index_find (tab s) k = Some a})"
proof -
  obtain L where inv: "store_inv s L (refs s R)" using store_run_ok [OF assms] by (auto simp: store_ok_def)
  have "\<exists>c. (c, a) \<in> slab_live s" if "0 < R a" for a
    using store_invD(9) [OF inv, of a] held_refs [of R a s, OF that] by (auto simp: in_use_def)
  then show ?thesis using store_invD(6) [OF inv] linked_flag_live [OF inv] live_refcount [OF inv] linked_count [OF inv] by blast
qed

theorem store_run_consistent_witness:
  "store_run (sample_linked True) ((\<lambda>_. 0)(1096 := 1)) \<and> index_find (tab (sample_linked True)) (bytes ''a'') = Some 1096 \<and>
   linked_flag (sample_linked True) 1096 \<and> it_refcount (heap (sample_linked True) 1096) = 2 \<and> curr_items (sample_linked True) = 1"
proof -
  note r = sample_linked_run [of True] and c = store_run_consistent [OF sample_linked_run(1) [of True]]
  have f: "index_find (tab (sample_linked True)) (bytes ''a'') = Some 1096" by (simp add: r(3))
  then have l: "\<exists>c. (c, 1096) \<in> slab_live (sample_linked True)" "linked_flag (sample_linked True) 1096" using c by blast+
  have "refs (sample_linked True) ((\<lambda>_. 0)(1096 := 1)) 1096 = 1" by (simp add: refs_def sample_linked_def do_item_link_bump sample_alloced(10))
  moreover have "it_refcount (heap (sample_linked True) 1096) =
      of_nat (refs (sample_linked True) ((\<lambda>_. 0)(1096 := 1)) 1096 + of_bool (linked_flag (sample_linked True) 1096))" using c l(1) by blast
  ultimately have "it_refcount (heap (sample_linked True) 1096) = 2" using l(2) by (simp del: One_nat_def)
  moreover have "{a. \<exists>k. index_find (tab (sample_linked True)) k = Some a} = {1096}" by (auto simp: r(3) split: if_splits)
  then have "curr_items (sample_linked True) = 1" using c by simp
  ultimately show ?thesis using r(1) f l(2) by blast
qed

text \<open>
  C16.  A lookup in any reachable state ends and returns the item of the key, with one more reference, unless the index
  has no such key or its item has expired or was flushed; a dead item is removed from the index by the lookup that
  finds it, and no other key is affected.  The store stays well formed.
\<close>

theorem item_lookup:
  assumes "store_run s R" and "few_refs s R"
  shows "\<exists>it t. do_item_get room key (hash_fn (tab s) key) upd s = Some (it, t) \<and> store_run t (if it = 0 then R else R(it := R it + 1)) \<and>
    (case index_find (tab s) key of
       None \<Rightarrow> it = 0 \<and> t = s
     | Some a \<Rightarrow> a \<noteq> 0 \<and> it = (if item_dead s a then 0 else a) \<and>
         index_find (tab t) = (if item_dead s a then (index_find (tab s))(key := None) else index_find (tab s)))"
proof -
  from get_store_ok [OF store_run_ok [OF assms(1)] assms(2), of room key upd] obtain it t where
    t: "do_item_get room key (hash_fn (tab s) key) upd s = Some (it, t)"
    "case index_find (tab s) key of None \<Rightarrow> it = 0 \<and> t = s
     | Some a \<Rightarrow> a \<noteq> 0 \<and> it = (if item_dead s a then 0 else a) \<and>
         index_find (tab t) = (if item_dead s a then (index_find (tab s))(key := None) else index_find (tab s))" by blast
  with store_run.step [OF assms(1) store_step.get [OF assms(2) t(1)]] show ?thesis by blast
qed

theorem item_lookup_witness:
  "\<exists>t. do_item_get True (bytes ''a'') (hash_fn (tab (sample_linked True)) (bytes ''a'')) True (sample_linked True) = Some (1096, t) \<and>
     index_find (tab t) = [bytes ''a'' \<mapsto> 1096]"
  using item_lookup [OF sample_linked_run(1,2), of True "bytes ''a''" True True] by (auto simp: sample_linked_run(3,4))

text \<open>
  C17.  Searching the tail of a queue, in any reachable state and whatever items are locked, ends and forgets only items
  that have expired or were flushed, except at most one, and that one only when the search is of the cold queue, is
  asked to evict and eviction is enabled.  No key is added or bound to another item.
\<close>

theorem eviction_bounded:
  assumes "store_run s R" and "few_refs s R" and "st_tail_repair_time (settings s) = 0"
    and "p_cur_lru p \<in> {HOT_LRU, WARM_LRU, COLD_LRU, TEMP_LRU}" and "p_flags p AND LRU_PULL_RETURN_ITEM = 0"
  shows "\<exists>n r t. lru_pull_tail p s = Some (n, r, t) \<and> store_run t R \<and> forgets_at_most (of_bool (evicting p s)) s t"
proof -
  from pull_store_ok [OF store_run_ok [OF assms(1)] assms(2-5)] obtain n r t where
    t: "lru_pull_tail p s = Some (n, r, t)" "forgets_at_most (of_bool (evicting p s)) s t" by blast
  with store_run.step [OF assms(1) store_step.pull [OF assms(2-5) t(1)]] show ?thesis by blast
qed

theorem eviction_bounded_witness:
  "\<exists>n r t. lru_pull_tail (alloc_pull_args (sample_env 0 0) 0 1 HOT_LRU 0) (sample_linked True) = Some (n, r, t) \<and>
     index_find (tab t) (bytes ''a'') = Some 1096"
proof -
  let ?p = "alloc_pull_args (sample_env 0 0) 0 1 HOT_LRU 0"
  have "st_tail_repair_time (settings (sample_linked True)) = 0"
    by (simp add: sample_linked_def do_item_link_header sample_alloced(5) sample_store_eq sample_items_simps)
  from eviction_bounded [OF sample_linked_run(1,2) this, of ?p] obtain n r t where
    t: "lru_pull_tail ?p (sample_linked True) = Some (n, r, t)" "forgets_at_most (of_bool (evicting ?p (sample_linked True))) (sample_linked True) t"
    by (auto simp: alloc_pull_args_def)
  moreover have "\<not> evicting ?p (sample_linked True)" by (simp add: evicting_def alloc_pull_args_def)
  moreover have "index_find (tab (sample_linked True)) (bytes ''a'') = Some 1096" unfolding sample_linked_run(3) by (rule fun_upd_same)
  ultimately show ?thesis using forgets_none [OF _ _ sample_linked_run(4)] by fastforce
qed

text \<open>
  C18.  Allocating an item in any reachable state ends.  If it gives an item, nobody holds or finds that item yet: its
  only reference is the caller's, it is not linked, and it has the requested key, expiry time and size.  At most ten
  items that had neither expired nor been flushed are evicted on the way, none when eviction is disabled, and no other
  key is affected.  The assumptions are that the item is not chunked and that \<^verbatim>\<open>malloc\<close> returns memory that is not in use.
\<close>

theorem item_alloc_spec:
  assumes "store_run s R" and "few_refs s R" and "may_alloc env key flags nbytes s"
  shows "\<exists>it t. do_item_alloc env key flags exptime nbytes s = Some (it, t) \<and> forgets_at_most 10 s t \<and>
    store_run t (if it = 0 then R else R(it := 1)) \<and>
    (it \<noteq> 0 \<longrightarrow> R it = 0 \<and> \<not> linked_flag t it \<and> item_key t it = key \<and> it_exptime (heap t it) = exptime \<and> it_nbytes (heap t it) = nbytes)"
proof -
  from alloc_store_ok [OF store_run_ok [OF assms(1)] assms(2,3), of exptime] obtain it t where
    t: "do_item_alloc env key flags exptime nbytes s = Some (it, t)" "forgets_at_most 10 s t"
    "if it = 0 then store_ok t R else R it = 0 \<and> store_ok t (R(it := 1)) \<and> \<not> linked_flag t it \<and> item_key t it = key \<and>
       it_exptime (heap t it) = exptime \<and> it_nbytes (heap t it) = nbytes" by blast
  with store_run.step [OF assms(1) store_step.alloc [OF assms(2,3) t(1)]] show ?thesis by (intro exI [of _ it] exI [of _ t]) (simp split: if_splits)
qed

theorem item_alloc_spec_witness:
  "\<exists>it t. do_item_alloc (sample_env 1000) (bytes ''a'') 0 0 2 (sample_store True) = Some (it, t) \<and> it = 1096 \<and>
     \<not> linked_flag t it \<and> item_key t it = bytes ''a''"
proof -
  from item_alloc_spec [OF sample_started_run sample_bump(2) sample_may [of 1000 True], of 0] obtain it t where
    t: "do_item_alloc (sample_env 1000) (bytes ''a'') 0 0 2 (sample_store True) = Some (it, t)"
    "it \<noteq> 0 \<longrightarrow> \<not> linked_flag t it \<and> item_key t it = bytes ''a''" by blast
  moreover have "it = 1096" using t(1) unfolding sample_alloced(1) by simp
  ultimately show ?thesis by auto
qed

text \<open>
  C19.  Allocation does not fail while there is something to evict: in the segmented mode with eviction enabled, if the
  coldest item of the class is not referenced, is not a crawler's marker and can be locked, an allocation for that
  class gives an item even when \<^verbatim>\<open>malloc\<close> gives no memory.
\<close>

theorem alloc_evicts:
  assumes run: "store_run s R" "few_refs s R" and may: "may_alloc env key flags nbytes s"
    and cid: "2 \<le> sint nbytes" "cid = slabs_clsid s (unat (new_ntotal key flags nbytes s))" "cid \<noteq> 0"
    and mode: "st_lru_segmented (settings s)" "st_evict_to_free (settings s)"
    and cold: "a = tails s (of_nat cid OR COLD_LRU)" "a \<noteq> 0" "refs s R a = 0" "\<not> is_crawler (heap s a)"
    and lock: "e_trylock (env 0) 1 5 (item_hv s a)"
  shows "\<exists>it t. do_item_alloc env key flags exptime nbytes s = Some (it, t) \<and> it \<noteq> 0"
proof -
  obtain L where inv: "store_inv s L (refs s R)" using store_run_ok [OF run(1)] by (auto simp: store_ok_def)
  have fresh: "malloc_fresh s (e_malloc_ret (env j)) (page_len s c)" for j c using may by (simp add: may_alloc_def)
  have small: "unat (new_ntotal key flags nbytes s) \<le> st_slab_chunk_size_max (settings s)" and nr: "st_tail_repair_time (settings s) = 0"
    using may by (simp_all add: may_alloc_def)
  have "cid < 64" using slabs_clsid_bound [OF store_invD(1) [OF inv]] cid(2) by simp
  from alloc_pull_evicts [of s L "refs s R" env cid a, OF inv few_refsD(2) [OF run(2)] nr fresh mode this cid(3) cold lock] obtain it t where
    p: "do_item_alloc_pull env cid s = Some (it, t)" "it \<noteq> 0" by blast
  show ?thesis unfolding do_item_alloc_small [OF small cid(2)] p(1) using p(2) cid(1,3) by simp
qed

theorem alloc_evicts_witness:
  "tails sample_cold 129 = 1096 \<and>
   (\<exists>it t. do_item_alloc (sample_env 0) (bytes ''b'') 0 0 2 sample_cold = Some (it, t) \<and> it \<noteq> 0)"
proof -
  have st: "new_ntotal (bytes ''b'') 0 2 sample_cold = 60" "st_slab_chunk_size_max (settings sample_cold) = 128"
    "st_item_size_max (settings sample_cold) = 1024" "st_lru_segmented (settings sample_cold)" "st_evict_to_free (settings sample_cold)"
    "st_tail_repair_time (settings sample_cold) = 0"
    by (simp_all add: sample_cold_settings new_ntotal_def item_make_header_def sample_store_eq sample_items_simps bytes_def)
  have may: "may_alloc (sample_env 0) (bytes ''b'') 0 2 sample_cold" unfolding may_alloc_def malloc_fresh_def st by (simp add: sample_env_def)
  have cid: "1 = slabs_clsid sample_cold (unat (new_ntotal (bytes ''b'') 0 2 sample_cold))"
    unfolding st(1) slabs_clsid_def st(3) by (simp add: clsid_loop.simps sample_cold_settings [simplified])
  have tl: "1096 = tails sample_cold (of_nat 1 OR COLD_LRU)" using sample_cold_run(3) by simp
  have "\<not> is_crawler (heap sample_cold 1096)" using sample_cold_run(5) by (simp add: is_crawler_def)
  moreover have "refs sample_cold (\<lambda>_. 0) 1096 = 0" by (simp add: refs_def sample_cold_run(4))
  moreover have "e_trylock (sample_env 0 0) 1 5 (item_hv sample_cold 1096)" by (simp add: sample_env_def)
  ultimately have "\<exists>it t. do_item_alloc (sample_env 0) (bytes ''b'') 0 0 2 sample_cold = Some (it, t) \<and> it \<noteq> 0"
    by (intro alloc_evicts [OF sample_cold_run(1,2) may _ cid _ st(4,5) tl]) simp_all
  then show ?thesis using sample_cold_run(3) by blast
qed

text \<open>
  C20.  Replacing the item of a key by a new one with the same key makes exactly that key name the new item: a lookup of
  the key then returns the new item, unless that is already dead, and every other key is found as before.
\<close>

theorem replaced_item_found:
  assumes run: "store_run s R" "few_refs s R" and it: "0 < R it" "linked_flag s it" and new: "0 < R new_it" "\<not> linked_flag s new_it"
    and key: "item_key s new_it = item_key s it"
  shows "\<exists>t. do_item_replace it new_it (item_hv s it) s = Some t \<and> store_run t R \<and>
    index_find (tab t) = (index_find (tab s))(item_key s it \<mapsto> new_it) \<and>
    (few_refs t R \<longrightarrow> (\<exists>u. do_item_get room (item_key s it) (hash_fn (tab t) (item_key s it)) upd t =
       Some (if item_dead t new_it then 0 else new_it, u)))"
proof -
  from replace_store_ok [OF store_run_ok [OF run(1)] it new key run(2)] obtain t where
    t: "do_item_replace it new_it (item_hv s it) s = Some t" "store_ok t R" "index_find (tab t) = (index_find (tab s))(item_key s it \<mapsto> new_it)" by blast
  have "store_run t R" by (rule store_run.step [OF run(1) store_step.replace [OF run(2) it new key t(1)]])
  moreover have "\<exists>u. do_item_get room (item_key s it) (hash_fn (tab t) (item_key s it)) upd t = Some (if item_dead t new_it then 0 else new_it, u)"
    if "few_refs t R"
    using get_store_ok [OF t(2) that, of room "item_key s it" upd] t(3) by auto
  ultimately show ?thesis using t(1,3) by blast
qed

theorem replaced_item_found_witness:
  "\<exists>s t it. it \<noteq> 1096 \<and> do_item_replace 1096 it (item_hv s 1096) s = Some t \<and> index_find (tab t) (bytes ''a'') = Some it"
proof -
  from sample_second obtain it s where s: "it \<noteq> 1096" "store_run s ((\<lambda>_. 0)(1096 := 1, it := 1))" "few_refs s ((\<lambda>_. 0)(1096 := 1, it := 1))"
    "item_key s it = bytes ''a''" "item_key s 1096 = bytes ''a''" "\<not> linked_flag s it" "linked_flag s 1096" by blast
  have h: "0 < ((\<lambda>_. 0)(1096 := 1, it := 1 :: nat)) 1096" "0 < ((\<lambda>_. 0)(1096 := 1, it := 1 :: nat)) it" by simp_all
  have k: "item_key s it = item_key s 1096" using s(4,5) by simp
  from replaced_item_found [of s _ 1096 it, OF s(2,3) h(1) s(7) h(2) s(6) k] obtain t where
    "do_item_replace 1096 it (item_hv s 1096) s = Some t" "index_find (tab t) = (index_find (tab s))(item_key s 1096 \<mapsto> it)" by blast
  then show ?thesis using s(1,5) by (metis fun_upd_same)
qed

text \<open>
  C21.  A round of the maintainer over a class, in any reachable state and whatever items are locked, ends and forgets
  only items that have expired or were flushed.
\<close>

theorem maintainer_round:
  assumes "store_run s R" and "few_refs s R" and "st_tail_repair_time (settings s) = 0"
  shows "\<exists>n t. lru_maintainer_juggle lkt lk cid s = Some (n, t) \<and> store_run t R \<and> forgets_at_most 0 s t"
proof -
  from juggle_store_ok [OF store_run_ok [OF assms(1)] assms(2,3)] obtain n t where
    t: "lru_maintainer_juggle lkt lk cid s = Some (n, t)" "forgets_at_most 0 s t" by blast
  with store_run.step [OF assms(1) store_step.juggle [OF assms(2,3) t(1)]] show ?thesis by blast
qed

theorem maintainer_round_witness:
  "\<exists>n t. lru_maintainer_juggle (\<lambda>_ _ _. True) (\<lambda>_ _ _ _. True) 1 (sample_linked True) = Some (n, t) \<and>
     index_find (tab t) (bytes ''a'') = Some 1096"
proof -
  have "st_tail_repair_time (settings (sample_linked True)) = 0"
    by (simp add: sample_linked_def do_item_link_header sample_alloced(5) sample_store_eq sample_items_simps)
  from maintainer_round [OF sample_linked_run(1,2) this] obtain n t where
    t: "lru_maintainer_juggle (\<lambda>_ _ _. True) (\<lambda>_ _ _ _. True) 1 (sample_linked True) = Some (n, t)" "forgets_at_most 0 (sample_linked True) t" by blast
  have "index_find (tab (sample_linked True)) (bytes ''a'') = Some 1096" unfolding sample_linked_run(3) by (rule fun_upd_same)
  then show ?thesis using t forgets_none [OF t(2) _ sample_linked_run(4)] by blast
qed

end
