(* ===== verification/Admission.thy ===== *)
theory Admission
  imports Complex_Main "HOL-Library.Multiset" Itoa
begin

text \<open>
  The demand-aware admission prototype (\<^verbatim>\<open>src/extensions/demand-aware-admission/threshold_trace_demo.py\<close>):
  the LRU cache, the trace generator and the two simulated policies.  Python's integers are \<open>int\<close>, an ordered
  dictionary whose values are all \<open>True\<close> is the list of its keys, and the exceptions are values.  What the script
  prints is not modelled; the hit rate is the exact quotient instead of a floating point number.  A trace
  generator that does not return is \<open>None\<close>.
\<close>

section \<open>The cache\<close>

datatype py_error = ValueError | KeyError | ZeroDivisionError

record LruCache =
  capacity :: int
  lru_items :: "u8 list list"

definition LruCache_init :: "int \<Rightarrow> LruCache" where
  "LruCache_init cap = \<lparr>capacity = cap, lru_items = []\<rparr>"

definition move_to_end :: "'a \<Rightarrow> 'a list \<Rightarrow> 'a list" where
  "move_to_end k ks = remove1 k ks @ [k]"

definition LruCache_get :: "u8 list \<Rightarrow> LruCache \<Rightarrow> bool \<times> LruCache" where
  "LruCache_get key c =
     (if key \<notin> set (lru_items c) then (False, c)
      else (True, c\<lparr>lru_items := move_to_end key (lru_items c)\<rparr>))"

definition LruCache_put :: "u8 list \<Rightarrow> LruCache \<Rightarrow> py_error + u8 list option \<times> LruCache" where
  "LruCache_put key c =
     (if key \<in> set (lru_items c) then Inr (None, c\<lparr>lru_items := move_to_end key (lru_items c)\<rparr>)
      else if capacity c \<le> int (length (lru_items c)) then
        (case lru_items c of
           [] \<Rightarrow> Inl KeyError
         | evicted # rest \<Rightarrow> Inr (Some evicted, c\<lparr>lru_items := rest @ [key]\<rparr>))
      else Inr (None, c\<lparr>lru_items := lru_items c @ [key]\<rparr>))"

section \<open>Traces\<close>

definition cold_key :: "int \<Rightarrow> u8 list" where
  "cold_key i = bytes ''cold_'' @ decimal (nat i)"

definition append_hot :: "u8 list \<Rightarrow> int \<times> u8 list list \<Rightarrow> int \<times> u8 list list" where
  "append_hot key = (\<lambda>(hot_left, trace). if hot_left \<noteq> 0 then (hot_left - 1, trace @ [key]) else (hot_left, trace))"

definition append_cold :: "int \<times> int \<times> u8 list list \<Rightarrow> int \<times> int \<times> u8 list list" where
  "append_cold = (\<lambda>(cold_index, cold_left, trace).
     if cold_left \<noteq> 0 then (cold_index + 1, cold_left - 1, trace @ [cold_key cold_index])
     else (cold_index, cold_left, trace))"

partial_function (option) interleave_loop ::
  "u8 list \<Rightarrow> int \<Rightarrow> int \<Rightarrow> int \<Rightarrow> u8 list list \<Rightarrow> u8 list list option" where
  "interleave_loop key hot_left cold_index cold_left trace =
     (if hot_left = 0 \<and> cold_left = 0 then Some trace
      else case append_hot key (hot_left, trace) of (hot1, trace1) \<Rightarrow>
           case append_cold (append_cold (cold_index, cold_left, trace1)) of (index2, cold2, trace2) \<Rightarrow>
             interleave_loop key hot1 index2 cold2 trace2)"

definition build_trace :: "int \<Rightarrow> u8 list \<Rightarrow> int \<Rightarrow> bool \<Rightarrow> (py_error + u8 list list) option" where
  "build_trace total_requests repeated_key repeated_count interleave =
     (if repeated_count > total_requests then Some (Inl ValueError)
      else if \<not> interleave then
        Some (Inr (replicate (nat repeated_count) repeated_key @
                   map (\<lambda>i. cold_key (int i)) [0..<nat (total_requests - repeated_count)]))
      else map_option Inr (interleave_loop repeated_key repeated_count 0 (total_requests - repeated_count) []))"

section \<open>The policies\<close>

record sim_result =
  r_hits :: nat
  r_hit_rate :: rat
  r_admitted :: nat
  r_first_admitted_at :: "nat option"
  r_final_cache :: "u8 list list"

fun cache_all_loop :: "u8 list list \<Rightarrow> LruCache \<Rightarrow> nat \<Rightarrow> nat \<Rightarrow> py_error + LruCache \<times> nat \<times> nat" where
  "cache_all_loop [] cache hits admitted = Inr (cache, hits, admitted)"
| "cache_all_loop (key # trace) cache hits admitted =
     (case LruCache_get key cache of
        (True, cache') \<Rightarrow> cache_all_loop trace cache' (hits + 1) admitted
      | (False, cache') \<Rightarrow>
          (case LruCache_put key cache' of
             Inl e \<Rightarrow> Inl e
           | Inr (_, cache'') \<Rightarrow> cache_all_loop trace cache'' hits (admitted + 1)))"

definition simulate_cache_all :: "u8 list list \<Rightarrow> int \<Rightarrow> py_error + sim_result" where
  "simulate_cache_all trace cache_capacity =
     (case cache_all_loop trace (LruCache_init cache_capacity) 0 0 of
        Inl e \<Rightarrow> Inl e
      | Inr (cache, hits, admitted) \<Rightarrow>
          if trace = [] then Inl ZeroDivisionError
          else Inr \<lparr>r_hits = hits, r_hit_rate = of_nat hits / of_nat (length trace), r_admitted = admitted,
                    r_first_admitted_at = None, r_final_cache = lru_items cache\<rparr>)"

fun demand_loop :: "int \<Rightarrow> nat \<Rightarrow> u8 list list \<Rightarrow> LruCache \<Rightarrow> (u8 list \<Rightarrow> nat) \<Rightarrow> nat \<Rightarrow> nat \<Rightarrow> nat option \<Rightarrow>
    py_error + LruCache \<times> nat \<times> nat \<times> nat option" where
  "demand_loop threshold request_number [] cache counts hits admitted first = Inr (cache, hits, admitted, first)"
| "demand_loop threshold request_number (key # trace) cache counts hits admitted first =
     (case LruCache_get key cache of
        (True, cache') \<Rightarrow> demand_loop threshold (request_number + 1) trace cache' counts (hits + 1) admitted first
      | (False, cache') \<Rightarrow>
          (let counts' = counts(key := counts key + 1) in
           if threshold \<le> int (counts' key) then
             (case LruCache_put key cache' of
                Inl e \<Rightarrow> Inl e
              | Inr (_, cache'') \<Rightarrow>
                  demand_loop threshold (request_number + 1) trace cache'' counts' hits (admitted + 1)
                    (if first = None then Some request_number else first))
           else demand_loop threshold (request_number + 1) trace cache' counts' hits admitted first))"

definition simulate_demand_aware :: "u8 list list \<Rightarrow> int \<Rightarrow> int \<Rightarrow> py_error + sim_result" where
  "simulate_demand_aware trace cache_capacity threshold =
     (case demand_loop threshold 1 trace (LruCache_init cache_capacity) (\<lambda>_. 0) 0 0 None of
        Inl e \<Rightarrow> Inl e
      | Inr (cache, hits, admitted, first) \<Rightarrow>
          if trace = [] then Inl ZeroDivisionError
          else Inr \<lparr>r_hits = hits, r_hit_rate = of_nat hits / of_nat (length trace), r_admitted = admitted,
                    r_first_admitted_at = first, r_final_cache = lru_items cache\<rparr>)"

section \<open>The cache keeps its bound\<close>

definition lru_ok :: "LruCache \<Rightarrow> bool" where
  "lru_ok c \<longleftrightarrow> 0 < capacity c \<and> distinct (lru_items c) \<and> int (length (lru_items c)) \<le> capacity c"

lemma lru_init_ok: "0 < cap \<Longrightarrow> lru_ok (LruCache_init cap)"
  by (simp add: lru_ok_def LruCache_init_def)

lemma set_move_to_end: "k \<in> set ks \<Longrightarrow> set (move_to_end k ks) = set ks"
  by (induction ks) (auto simp: move_to_end_def)

lemma length_move_to_end: "k \<in> set ks \<Longrightarrow> length (move_to_end k ks) = length ks"
  by (induction ks) (auto simp: move_to_end_def)

lemma distinct_move_to_end: "distinct ks \<Longrightarrow> distinct (move_to_end k ks)"
  by (simp add: move_to_end_def)

lemma get_hit_ok:
  assumes "lru_ok c" "LruCache_get key c = (True, c')"
  shows "lru_ok c'" "capacity c' = capacity c" "set (lru_items c') = set (lru_items c)" "key \<in> set (lru_items c)"
proof -
  have c': "key \<in> set (lru_items c)" "c' = c\<lparr>lru_items := move_to_end key (lru_items c)\<rparr>"
    using assms(2) unfolding LruCache_get_def by (simp_all split: if_splits)
  then show "lru_ok c'" "capacity c' = capacity c" "set (lru_items c') = set (lru_items c)" "key \<in> set (lru_items c)"
    using assms(1) by (simp_all add: lru_ok_def set_move_to_end length_move_to_end distinct_move_to_end)
qed

lemma get_miss: "LruCache_get key c = (False, c') \<longleftrightarrow> key \<notin> set (lru_items c) \<and> c' = c"
  by (auto simp: LruCache_get_def)

lemma put_new_ok:
  assumes ok: "lru_ok c" and new: "key \<notin> set (lru_items c)"
  obtains ev c' where "LruCache_put key c = Inr (ev, c')" "lru_ok c'" "capacity c' = capacity c" "last (lru_items c') = key"
    "set (lru_items c') = insert key (set (lru_items c) - set_option ev)"
    "ev = (if int (length (lru_items c)) < capacity c then None else Some (hd (lru_items c)))"
proof (cases "int (length (lru_items c)) < capacity c")
  case True
  then show ?thesis
    using ok new that [of None "c\<lparr>lru_items := lru_items c @ [key]\<rparr>"] by (simp add: LruCache_put_def lru_ok_def)
next
  case False
  then obtain e es where c: "lru_items c = e # es" using ok by (cases "lru_items c") (simp_all add: lru_ok_def)
  let ?c = "c\<lparr>lru_items := es @ [key]\<rparr>"
  have "LruCache_put key c = Inr (Some e, ?c)" using False new c unfolding LruCache_put_def by simp
  moreover have "lru_ok ?c" using ok new c unfolding lru_ok_def by simp
  moreover have "capacity ?c = capacity c" "last (lru_items ?c) = key" by simp_all
  moreover have "set (lru_items ?c) = insert key (set (lru_items c) - set_option (Some e))"
    using ok c unfolding lru_ok_def by simp
  moreover have "Some e = (if int (length (lru_items c)) < capacity c then None else Some (hd (lru_items c)))"
    using False c by simp
  ultimately show ?thesis by (rule that)
qed

section \<open>The traces\<close>

fun colds :: "int \<Rightarrow> nat \<Rightarrow> u8 list list" where
  "colds i 0 = []"
| "colds i (Suc n) = cold_key i # colds (i + 1) n"

lemma length_colds [simp]: "length (colds i n) = n"
  by (induction n arbitrary: i) simp_all

lemma colds_upt: "colds (int i) n = map (\<lambda>j. cold_key (int j)) [i..<i + n]"
proof (induction n arbitrary: i)
  case (Suc n)
  then show ?case using Suc.IH [of "Suc i"] by (simp add: upt_conv_Cons [of i] add.commute del: upt_Suc)
qed simp

lemma append_cold_nat:
  "append_cold (i, int n, t) = (i + int (min 1 n), int (n - 1), t @ colds i (min 1 n))"
  by (cases n) (simp_all add: append_cold_def)

lemma append_hot_nat: "append_hot key (int n, t) = (int (n - 1), t @ replicate (min 1 n) key)"
  by (cases n) (simp_all add: append_hot_def)

lemma colds_two: "colds i (min 1 n) @ colds (i + int (min 1 n)) (min 1 (n - 1)) @
    colds (i + int (min 1 n) + int (min 1 (n - 1))) (n - 1 - 1) = colds i n"
  by (cases n; cases "n - 1") simp_all

lemma replicate_one: "replicate (min 1 n) k @ replicate (n - 1) k = replicate n k"
  by (cases n) simp_all

text \<open>For counts that are not negative the generator returns, and the trace holds the hot key and the cold keys.\<close>

lemma interleave_loop_keys:
  "\<exists>u. interleave_loop key (int h) i (int l) t = Some (t @ u) \<and>
     mset u = mset (replicate h key) + mset (colds i l)"
proof (induction "h + l" arbitrary: h i l t rule: less_induct)
  case less
  show ?case
  proof (cases "h + l = 0")
    case True
    then show ?thesis by (simp add: interleave_loop.simps)
  next
    case False
    let ?j = "i + int (min 1 l)" and ?h = "h - 1" and ?l = "l - 1 - 1"
    let ?u = "replicate (min 1 h) key @ colds i (min 1 l) @ colds ?j (min 1 (l - 1))"
    from False obtain v where v: "interleave_loop key (int ?h) (?j + int (min 1 (l - 1))) (int ?l) (t @ ?u) = Some ((t @ ?u) @ v)"
        "mset v = mset (replicate ?h key) + mset (colds (?j + int (min 1 (l - 1))) ?l)"
      using less [of ?h ?l "?j + int (min 1 (l - 1))" "t @ ?u"] by fastforce
    have "interleave_loop key (int h) i (int l) t = Some (t @ ?u @ v)"
      using False v(1) by (subst interleave_loop.simps) (auto simp: append_hot_nat append_cold_nat)
    moreover have "mset (?u @ v) = mset (replicate h key) + mset (colds i l)"
      by (simp add: v(2) flip: replicate_one [of h key] colds_two [of i l])
    ultimately show ?thesis by (intro exI [of _ "?u @ v"]) simp
  qed
qed

lemma build_trace_keys:
  assumes "0 \<le> n" "n \<le> N"
  shows "\<exists>tr. build_trace N key n il = Some (Inr tr) \<and> int (length tr) = N \<and>
    mset tr = mset (replicate (nat n) key) + mset (map (\<lambda>j. cold_key (int j)) [0..<nat (N - n)])"
proof -
  obtain u where "interleave_loop key n 0 (N - n) [] = Some u"
      and u: "mset u = mset (replicate (nat n) key) + mset (map (\<lambda>j. cold_key (int j)) [0..<nat (N - n)])"
    using interleave_loop_keys [of key "nat n" 0 "nat (N - n)" "[]"] colds_upt [of 0 "nat (N - n)"] assms
    by auto
  moreover have "length u = nat n + nat (N - n)"
    using arg_cong [OF u, of size] by simp
  ultimately show ?thesis using assms by (simp add: build_trace_def)
qed

text \<open>A negative count of the repeated key is not refused; with interleaving the generator never returns.\<close>

lemma interleave_loop_ends:
  assumes "interleave_loop key h i l t = Some r"
  shows "0 \<le> h"
proof (rule interleave_loop.raw_induct [where P = "\<lambda>key h i l t r. 0 \<le> h", OF _ assms])
  fix loop :: "u8 list \<Rightarrow> int \<Rightarrow> int \<Rightarrow> int \<Rightarrow> u8 list list \<Rightarrow> u8 list list option"
    and key h i l t r
  assume "\<And>key h i l t r. loop key h i l t = Some r \<Longrightarrow> 0 \<le> h"
    and "(if h = 0 \<and> l = 0 then Some t
      else case append_hot key (h, t) of (hot1, trace1) \<Rightarrow>
           case append_cold (append_cold (i, l, trace1)) of (index2, cold2, trace2) \<Rightarrow>
             loop key hot1 index2 cold2 trace2) = Some r"
  then show "0 \<le> h" by (fastforce simp: append_hot_def split: if_splits prod.splits)
qed

lemma build_trace_negative:
  "n < 0 \<Longrightarrow> n \<le> N \<Longrightarrow> build_trace N key n True = None"
  using interleave_loop_ends [of key n 0 "N - n" "[]"]
  by (cases "interleave_loop key n 0 (N - n) []") (simp_all add: build_trace_def)

section \<open>The policies\<close>

text \<open>Caching everything never fails on a cache with room, and every request is a hit or an admission.\<close>

lemma cache_all_loop_ok:
  assumes "lru_ok c"
  shows "\<exists>c' h' a'. cache_all_loop trace c h a = Inr (c', h', a') \<and> lru_ok c' \<and> capacity c' = capacity c \<and>
    h' + a' = h + a + length trace \<and>
    set (lru_items c') \<subseteq> set (lru_items c) \<union> set trace"
  using assms
proof (induction trace arbitrary: c h a)
  case (Cons key trace)
  obtain hit c1 where g: "LruCache_get key c = (hit, c1)" by (cases "LruCache_get key c")
  show ?case
  proof (cases hit)
    case True
    then show ?thesis using Cons.IH [of c1 "h + 1" a] get_hit_ok [OF Cons.prems, of key c1] g by auto
  next
    case False
    then have "key \<notin> set (lru_items c)" "c1 = c" using g get_miss by auto
    moreover obtain ev c2 where "LruCache_put key c = Inr (ev, c2)" "lru_ok c2" "capacity c2 = capacity c"
        "set (lru_items c2) = insert key (set (lru_items c) - set_option ev)"
      using put_new_ok [OF Cons.prems] calculation by metis
    ultimately show ?thesis using Cons.IH [of c2 h "a + 1"] g False by auto
  qed
qed simp

lemma cache_all_total:
  assumes "0 < cap" "trace \<noteq> []"
  shows "\<exists>r. simulate_cache_all trace cap = Inr r \<and> r_hits r + r_admitted r = length trace \<and>
    int (length (r_final_cache r)) \<le> cap \<and> distinct (r_final_cache r)"
proof -
  obtain c h a where "cache_all_loop trace (LruCache_init cap) 0 0 = Inr (c, h, a)" "lru_ok c"
      "capacity c = cap" "h + a = length trace"
    using cache_all_loop_ok [OF lru_init_ok [OF assms(1)], of trace 0 0] by (auto simp: LruCache_init_def)
  then show ?thesis using assms by (auto simp: simulate_cache_all_def lru_ok_def)
qed

text \<open>The demand-aware policy holds only keys that were requested at least \<open>threshold\<close> times: \<open>counts\<close> never
  exceeds the number of requests so far, here given by \<open>n\<close>.\<close>

definition demanded :: "int \<Rightarrow> (u8 list \<Rightarrow> nat) \<Rightarrow> int \<Rightarrow> nat \<Rightarrow> py_error + LruCache \<times> nat \<times> nat \<times> nat option \<Rightarrow> bool" where
  "demanded th n cap m r \<longleftrightarrow> (case r of Inl e \<Rightarrow> False | Inr (c, h, a, f) \<Rightarrow>
     lru_ok c \<and> capacity c = cap \<and> h + a \<le> m \<and> (\<forall>k \<in> set (lru_items c). th \<le> int (n k)))"

lemma demanded_mono: "demanded th n cap m r \<Longrightarrow> m \<le> m' \<Longrightarrow> demanded th n cap m' r"
  by (auto simp: demanded_def split: sum.splits)

lemma demand_miss:
  assumes "key \<notin> set (lru_items c)"
  shows "demand_loop th q (key # trace) c counts h a f =
    (if th \<le> int (counts key + 1) then
       (case LruCache_put key c of
          Inl e \<Rightarrow> Inl e
        | Inr (_, c') \<Rightarrow> demand_loop th (q + 1) trace c' (counts(key := counts key + 1)) h (a + 1) (if f = None then Some q else f))
     else demand_loop th (q + 1) trace c (counts(key := counts key + 1)) h a f)"
proof -
  have g: "LruCache_get key c = (False, c)" using assms get_miss by simp
  show ?thesis unfolding demand_loop.simps g Let_def prod.case bool.case fun_upd_same by (rule refl)
qed

lemma demand_loop_ok:
  assumes "lru_ok c" and "\<forall>k. counts k \<le> n k" and "\<forall>k \<in> set (lru_items c). th \<le> int (n k)"
  shows "demanded th (\<lambda>k. n k + count_list trace k) (capacity c) (h + a + length trace) (demand_loop th q trace c counts h a f)"
  using assms
proof (induction trace arbitrary: q c counts h a f n)
  case (Cons key trace)
  let ?n = "n(key := n key + 1)" and ?cs = "counts(key := counts key + 1)"
  have n: "(\<lambda>k. ?n k + count_list trace k) = (\<lambda>k. n k + count_list (key # trace) k)" by auto
  have le: "\<forall>k. counts k \<le> ?n k" "\<forall>k. ?cs k \<le> ?n k" using Cons.prems(2) by (auto intro: le_SucI)
  have th: "\<forall>k \<in> set (lru_items c). th \<le> int (?n k)" using Cons.prems(3) by auto
  show ?case
  proof (cases "key \<in> set (lru_items c)")
    case True
    then obtain c1 where g: "LruCache_get key c = (True, c1)" by (simp add: LruCache_get_def)
    note c1 = get_hit_ok [OF Cons.prems(1) g]
    have "demanded th (\<lambda>k. ?n k + count_list trace k) (capacity c1) (h + 1 + a + length trace)
        (demand_loop th (q + 1) trace c1 counts (h + 1) a f)"
      using Cons.IH c1(1) le(1) th unfolding c1(3) [symmetric] by blast
    then show ?thesis unfolding n c1(2) demand_loop.simps g by (simp add: add.assoc)
  next
    case False
    obtain ev c2 where p: "LruCache_put key c = Inr (ev, c2)" "lru_ok c2" "capacity c2 = capacity c"
        "set (lru_items c2) = insert key (set (lru_items c) - set_option ev)"
      using put_new_ok [OF Cons.prems(1) False] by metis
    have adm: "\<forall>k \<in> set (lru_items c2). th \<le> int (?n k)" if "th \<le> int (counts key + 1)"
      using that p(4) th Cons.prems(2) [rule_format, of key] by auto
    have "th \<le> int (counts key + 1) \<Longrightarrow> demanded th (\<lambda>k. ?n k + count_list trace k) (capacity c) (h + (a + 1) + length trace)
        (demand_loop th (q + 1) trace c2 ?cs h (a + 1) (if f = None then Some q else f))"
      using Cons.IH [OF p(2) le(2) adm] unfolding p(3) by blast
    moreover have "demanded th (\<lambda>k. ?n k + count_list trace k) (capacity c) (h + (a + 1) + length trace)
        (demand_loop th (q + 1) trace c ?cs h a f)"
      by (rule demanded_mono [OF Cons.IH [OF Cons.prems(1) le(2) th]]) simp
    ultimately show ?thesis unfolding n demand_miss [OF False] p(1) by simp
  qed
qed (simp add: demanded_def)

lemma demand_aware_admits:
  assumes "0 < cap" "trace \<noteq> []"
  shows "\<exists>r. simulate_demand_aware trace cap th = Inr r \<and> r_hits r + r_admitted r \<le> length trace \<and>
    int (length (r_final_cache r)) \<le> cap \<and> distinct (r_final_cache r) \<and>
    (\<forall>k \<in> set (r_final_cache r). th \<le> int (count_list trace k))"
  using demand_loop_ok [OF lru_init_ok [OF assms(1)], of "\<lambda>_. 0" "\<lambda>_. 0" th trace 0 0 1 None] assms
  by (auto simp: LruCache_init_def demanded_def simulate_demand_aware_def lru_ok_def split: sum.splits)

text \<open>With a threshold of at most one the policy is to cache everything.\<close>

lemma demand_loop_all:
  assumes "th \<le> 1"
  shows "map_sum (\<lambda>e. e) (\<lambda>(c, h, a, f). (c, h, a)) (demand_loop th q trace c counts h a f) = cache_all_loop trace c h a"
proof (induction trace arbitrary: q c counts h a f)
  case (Cons key trace)
  show ?case
  proof (cases "key \<in> set (lru_items c)")
    case True
    then show ?thesis using Cons.IH by (simp add: LruCache_get_def)
  next
    case False
    then have g: "LruCache_get key c = (False, c)" using get_miss by simp
    have th: "th \<le> int (counts key + 1)" using assms by simp
    show ?thesis
    proof (cases "LruCache_put key c")
      case (Inl e)
      then show ?thesis unfolding demand_miss [OF False] if_P [OF th] cache_all_loop.simps g by simp
    next
      case (Inr r)
      then show ?thesis
        unfolding demand_miss [OF False] if_P [OF th] cache_all_loop.simps g by (cases r) (simp only: sum.case prod.case bool.case Cons.IH)
    qed
  qed
qed simp

lemma demand_aware_one:
  assumes "th \<le> 1"
  shows "map_sum (\<lambda>e. e) (\<lambda>r. r\<lparr>r_first_admitted_at := None\<rparr>) (simulate_demand_aware trace cap th) =
     simulate_cache_all trace cap"
proof -
  let ?d = "demand_loop th 1 trace (LruCache_init cap) (\<lambda>_. 0) 0 0 None"
  have all: "cache_all_loop trace (LruCache_init cap) 0 0 = map_sum (\<lambda>e. e) (\<lambda>(c, h, a, f). (c, h, a)) ?d"
    by (rule demand_loop_all [OF assms, symmetric])
  show ?thesis
  proof (cases ?d)
    case (Inl e)
    then show ?thesis by (simp add: simulate_demand_aware_def simulate_cache_all_def all)
  next
    case (Inr r)
    then show ?thesis by (cases r) (simp add: simulate_demand_aware_def simulate_cache_all_def all)
  qed
qed

text \<open>A cache without room fails at the first key that is to be admitted.\<close>

lemma no_room: "cap \<le> 0 \<Longrightarrow> simulate_cache_all (key # trace) cap = Inl KeyError"
  by (simp add: simulate_cache_all_def LruCache_init_def LruCache_get_def LruCache_put_def)

text \<open>The run described in \<^verbatim>\<open>README.md\<close>: fifty requests, fifteen of them for one key.\<close>

definition demo_trace :: "u8 list list" where
  "demo_trace = concat (map (\<lambda>i. [bytes ''hot_hello'', cold_key (2 * int i), cold_key (2 * int i + 1)]) [0..<15]) @
     map (\<lambda>i. cold_key (int i)) [30..<35]"

lemma demo_run: "build_trace 50 (bytes ''hot_hello'') 15 True = Some (Inr demo_trace)"
  by (simp add: build_trace_def interleave_loop.simps append_hot_def append_cold_def demo_trace_def upt_rec)

lemma demo_demand: "map_sum id (\<lambda>r. (r_hits r, r_admitted r, r_first_admitted_at r, r_final_cache r))
    (simulate_demand_aware demo_trace 10 10) = Inr (5, 1, Some 28, [bytes ''hot_hello''])"
  by code_simp

lemma demo_all: "map_sum id (\<lambda>r. (r_hits r, r_admitted r)) (simulate_cache_all demo_trace 10) = Inr (14, 36)"
  by code_simp

end
