(* ===== verification/Spec2Isabelle.thy ===== *)
theory Spec2Isabelle
  imports Bmc_Correct Bmc_Safety Bmc_User Bipbuffer Assoc Util Crc32c Key_Hash Store_Correct Admission
begin

text \<open>
  Verification of bmc-cache: an in-kernel cache for memcached built from eBPF programs (\<^verbatim>\<open>src/bmc\<close>), the memcached
  server it runs in front of (\<^verbatim>\<open>src/memcached-sr\<close>), and a prototype of an admission policy
  (\<^verbatim>\<open>src/extensions/demand-aware-admission\<close>).

  \<^bold>\<open>The program.\<close>  Packets for the server first meet the programs of \<^verbatim>\<open>bmc_kern.c\<close> at the XDP hook: GET requests over
  UDP are parsed and, when a key looks cached, answered from the map \<^verbatim>\<open>map_kcache\<close>; SET requests over TCP invalidate
  their entries; everything else is passed on.  Replies of the server leave through the traffic-control
  hook, where they fill the cache.  \<^verbatim>\<open>bmc_user.c\<close> loads the programs and prints their statistics.  The server keeps
  items in chunks of the slab allocator (\<^verbatim>\<open>slabs.c\<close>), finds them through a hash table (\<^verbatim>\<open>assoc.c\<close>, with the hash
  functions of \<^verbatim>\<open>jenkins_hash.c\<close> and \<^verbatim>\<open>murmur3_hash.c\<close>) and orders them in LRU queues (\<^verbatim>\<open>items.c\<close>).

  \<^bold>\<open>The in-kernel cache.\<close>
  \<^item> \<^verbatim>\<open>Bmc_Prelude\<close>: machine integers, bytes, buffers and the rewrite rules on them that all theories share.
  \<^item> \<^verbatim>\<open>Bmc_Data\<close>: the structures and maps of \<^verbatim>\<open>bmc_common.h\<close> and \<^verbatim>\<open>bmc_kern.c\<close>.  The state is a record with
    one field per map.  The kernel's helpers are an argument \<open>B\<close>.  What the safety properties use of them is \<open>bpf_laws\<close>:
    a successful adjustment moves one end of the packet and stays inside its frame.  The properties on whole requests
    also use \<open>bpf_linux r B\<close>, when an adjustment succeeds: it must leave the fourteen bytes of an Ethernet header, and the packet must not start
    in the first \<open>r\<close> bytes of the frame, which the kernel keeps for itself (32 in \<open>bpf_ref\<close>, the instance of the witnesses).
  \<^item> \<^verbatim>\<open>Bmc_Rx\<close>: \<^verbatim>\<open>bmc_rx_filter_main\<close>, \<^verbatim>\<open>bmc_hash_keys_main\<close>, \<^verbatim>\<open>bmc_prepare_packet_main\<close>; \<^verbatim>\<open>Bmc_Checksum\<close> and
    \<^verbatim>\<open>Bmc_Reply\<close>: \<^verbatim>\<open>compute_ip_checksum\<close> and \<^verbatim>\<open>bmc_write_reply_main\<close>; \<^verbatim>\<open>Bmc_Inval\<close>: \<^verbatim>\<open>bmc_invalidate_cache_main\<close>;
    \<^verbatim>\<open>Bmc_Tx\<close>: \<^verbatim>\<open>bmc_tx_filter_main\<close> and \<^verbatim>\<open>bmc_update_cache_main\<close>.
  \<^item> \<^verbatim>\<open>Bmc_Get\<close>, \<^verbatim>\<open>Bmc_Serve\<close>: the chain of programs on a GET request: a request without cached keys is passed on
    unchanged, one with cached keys is answered by the cached replies.  A request with fewer than fourteen bytes
    from some key on is not looked up to its end, since the helper refuses to move the head there; what then leaves is a property of its own.
  \<^item> \<^verbatim>\<open>Bmc_System\<close>, \<^verbatim>\<open>Bmc_Correct\<close>: both hooks under any sequence of packets: the invariant of the maps, coherence with
    the SET traffic through the contract \<^verbatim>\<open>Coherent_Cache\<close>, the round trip from a reply to the answer of a later request,
    for which stored keys a request is answered, and the case in which a shortened value is answered.  A reply is stored on its first
    occurrence; \<^verbatim>\<open>map_request_count\<close> is declared in \<^verbatim>\<open>bmc_kern.c\<close> and used by no program.  \<^verbatim>\<open>Bmc_Safety\<close>: every store of the receive
    path stays inside the packet.
  \<^item> \<^verbatim>\<open>Bmc_User\<close>: options, the printed text of the statistics, and the signal loop of \<^verbatim>\<open>bmc_user.c\<close>: when it ends and what it
    has written by then.

  \<^bold>\<open>The server.\<close>
  \<^item> \<^verbatim>\<open>Bipbuffer\<close> (\<^verbatim>\<open>bipbuffer.c\<close>): the ring buffer is a queue of bytes in the sense of \<^verbatim>\<open>Byte_Queue\<close> for clients that
    poll no more than there is; what happens to the others is a property too.
  \<^item> \<^verbatim>\<open>Assoc\<close> (\<^verbatim>\<open>assoc.c\<close>): chains in a store of items, expansion and the rounds of the maintenance thread; the table
    meets the contract \<^verbatim>\<open>Key_Index\<close>, that is, it is a map from keys to items whatever the expansion is doing.
  \<^item> \<^verbatim>\<open>Itoa\<close>, \<^verbatim>\<open>Util\<close>, \<^verbatim>\<open>Crc32c\<close>, \<^verbatim>\<open>Key_Hash\<close>: printing and reading of numbers, URI encoding, the three versions of the
    checksum against the polynomial division they implement, and the hash functions.
  \<^item> \<^verbatim>\<open>Item_List\<close>, \<^verbatim>\<open>Slabs\<close>: the item header and the operations of \<^verbatim>\<open>slabs.c\<close>; \<^verbatim>\<open>Slab_Alloc\<close>: the invariant of
    the allocator; \<^verbatim>\<open>Slab_Pool\<close>: it meets the contract \<^verbatim>\<open>Chunk_Pool\<close>; \<^verbatim>\<open>Slab_Init\<close>: start-up and size classes;
    \<^verbatim>\<open>Slab_Automove\<close>: the decision of \<^verbatim>\<open>slab_automove.c\<close>.
  \<^item> \<^verbatim>\<open>Items\<close>, \<^verbatim>\<open>Lru_Pull\<close>, \<^verbatim>\<open>Lru_Maintainer\<close>: the operations of \<^verbatim>\<open>items.c\<close>; their state extends that of the allocator
    and contains the hash table.  \<^verbatim>\<open>Item_Lru\<close>, \<^verbatim>\<open>Item_Store\<close>, \<^verbatim>\<open>Item_Access\<close>, \<^verbatim>\<open>Lru_Correct\<close>, \<^verbatim>\<open>Item_Alloc\<close>: every
    operation keeps the invariant that ties queues, table, reference counts and allocator together, and what it does to
    each of them.
  \<^item> \<^verbatim>\<open>Store_Run\<close>, \<^verbatim>\<open>Store_Correct\<close>: the store as a system of steps of the workers, the background threads and the clock, and
    its properties over all runs: consistency, lookup, bounded eviction, allocation, replacement, and the maintainer's rounds.

  \<^bold>\<open>The prototype.\<close>  \<^verbatim>\<open>Admission\<close>: the cache, the trace generator and the two policies of \<^verbatim>\<open>threshold_trace_demo.py\<close>.  The
  policy holds only keys requested at least as often as the threshold says, and is the plain cache for a threshold of at most
  one; the figures of its documentation are those of the model.

  \<^bold>\<open>Loops and bounds.\<close>  The loops of the kernel programs end at the constants of \<^verbatim>\<open>bmc_common.h\<close>.  The number of tail calls
  the kernel allows is an argument; the theorems on whole requests ask for as many as the request needs, memory safety holds
  for every number.  The signal loop and the maintenance rounds run over explicit lists of signals and of lock
  outcomes.  Walks along chains of items or chunks return \<open>None\<close> when they do not end, and the properties show that they
  do end in every reachable state.  The searches of the LRU tails have the code's own limits: five tries in a search, ten
  in an allocation, 500 moves in a round.  Reference counts have 16 bits in the code; a step that takes references asks that
  fewer than \<^term>\<open>2 ^ 16 - 3 :: nat\<close> are held.  The invariant of the store covers items that fit one chunk and a server
  without tail repair (\<^verbatim>\<open>tail_repair_time\<close> 0, the default).

  \<^bold>\<open>Parameters.\<close>  Outcomes of \<^verbatim>\<open>malloc\<close>, \<^verbatim>\<open>calloc\<close>, \<^verbatim>\<open>realloc\<close> and of trying a lock, the packet helpers of the kernel and the CRC
  instructions of the processors are arguments of the definitions that use them.  A section under a lock is one step.

  \<^bold>\<open>Conventions.\<close>  A copy of bytes to an offset (\<open>memcpy_at\<close>) that runs over the end of its buffer makes the list longer, so
  that the invariant on the sizes of buffers excludes overruns.  In \<open>itoa\<close> the product that C computes in a signed integer
  wraps at 32 bits in the model; a compiler may do otherwise.  The counters of the slab classes and of the page
  mover are natural numbers.  The asynchronous bumps of all worker threads are one list, in the order the maintainer
  takes them; the code has one ring buffer per thread.

  \<^bold>\<open>Not modelled.\<close>
  \<^item> \<^verbatim>\<open>memcached.c\<close> and \<^verbatim>\<open>thread.c\<close>: the connections, the protocols and the threads work on sockets, libevent and
    pthreads; only the switch of the LRU mode is taken from them.
  \<^item> \<^verbatim>\<open>crawler.c\<close>, the page moves of the rebalance thread in \<^verbatim>\<open>slabs.c\<close>, the schedule of the maintainer thread, and
    \<^verbatim>\<open>do_item_alloc_chunk\<close> with the statistics and dump output of \<^verbatim>\<open>items.c\<close>: they work on the store next to the modelled steps; the
    properties over runs are about runs without them.
  \<^item> \<^verbatim>\<open>extstore.c\<close>, \<^verbatim>\<open>storage.c\<close> and \<^verbatim>\<open>slab_automove_extstore.c\<close>: external storage is off in the default build.
  \<^item> \<^verbatim>\<open>logger.c\<close>, \<^verbatim>\<open>stats.c\<close>, \<^verbatim>\<open>restart.c\<close>, \<^verbatim>\<open>cache.c\<close>, TLS, SASL, the password file, privileges and start-up: formatting,
    system calls and libraries.
  \<^item> \<^verbatim>\<open>safe_strtod\<close>: floating point.  Ratios and factors in the settings are rationals instead.
  \<^item> Loading and attaching the eBPF programs, test programs and scripts.
\<close>

end
